(* ===== verification/Prelude.thy ===== *)
theory Prelude
  imports Complex_Main "HOL-Library.Char_ord" "HOL-Library.List_Lexorder" "HOL-Library.Word"
begin

text \<open>
  What every component of the model shares: the fixed-width integers of the C++ code
  (\<open>int64_t\<close> as an \<open>int\<close> with its wrap-around written out, \<open>uint64_t\<close> and
  \<open>size_t\<close> where they can wrap), C strings as the suffix of a buffer from a pointer on,
  association lists for the hash tables of the code, and the lemma collections that the
  component proofs use.
\<close>

section \<open>Lemma collections\<close>

named_theorems spd_inv \<open>an operation keeps the invariant of its component\<close>
named_theorems spd_abs \<open>an operation seen through the abstraction function of its component\<close>

section \<open>Fixed-width integers\<close>

definition int64_min :: int where
  "int64_min = - (2 ^ 63)"

definition int64_max :: int where
  "int64_max = 2 ^ 63 - 1"

definition in_int64 :: "int \<Rightarrow> bool" where
  "in_int64 x \<longleftrightarrow> int64_min \<le> x \<and> x \<le> int64_max"

definition wrap64 :: "int \<Rightarrow> int" where
  \<comment> \<open>two's complement wrap-around of an \<open>int64_t\<close> (and of \<open>std::atomic_int64_t\<close>)\<close>
  "wrap64 x = (x + 2 ^ 63) mod 2 ^ 64 - 2 ^ 63"

definition u64 :: "int \<Rightarrow> int" where
  "u64 x = x mod 2 ^ 64"

lemma wrap64_id [simp]: "in_int64 x \<Longrightarrow> wrap64 x = x"
  by (simp add: in_int64_def int64_min_def int64_max_def wrap64_def)

lemma in_int64_wrap64 [simp]: "in_int64 (wrap64 x)"
proof -
  have "0 \<le> (x + 2 ^ 63) mod (2 ^ 64 :: int)" "(x + 2 ^ 63) mod 2 ^ 64 < (2 ^ 64 :: int)"
    by simp_all
  then show ?thesis
    by (simp add: in_int64_def int64_min_def int64_max_def wrap64_def)
qed

lemma u64_bounds [simp]: "0 \<le> u64 x" "u64 x < 2 ^ 64"
  by (simp_all add: u64_def)

lemma u64_id: "0 \<le> x \<Longrightarrow> x < 2 ^ 64 \<Longrightarrow> u64 x = x"
  by (simp add: u64_def)

section \<open>C strings\<close>

text \<open>
  A \<open>const char*\<close> is modelled by the memory from the pointer to the end of its
  buffer; \<open>*p\<close> is the first element, \<open>p + n\<close> is \<open>drop n\<close>. A C string is what stands
  before the first NUL.
\<close>

type_synonym cmem = "char list"

definition NUL :: char where
  "NUL = CHR 0x00"

definition cstr :: "cmem \<Rightarrow> string" where
  "cstr m = takeWhile (\<lambda>c. c \<noteq> NUL) m"

definition terminated :: "cmem \<Rightarrow> bool" where
  "terminated m \<longleftrightarrow> NUL \<in> set m"

lemma cstr_no_nul [simp]: "NUL \<notin> set (cstr m)"
  by (auto simp: cstr_def dest: set_takeWhileD)

lemma cstr_append_nul [simp]: "NUL \<notin> set s \<Longrightarrow> cstr (s @ NUL # r) = s"
  by (induction s) (auto simp: cstr_def)

lemma cstr_Nil [simp]: "cstr [] = []"
  by (simp add: cstr_def)

lemma cstr_Cons: "cstr (c # m) = (if c = NUL then [] else c # cstr m)"
  by (simp add: cstr_def)

lemma terminated_split:
  assumes "terminated m"
  obtains r where "m = cstr m @ NUL # r"
proof -
  have "m = cstr m @ dropWhile (\<lambda>c. c \<noteq> NUL) m"
    by (simp add: cstr_def)
  moreover have "dropWhile (\<lambda>c. c \<noteq> NUL) m \<noteq> []"
    using assms by (auto simp: terminated_def)
  then obtain c r where d: "dropWhile (\<lambda>c. c \<noteq> NUL) m = c # r"
    by (cases "dropWhile (\<lambda>c. c \<noteq> NUL) m") auto
  moreover have "c = NUL"
    using hd_dropWhile [of "\<lambda>c. c \<noteq> NUL" m] d by auto
  ultimately show thesis
    using that by simp
qed

lemma length_cstr: "terminated m \<Longrightarrow> length (cstr m) < length m"
  by (erule terminated_split) (metis length_append length_Cons less_add_Suc1 add_Suc_right)

lemma drop_within_split:
  assumes t: "terminated m" and n: "n \<le> length (cstr m)"
  obtains r where "drop n m = drop n (cstr m) @ NUL # r"
proof -
  obtain r where m: "m = cstr m @ NUL # r" by (rule terminated_split [OF t])
  have "drop n (cstr m @ NUL # r) = drop n (cstr m) @ NUL # r"
    using n by simp
  with m that show thesis by metis
qed

lemma drop_within: "terminated m \<Longrightarrow> n \<le> length (cstr m) \<Longrightarrow> terminated (drop n m)"
  by (erule (1) drop_within_split) (simp add: terminated_def)

lemma cstr_drop: "terminated m \<Longrightarrow> n \<le> length (cstr m) \<Longrightarrow> cstr (drop n m) = drop n (cstr m)"
  by (erule (1) drop_within_split) (metis cstr_append_nul cstr_no_nul in_set_dropD)

section \<open>Association lists\<close>

text \<open>
  The hash tables of the code (\<open>tsl::hopscotch_map\<close>) are association lists with distinct
  keys; the order of the list is the iteration order, about which no theorem assumes
  anything.
\<close>

definition keys :: "('k \<times> 'v) list \<Rightarrow> 'k list" where
  "keys t = map fst t"

lemma keys_simps [simp]: "keys [] = []" "keys (p # t) = fst p # keys t"
  "keys (t @ u) = keys t @ keys u"
  by (simp_all add: keys_def)

lemma map_of_None_keys: "map_of t k = None \<longleftrightarrow> k \<notin> set (keys t)"
  by (simp add: keys_def map_of_eq_None_iff)

lemma map_of_Some_keys: "map_of t k = Some v \<Longrightarrow> k \<in> set (keys t)"
  by (metis map_of_None_keys option.distinct(1))

lemma distinct_keys_filter: "distinct (keys t) \<Longrightarrow> distinct (keys (filter P t))"
  by (simp add: keys_def distinct_map_filter)

lemma set_keys_filter: "set (keys (filter P t)) \<subseteq> set (keys t)"
  by (auto simp: keys_def)

lemma map_of_snoc [simp]:
  "map_of (t @ [(k, v)]) k' = (case map_of t k' of Some w \<Rightarrow> Some w
     | None \<Rightarrow> if k' = k then Some v else None)"
  by (simp add: map_add_def split: option.splits)

lemma map_of_filter_key:
  "map_of (filter (\<lambda>(k, v). k \<noteq> k0) t) k = (if k = k0 then None else map_of t k)"
  by (induction t) auto

lemma map_of_filter_distinct:
  "distinct (keys t) \<Longrightarrow>
   map_of (filter P t) k = (case map_of t k of Some v \<Rightarrow> if P (k, v) then Some v else None
     | None \<Rightarrow> None)"
proof (induction t)
  case Nil
  then show ?case by simp
next
  case (Cons p t)
  show ?case
  proof (cases "k = fst p")
    case True
    with Cons.prems have "map_of t k = None" by (simp add: map_of_None_keys)
    with Cons True show ?thesis by (cases p) auto
  next
    case False
    with Cons show ?thesis by (cases p) auto
  qed
qed

section \<open>Lists\<close>

lemma take_length_append: "take (length xs) (xs @ ys) = xs"
  by simp

lemma sum_list_map_filter_split:
  "sum_list (map f xs) = sum_list (map f (filter P xs)) + sum_list (map f (filter (Not \<circ> P) xs))"
  for f :: "'a \<Rightarrow> 'b::comm_monoid_add"
  by (induction xs) (simp_all add: algebra_simps)

end
