(* ===== verification/Doubles.thy ===== *)
theory Doubles
  imports Prelude
begin

text \<open>
  The C++ type \<open>double\<close>: IEEE 754 binary64 with round-to-nearest-even. A value is a NaN (the
  code never looks at a NaN's payload), an infinity or a zero with its sign, or a finite
  non-zero rational that is representable in 53 bits. The operations round the exact
  rational result. The lemmas at the end are the facts of the arithmetic that the meters
  rely on: rounding is monotone and idempotent, integers up to \<open>2 ^ 53\<close> are exact, and
  adding a non-negative value never decreases a sum.
\<close>

section \<open>Rounding a rational to 53 bits\<close>

fun ilog2_nat :: "nat \<Rightarrow> nat" where
  "ilog2_nat n = (if n < 2 then 0 else Suc (ilog2_nat (n div 2)))"

declare ilog2_nat.simps [simp del]

definition ilog2 :: "rat \<Rightarrow> int" where
  \<comment> \<open>the binary exponent of a non-zero rational\<close>
  "ilog2 q = (let ab = quotient_of \<bar>q\<bar>;
                  k = int (ilog2_nat (nat (fst ab))) - int (ilog2_nat (nat (snd ab)))
              in if \<bar>q\<bar> < 2 powi k then k - 1 else k)"

definition round_even :: "rat \<Rightarrow> int" where
  "round_even x = (let f = \<lfloor>x\<rfloor>; d = x - of_int f
     in if d < 1 / 2 then f else if 1 / 2 < d then f + 1 else if even f then f else f + 1)"

definition ulp_exp :: "rat \<Rightarrow> int" where
  \<comment> \<open>the exponent of the last place: 52 below the leading bit, \<open>-1074\<close> for subnormals\<close>
  "ulp_exp q = max (ilog2 q - 52) (- 1074)"

definition rnd :: "rat \<Rightarrow> rat" where
  "rnd q = (if q = 0 then 0
            else of_int (round_even (q / 2 powi ulp_exp q)) * 2 powi ulp_exp q)"

section \<open>The values and their operations\<close>

datatype double = NaN | Inf bool | Zero bool | Fin rat
  \<comment> \<open>the flag is the sign bit: \<open>Inf True\<close> is minus infinity, \<open>Zero True\<close> is \<open>-0.0\<close>\<close>

definition huge :: rat where
  "huge = 2 powi 1024"

fun is_nan :: "double \<Rightarrow> bool" where
  "is_nan NaN = True"
| "is_nan _ = False"

fun val :: "double \<Rightarrow> rat" where
  "val (Fin q) = q"
| "val _ = 0"

fun neg_sign :: "double \<Rightarrow> bool" where
  "neg_sign NaN = False"
| "neg_sign (Inf s) = s"
| "neg_sign (Zero s) = s"
| "neg_sign (Fin q) = (q < 0)"

definition to_double :: "bool \<Rightarrow> rat \<Rightarrow> double" where
  \<comment> \<open>round an exact result; the flag is the sign of a zero result\<close>
  "to_double s q = (let r = rnd q in
     if r = 0 then Zero s else if huge \<le> \<bar>r\<bar> then Inf (r < 0) else Fin r)"

definition dint :: "int \<Rightarrow> double" where
  \<comment> \<open>conversion of an integer\<close>
  "dint n = to_double False (of_int n)"

fun dneg :: "double \<Rightarrow> double" where
  "dneg NaN = NaN"
| "dneg (Inf s) = Inf (\<not> s)"
| "dneg (Zero s) = Zero (\<not> s)"
| "dneg (Fin q) = Fin (- q)"

fun dadd :: "double \<Rightarrow> double \<Rightarrow> double" where
  "dadd NaN y = NaN"
| "dadd x NaN = NaN"
| "dadd (Inf s) (Inf t) = (if s = t then Inf s else NaN)"
| "dadd (Inf s) y = Inf s"
| "dadd x (Inf t) = Inf t"
| "dadd (Zero s) (Zero t) = Zero (s \<and> t)"
| "dadd x y = to_double False (val x + val y)"

definition dsub :: "double \<Rightarrow> double \<Rightarrow> double" where
  "dsub x y = dadd x (dneg y)"

definition sign_differs :: "double \<Rightarrow> double \<Rightarrow> bool" where
  "sign_differs x y \<longleftrightarrow> neg_sign x \<noteq> neg_sign y"

fun dmul :: "double \<Rightarrow> double \<Rightarrow> double" where
  "dmul NaN y = NaN"
| "dmul x NaN = NaN"
| "dmul (Inf s) (Zero t) = NaN"
| "dmul (Zero s) (Inf t) = NaN"
| "dmul (Inf s) y = Inf (sign_differs (Inf s) y)"
| "dmul x (Inf t) = Inf (sign_differs x (Inf t))"
| "dmul x y = to_double (sign_differs x y) (val x * val y)"

fun ddiv :: "double \<Rightarrow> double \<Rightarrow> double" where
  "ddiv NaN y = NaN"
| "ddiv x NaN = NaN"
| "ddiv (Inf s) (Inf t) = NaN"
| "ddiv (Inf s) y = Inf (sign_differs (Inf s) y)"
| "ddiv x (Inf t) = Zero (sign_differs x (Inf t))"
| "ddiv (Zero s) (Zero t) = NaN"
| "ddiv x (Zero t) = Inf (sign_differs x (Zero t))"
| "ddiv x y = to_double (sign_differs x y) (val x / val y)"

fun dlt :: "double \<Rightarrow> double \<Rightarrow> bool" where
  "dlt NaN y = False"
| "dlt x NaN = False"
| "dlt (Inf s) (Inf t) = (s \<and> \<not> t)"
| "dlt (Inf s) y = s"
| "dlt x (Inf t) = (\<not> t)"
| "dlt x y = (val x < val y)"

fun deq :: "double \<Rightarrow> double \<Rightarrow> bool" where
  \<comment> \<open>the C++ \<open>==\<close>: NaN differs from itself, the two zeros are equal\<close>
  "deq NaN y = False"
| "deq x NaN = False"
| "deq (Inf s) (Inf t) = (s = t)"
| "deq (Inf s) y = False"
| "deq x (Inf t) = False"
| "deq x y = (val x = val y)"

definition dle :: "double \<Rightarrow> double \<Rightarrow> bool" where
  "dle x y \<longleftrightarrow> dlt x y \<or> deq x y"

definition dpos0 :: double where
  "dpos0 = Zero False"

definition dlowest :: double where
  \<comment> \<open>\<open>std::numeric_limits<double>::lowest()\<close>\<close>
  "dlowest = Fin (- ((2 ^ 53 - 1) * 2 ^ 971))"

definition dbl_to_int64 :: "double \<Rightarrow> int option" where
  \<comment> \<open>\<open>static_cast<int64_t>\<close>: truncation; \<open>None\<close> where the conversion is undefined behaviour\<close>
  "dbl_to_int64 x = (case x of NaN \<Rightarrow> None | Inf _ \<Rightarrow> None | Zero _ \<Rightarrow> Some 0
     | Fin q \<Rightarrow> (let n = (if q < 0 then \<lceil>q\<rceil> else \<lfloor>q\<rfloor>) in if in_int64 n then Some n else None))"

fun wf_double :: "double \<Rightarrow> bool" where
  "wf_double (Fin q) = (q \<noteq> 0 \<and> rnd q = q \<and> \<bar>q\<bar> < huge)"
| "wf_double _ = True"

section \<open>Facts about rounding\<close>

lemma ilog2_nat_bounds: "0 < n \<Longrightarrow> 2 ^ ilog2_nat n \<le> n \<and> n < 2 ^ Suc (ilog2_nat n)"
proof (induction n rule: ilog2_nat.induct)
  case (1 n)
  show ?case
  proof (cases "n < 2")
    case True
    with "1.prems" show ?thesis by (simp add: ilog2_nat.simps [of n])
  next
    case False
    with "1.IH" have "2 ^ ilog2_nat (n div 2) \<le> n div 2" "n div 2 < 2 ^ Suc (ilog2_nat (n div 2))"
      by auto
    with False show ?thesis by (auto simp: ilog2_nat.simps [of n])
  qed
qed

lemma powi_real_nat: "(2::rat) powi (int a - int b) = 2 ^ a / 2 ^ b"
  by (simp add: power_int_diff)

lemma ilog2_bounds:
  assumes "q \<noteq> 0"
  shows "2 powi ilog2 q \<le> \<bar>q\<bar>" and "\<bar>q\<bar> < 2 powi (ilog2 q + 1)"
proof -
  obtain a b where ab: "quotient_of \<bar>q\<bar> = (a, b)" by fastforce
  have b: "0 < b" using quotient_of_denom_pos [OF ab] .
  have q: "\<bar>q\<bar> = of_int a / of_int b" using quotient_of_div [OF ab] .
  have "0 < \<bar>q\<bar>" using assms by simp
  then have a: "0 < a" using b by (simp add: q zero_less_divide_iff)
  define la where "la = ilog2_nat (nat a)"
  define lb where "lb = ilog2_nat (nat b)"
  define k where "k = int la - int lb"
  have "2 ^ la \<le> nat a" "nat a < 2 ^ Suc la"
    using ilog2_nat_bounds [of "nat a"] a by (auto simp: la_def)
  then have A: "2 ^ la \<le> (of_int a :: rat)" "(of_int a :: rat) < 2 * 2 ^ la"
    using a by (metis of_int_of_nat_eq of_nat_le_iff of_nat_numeral of_nat_power int_nat_eq less_imp_le,
        metis of_int_of_nat_eq of_nat_less_iff of_nat_numeral of_nat_power int_nat_eq less_imp_le power_Suc)
  have "2 ^ lb \<le> nat b" "nat b < 2 ^ Suc lb"
    using ilog2_nat_bounds [of "nat b"] b by (auto simp: lb_def)
  then have B: "2 ^ lb \<le> (of_int b :: rat)" "(of_int b :: rat) < 2 * 2 ^ lb"
    using b by (metis of_int_of_nat_eq of_nat_le_iff of_nat_numeral of_nat_power int_nat_eq less_imp_le,
        metis of_int_of_nat_eq of_nat_less_iff of_nat_numeral of_nat_power int_nat_eq less_imp_le power_Suc)
  have P: "0 < (of_int b :: rat)" "0 < (2::rat) ^ lb" using b by simp_all
  have up: "\<bar>q\<bar> < 2 powi (k + 1)"
  proof -
    have "of_int a * 2 ^ lb < 2 * 2 ^ la * (of_int b :: rat)"
      by (rule mult_less_le_imp_less) (use A B P a in auto)
    then have "\<bar>q\<bar> < 2 * (2 ^ la / 2 ^ lb)"
      using P by (simp add: q field_simps)
    then show ?thesis
      by (simp add: k_def power_int_add powi_real_nat mult.commute)
  qed
  have lo: "2 powi (k - 1) \<le> \<bar>q\<bar>"
  proof -
    have "2 ^ la * (of_int b :: rat) \<le> of_int a * (2 * 2 ^ lb)"
      by (rule mult_mono) (use A B P a in auto)
    then have "2 ^ la / 2 ^ lb / 2 \<le> \<bar>q\<bar>"
      using P by (simp add: q field_simps)
    then show ?thesis
      by (simp add: k_def power_int_diff powi_real_nat)
  qed
  have il: "ilog2 q = (if \<bar>q\<bar> < 2 powi k then k - 1 else k)"
    by (simp add: ilog2_def ab k_def la_def lb_def Let_def)
  show "2 powi ilog2 q \<le> \<bar>q\<bar>" "\<bar>q\<bar> < 2 powi (ilog2 q + 1)"
    using up lo by (auto simp: il)
qed

lemma powi_mono: "a \<le> b \<Longrightarrow> (2::rat) powi a \<le> 2 powi b"
  by (rule power_int_increasing) auto

lemma powi_less_iff: "(2::rat) powi a < 2 powi b \<longleftrightarrow> a < b"
  by (meson linorder_not_le one_less_numeral_iff power_int_increasing
      power_int_strict_increasing semiring_norm(76) order_less_imp_le)

lemma ilog2_unique:
  assumes "2 powi k \<le> \<bar>q\<bar>" and "\<bar>q\<bar> < 2 powi (k + 1)"
  shows "ilog2 q = k"
proof -
  have "(0::rat) < 2 powi k" by simp
  with assms(1) have q: "q \<noteq> 0" by (metis abs_0 linorder_not_less)
  have "(2::rat) powi k < 2 powi (ilog2 q + 1)" "(2::rat) powi ilog2 q < 2 powi (k + 1)"
    using ilog2_bounds [OF q] assms by linarith+
  then show ?thesis by (simp add: powi_less_iff)
qed

lemma ilog2_mono: "0 < p \<Longrightarrow> p \<le> q \<Longrightarrow> ilog2 p \<le> ilog2 q"
proof -
  assume "0 < p" "p \<le> q"
  then have "(2::rat) powi ilog2 p < 2 powi (ilog2 q + 1)"
    using ilog2_bounds(1) [of p] ilog2_bounds(2) [of q] by linarith
  then show ?thesis by (simp add: powi_less_iff)
qed

lemma ilog2_neg [simp]: "ilog2 (- q) = ilog2 q"
  by (simp add: ilog2_def)

lemma ulp_exp_neg [simp]: "ulp_exp (- q) = ulp_exp q"
  by (simp add: ulp_exp_def)

lemma round_even_lower: "of_int n \<le> x \<Longrightarrow> n \<le> round_even x"
proof -
  assume "of_int n \<le> x"
  then have "n \<le> \<lfloor>x\<rfloor>" by (simp add: le_floor_iff)
  then show ?thesis by (auto simp: round_even_def Let_def)
qed

lemma round_even_of_int [simp]: "round_even (of_int n) = n"
  by (simp add: round_even_def)

lemma round_even_upper: "x \<le> of_int n \<Longrightarrow> round_even x \<le> n"
proof (cases "x = of_int \<lfloor>x\<rfloor>")
  case True
  moreover assume "x \<le> of_int n"
  ultimately show ?thesis by (metis of_int_le_iff round_even_of_int)
next
  case False
  assume x: "x \<le> of_int n"
  have "of_int \<lfloor>x\<rfloor> < x" using False of_int_floor_le [of x] by linarith
  with x have "\<lfloor>x\<rfloor> < n" by (meson floor_less_iff less_le_trans linorder_not_less of_int_le_iff)
  then show ?thesis by (auto simp: round_even_def Let_def)
qed

lemma round_even_mono: "x \<le> y \<Longrightarrow> round_even x \<le> round_even y"
proof -
  assume xy: "x \<le> y"
  show ?thesis
  proof (cases "\<lfloor>x\<rfloor> = \<lfloor>y\<rfloor>")
    case True
    with xy show ?thesis by (auto simp: round_even_def Let_def)
  next
    case False
    with xy have "\<lfloor>x\<rfloor> + 1 \<le> \<lfloor>y\<rfloor>" using floor_mono [OF xy] by linarith
    moreover have "round_even x \<le> \<lfloor>x\<rfloor> + 1" "\<lfloor>y\<rfloor> \<le> round_even y"
      by (auto simp: round_even_def Let_def)
    ultimately show ?thesis by linarith
  qed
qed

lemma round_even_neg: "round_even (- x) = - round_even x"
proof (cases "x = of_int \<lfloor>x\<rfloor>")
  case True
  then show ?thesis by (metis of_int_minus round_even_of_int)
next
  case False
  then have f: "of_int \<lfloor>x\<rfloor> < x" "x < of_int \<lfloor>x\<rfloor> + 1"
    using of_int_floor_le [of x] floor_correct [of x] by linarith+
  then have "\<lfloor>- x\<rfloor> = - \<lfloor>x\<rfloor> - 1" by (intro floor_unique) auto
  then show ?thesis by (auto simp: round_even_def Let_def)
qed

lemma rnd_0 [simp]: "rnd 0 = 0"
  by (simp add: rnd_def)

lemma rnd_neg: "rnd (- q) = - rnd q"
  by (simp add: rnd_def round_even_neg)

lemma rnd_nonneg: "0 \<le> q \<Longrightarrow> 0 \<le> rnd q"
  by (auto simp: rnd_def intro!: round_even_lower mult_nonneg_nonneg)

lemma powi_nonneg_int: "0 \<le> j \<Longrightarrow> (2::rat) powi j = of_int (2 ^ nat j)"
  by (simp add: power_int_def)

lemma rnd_upper:
  assumes "q \<le> 2 powi j" and "ulp_exp q \<le> j" and "q \<noteq> 0"
  shows "rnd q \<le> 2 powi j"
proof -
  define e where "e = ulp_exp q"
  have "q / 2 powi e \<le> 2 powi (j - e)"
    using assms(1) by (simp add: power_int_diff divide_right_mono)
  also have "\<dots> = of_int (2 ^ nat (j - e))"
    using assms(2) by (simp only: e_def powi_nonneg_int)
  finally have "round_even (q / 2 powi e) \<le> 2 ^ nat (j - e)"
    by (rule round_even_upper)
  then have "of_int (round_even (q / 2 powi e)) \<le> (2::rat) powi (j - e)"
    using assms(2) by (metis e_def of_int_le_iff powi_nonneg_int diff_ge_0_iff_ge)
  then have "of_int (round_even (q / 2 powi e)) * 2 powi e \<le> 2 powi (j - e) * (2::rat) powi e"
    by (rule mult_right_mono) simp
  then show ?thesis
    using assms(3) by (simp add: rnd_def e_def flip: power_int_add)
qed

lemma rnd_lower:
  assumes "2 powi j \<le> q" and "ulp_exp q \<le> j" and "q \<noteq> 0"
  shows "2 powi j \<le> rnd q"
proof -
  define e where "e = ulp_exp q"
  have "of_int (2 ^ nat (j - e)) = (2::rat) powi (j - e)"
    using assms(2) by (simp only: e_def powi_nonneg_int)
  also have "\<dots> \<le> q / 2 powi e"
    using assms(1) by (simp add: power_int_diff divide_right_mono)
  finally have "2 ^ nat (j - e) \<le> round_even (q / 2 powi e)"
    by (rule round_even_lower)
  then have "(2::rat) powi (j - e) \<le> of_int (round_even (q / 2 powi e))"
    using assms(2) by (metis e_def of_int_le_iff powi_nonneg_int diff_ge_0_iff_ge)
  then have "2 powi (j - e) * (2::rat) powi e \<le> of_int (round_even (q / 2 powi e)) * 2 powi e"
    by (rule mult_right_mono) simp
  then show ?thesis
    using assms(3) by (simp add: rnd_def e_def flip: power_int_add)
qed

lemma rnd_mono_pos:
  assumes p: "0 < p" and pq: "p \<le> q"
  shows "rnd p \<le> rnd q"
proof (cases "ulp_exp p = ulp_exp q")
  case True
  have "p / 2 powi ulp_exp q \<le> q / 2 powi ulp_exp q"
    using pq by (simp add: divide_right_mono)
  from round_even_mono [OF this] show ?thesis
    using p pq True by (simp add: rnd_def)
next
  case False
  have "ilog2 p \<le> ilog2 q" using p pq by (rule ilog2_mono)
  with False have L: "ilog2 p < ilog2 q" "ulp_exp q \<le> ilog2 q" "ulp_exp p \<le> ilog2 q"
    by (auto simp: ulp_exp_def max_def split: if_splits)
  have "p \<le> 2 powi (ilog2 p + 1)" using ilog2_bounds(2) [of p] p by simp
  also have "\<dots> \<le> 2 powi ilog2 q" by (rule powi_mono) (use L in simp)
  finally have "rnd p \<le> 2 powi ilog2 q"
    using L p by (intro rnd_upper) auto
  also have "\<dots> \<le> rnd q"
    using L p pq ilog2_bounds(1) [of q] by (intro rnd_lower) auto
  finally show ?thesis .
qed

lemma rnd_mono: "p \<le> q \<Longrightarrow> rnd p \<le> rnd q"
proof -
  assume pq: "p \<le> q"
  consider "0 < p" | "p \<le> 0" "0 \<le> q" | "q < 0" by linarith
  then show ?thesis
  proof cases
    case 1
    then show ?thesis using pq by (rule rnd_mono_pos)
  next
    case 2
    have "rnd p \<le> 0" using rnd_nonneg [of "- p"] 2 by (simp add: rnd_neg)
    also have "0 \<le> rnd q" using 2 by (intro rnd_nonneg)
    finally show ?thesis .
  next
    case 3
    then have "rnd (- q) \<le> rnd (- p)" using pq by (intro rnd_mono_pos) auto
    then show ?thesis by (simp add: rnd_neg)
  qed
qed

lemma rnd_aligned:
  assumes "r = of_int n * 2 powi e" and "ulp_exp r \<le> e"
  shows "rnd r = r"
proof (cases "r = 0")
  case True
  then show ?thesis by simp
next
  case False
  have "r / 2 powi ulp_exp r = of_int n * 2 powi (e - ulp_exp r)"
    using assms(1) by (simp add: power_int_diff)
  also have "\<dots> = of_int (n * 2 ^ nat (e - ulp_exp r))"
    using assms(2) by (simp add: powi_nonneg_int)
  finally have "round_even (r / 2 powi ulp_exp r) = n * 2 ^ nat (e - ulp_exp r)"
    by (simp only: round_even_of_int)
  moreover have "(2::rat) powi (e - ulp_exp r) * 2 powi ulp_exp r = 2 powi e"
    by (subst power_int_add [symmetric]) auto
  then have "(2::rat) ^ nat (e - ulp_exp r) * 2 powi ulp_exp r = 2 powi e"
    using assms(2) powi_nonneg_int [of "e - ulp_exp r"] by simp
  ultimately show ?thesis
    using False assms(1) by (simp add: rnd_def mult.assoc)
qed

lemma rnd_exact:
  assumes r: "r = of_int n * 2 powi e" and n: "\<bar>n\<bar> \<le> 2 ^ 53" and e: "- 1074 \<le> e"
  shows "rnd r = r"
proof (cases "\<bar>n\<bar> = 2 ^ 53")
  case True
  have "\<bar>r\<bar> = of_int \<bar>n\<bar> * 2 powi e" by (simp add: r abs_mult)
  also have "\<dots> = 2 powi (53 + e)" by (simp add: True power_int_add)
  finally have a: "\<bar>r\<bar> = 2 powi (53 + e)" .
  then have "ilog2 r = 53 + e"
    by (intro ilog2_unique) (auto intro: power_int_strict_increasing)
  moreover have "r = of_int (sgn n * 2 ^ 52) * 2 powi (e + 1)"
  proof -
    have "n = sgn n * 2 ^ 53" using True by (metis mult_sgn_abs mult.commute)
    then have "n = sgn n * 2 ^ 52 * 2" by simp
    then have "(of_int n :: rat) = of_int (sgn n * 2 ^ 52) * 2" by (metis of_int_mult of_int_numeral)
    then show ?thesis by (simp add: r power_int_add_1)
  qed
  ultimately show ?thesis
    using e by (intro rnd_aligned [of r "sgn n * 2 ^ 52" "e + 1"]) (auto simp: ulp_exp_def)
next
  case False
  show ?thesis
  proof (cases "r = 0")
    case True
    then show ?thesis by simp
  next
    case r0: False
    have "\<bar>r\<bar> = of_int \<bar>n\<bar> * 2 powi e" by (simp add: r abs_mult)
    also have "\<dots> < of_int (2 ^ 53) * 2 powi e"
      using n False by (intro mult_strict_right_mono) (simp_all only: of_int_less_iff, simp_all)
    also have "\<dots> = 2 powi (53 + e)" by (simp add: power_int_add)
    finally have "(2::rat) powi ilog2 r < 2 powi (53 + e)"
      using ilog2_bounds(1) [OF r0] by linarith
    then have "ilog2 r < 53 + e" by (simp add: powi_less_iff)
    with e show ?thesis
      using r by (intro rnd_aligned [of r n e]) (auto simp: ulp_exp_def)
  qed
qed

lemma rnd_form:
  obtains n e where "rnd q = of_int n * 2 powi e" and "\<bar>n\<bar> \<le> 2 ^ 53" and "- 1074 \<le> e"
proof (cases "q = 0")
  case True
  then show thesis using that [of 0 0] by simp
next
  case False
  define e where "e = ulp_exp q"
  have "ilog2 q + 1 \<le> 53 + e" by (simp add: e_def ulp_exp_def)
  from powi_mono [OF this] have "\<bar>q\<bar> \<le> 2 powi (53 + e)"
    using ilog2_bounds(2) [OF False] by linarith
  then have b: "\<bar>q\<bar> / 2 powi e \<le> 2 ^ 53"
    by (simp add: power_int_add divide_le_eq)
  have "q / 2 powi e \<le> of_int (2 ^ 53)" "of_int (- (2 ^ 53)) \<le> q / 2 powi e"
    using b by (auto simp: abs_le_iff field_simps abs_if split: if_splits)
  then have "round_even (q / 2 powi e) \<le> 2 ^ 53" "- (2 ^ 53) \<le> round_even (q / 2 powi e)"
    using round_even_upper round_even_lower by blast+
  then show thesis
    using that [of "round_even (q / 2 powi e)" e] False
    by (auto simp: rnd_def e_def ulp_exp_def)
qed

lemma rnd_idem [simp]: "rnd (rnd q) = rnd q"
  by (rule rnd_form [of q]) (rule rnd_exact)

lemma rnd_of_int: "\<bar>n\<bar> \<le> 2 ^ 53 \<Longrightarrow> rnd (of_int n) = of_int n"
  by (rule rnd_exact [of _ n 0]) auto

section \<open>Facts about the operations\<close>

lemma huge_pos: "0 < huge" "2 ^ 53 < huge"
proof -
  show "0 < huge" by (simp add: huge_def)
  have "(2::rat) powi 53 < 2 powi 1024" by (simp only: powi_less_iff)
  then show "2 ^ 53 < huge" by (simp add: huge_def)
qed

lemma wf_to_double [simp]: "wf_double (to_double s q)"
  by (simp add: to_double_def Let_def)

lemma wf_dint [simp]: "wf_double (dint n)"
  by (simp add: dint_def)

lemma wf_dadd: "wf_double x \<Longrightarrow> wf_double y \<Longrightarrow> wf_double (dadd x y)"
  by (cases x; cases y) simp_all

lemma wf_dneg: "wf_double x \<Longrightarrow> wf_double (dneg x)"
  by (cases x) (simp_all add: rnd_neg)

lemma wf_dmul: "wf_double x \<Longrightarrow> wf_double y \<Longrightarrow> wf_double (dmul x y)"
  by (cases x; cases y) simp_all

lemma wf_ddiv: "wf_double x \<Longrightarrow> wf_double y \<Longrightarrow> wf_double (ddiv x y)"
  by (cases x; cases y) simp_all

lemma dint_exact: "\<bar>n\<bar> \<le> 2 ^ 53 \<Longrightarrow> dint n = (if n = 0 then Zero False else Fin (of_int n))"
proof -
  assume n: "\<bar>n\<bar> \<le> 2 ^ 53"
  then have "\<bar>of_int n\<bar> \<le> (2 ^ 53 :: rat)"
    by (metis of_int_abs of_int_le_iff of_int_numeral of_int_power)
  with huge_pos(2) have "\<bar>of_int n\<bar> < huge" by linarith
  then show ?thesis
    using n by (simp add: dint_def to_double_def rnd_of_int Let_def)
qed

lemma dint_0 [simp]: "dint 0 = Zero False"
  by (simp add: dint_exact)

lemma val_dint: "\<bar>n\<bar> \<le> 2 ^ 53 \<Longrightarrow> val (dint n) = of_int n"
  by (simp add: dint_exact)

lemma dadd_dint:
  assumes "\<bar>m\<bar> \<le> 2 ^ 53" "\<bar>n\<bar> \<le> 2 ^ 53" "\<bar>m + n\<bar> \<le> 2 ^ 53"
  shows "dadd (dint m) (dint n) = dint (m + n)"
proof -
  have "to_double False (of_int m + of_int n) = dint (m + n)" by (simp add: dint_def)
  moreover have "to_double False (of_int m) = dint m" "to_double False (of_int n) = dint n"
    by (simp_all add: dint_def)
  ultimately show ?thesis
    using assms by (auto simp: dint_exact [OF assms(1)] dint_exact [OF assms(2)] split: if_splits)
qed

lemma is_nan_iff [simp]: "is_nan x \<longleftrightarrow> x = NaN"
  by (cases x) auto

lemma dlt_NaN [simp]: "\<not> dlt x NaN" "\<not> deq x NaN" "\<not> dle x NaN" "\<not> dle NaN x"
  by (cases x; simp add: dle_def)+

lemma dlt_irrefl [simp]: "\<not> dlt x x"
  by (cases x) auto

lemma dlt_trans: "dlt x y \<Longrightarrow> dlt y z \<Longrightarrow> dlt x z"
  by (cases x; cases y; cases z) auto

lemma deq_sym: "deq x y \<longleftrightarrow> deq y x"
  by (cases x; cases y) auto

lemma deq_refl: "x \<noteq> NaN \<Longrightarrow> deq x x"
  by (cases x) auto

lemma dle_refl [simp]: "x \<noteq> NaN \<Longrightarrow> dle x x"
  by (simp add: dle_def deq_refl)

lemma dle_trans: "dle x y \<Longrightarrow> dle y z \<Longrightarrow> dle x z"
  by (cases x; cases y; cases z) (auto simp: dle_def)

lemma dlt_dle_trans: "dlt x y \<Longrightarrow> dle y z \<Longrightarrow> dlt x z"
  by (cases x; cases y; cases z) (auto simp: dle_def)

lemma dlt_not_dle: "x \<noteq> NaN \<Longrightarrow> y \<noteq> NaN \<Longrightarrow> dlt x y \<longleftrightarrow> \<not> dle y x"
  by (cases x; cases y) (auto simp: dle_def)

lemma dle_lin: "x \<noteq> NaN \<Longrightarrow> y \<noteq> NaN \<Longrightarrow> dle x y \<or> dle y x"
  by (cases x; cases y) (auto simp: dle_def)

lemma neg_sign_dlt_zero: "dlt x (Zero s) \<longleftrightarrow> neg_sign x \<and> (\<forall>t. x \<noteq> Zero t)"
  by (cases x) auto

text \<open>
  The non-negative values (with NaN on top) are ordered antisymmetrically: bit-wise equality
  and numeric equality agree on them, so that a compare-and-swap compares values.
\<close>

definition nonneg_d :: "double \<Rightarrow> bool" where
  "nonneg_d x \<longleftrightarrow> wf_double x \<and> \<not> neg_sign x"

definition below :: "double \<Rightarrow> double \<Rightarrow> bool" where
  "below x y \<longleftrightarrow> y = NaN \<or> dle x y"

lemma below_refl: "below x x"
  by (cases "x = NaN") (auto simp: below_def)

lemma below_trans: "below x y \<Longrightarrow> below y z \<Longrightarrow> below x z"
  by (auto simp: below_def intro: dle_trans)

lemma below_antisym: "nonneg_d x \<Longrightarrow> nonneg_d y \<Longrightarrow> below x y \<Longrightarrow> below y x \<Longrightarrow> x = y"
  by (cases x; cases y) (auto simp: below_def nonneg_d_def dle_def)

lemma neg_sign_to_double: "0 \<le> q \<Longrightarrow> \<not> neg_sign (to_double False q)"
  using rnd_nonneg [of q] huge_pos by (auto simp: to_double_def Let_def)

lemma dle_to_double:
  assumes "wf_double (Fin p)" and "p \<le> q" and "0 \<le> p"
  shows "dle (Fin p) (to_double False q)"
proof -
  have "p = rnd p" "p \<noteq> 0" using assms(1) by auto
  with assms(2) have "p \<le> rnd q" using rnd_mono [of p q] by simp
  with \<open>p \<noteq> 0\<close> assms(3) show ?thesis
    by (auto simp: to_double_def Let_def dle_def)
qed

lemma dadd_nonneg:
  assumes "nonneg_d x" and "wf_double d" and "\<not> dlt d dpos0"
  shows "nonneg_d (dadd x d)" and "below x (dadd x d)"
proof -
  have d: "\<And>q. d = Fin q \<Longrightarrow> 0 \<le> q" "\<And>s. d = Inf s \<Longrightarrow> \<not> s"
    using assms(3) by (auto simp: dpos0_def)
  have x: "\<And>q. x = Fin q \<Longrightarrow> 0 \<le> q"
    using assms(1) by (auto simp: nonneg_d_def)
  show "nonneg_d (dadd x d)"
    using assms(1,2) d x
    by (cases x; cases d) (auto simp: nonneg_d_def neg_sign_to_double)
  show "below x (dadd x d)"
    using assms(1,2) d x neg_sign_to_double
    by (cases x; cases d)
       (auto simp: nonneg_d_def below_def dle_to_double, auto simp: dle_def to_double_def Let_def)
qed

end
