(* ===== verification/AtomicNumber.thy ===== *)
theory AtomicNumber
  imports Doubles
begin

text \<open>
  The lock-free updates of \<open>spectator/atomicnumber.h\<close> under interleaving. Any number of
  threads (numbered by \<open>nat\<close>) run \<open>add_double\<close> or \<open>update_max\<close> on one shared cell; every
  atomic access is a step of its own, and a weak compare-and-exchange may fail spuriously.
  A meter's \<open>Measure\<close> drains the cell with \<open>exchange\<close> at any point. The log of a state is a
  ghost: the threads in the order of their successful exchanges.
\<close>

section \<open>add_double\<close>

datatype 'a add_pc = A_start | A_loaded 'a | A_sum 'a 'a | A_done

record 'a add_state =
  a_val :: 'a
  a_pcs :: "nat \<Rightarrow> 'a add_pc"
  a_log :: "nat list"
  a_drained :: "'a list"

definition add_init :: "'a \<Rightarrow> 'a add_state" where
  "add_init v = \<lparr>a_val = v, a_pcs = (\<lambda>_. A_start), a_log = [], a_drained = []\<rparr>"

text \<open>
  \<^verbatim>\<open>
  do { current = n->load();
  } while (!n->compare_exchange_weak(current, n->load() + delta));
  \<close>
  The desired value comes from a second load of the cell.
\<close>

inductive add_step :: "('a \<Rightarrow> 'd \<Rightarrow> 'a) \<Rightarrow> (nat \<Rightarrow> 'd) \<Rightarrow> 'a add_state \<Rightarrow> 'a add_state \<Rightarrow> bool"
  for add deltas where
  load: "a_pcs s i = A_start \<Longrightarrow>
    add_step add deltas s (s\<lparr>a_pcs := (a_pcs s)(i := A_loaded (a_val s))\<rparr>)"
| load_sum: "a_pcs s i = A_loaded c \<Longrightarrow>
    add_step add deltas s (s\<lparr>a_pcs := (a_pcs s)(i := A_sum c (add (a_val s) (deltas i)))\<rparr>)"
| cas_ok: "a_pcs s i = A_sum (a_val s) d \<Longrightarrow>
    add_step add deltas s (s\<lparr>a_val := d, a_pcs := (a_pcs s)(i := A_done), a_log := a_log s @ [i]\<rparr>)"
| cas_fail: "a_pcs s i = A_sum c d \<Longrightarrow>
    add_step add deltas s (s\<lparr>a_pcs := (a_pcs s)(i := A_start)\<rparr>)"

definition drain :: "'a \<Rightarrow> 'a add_state \<Rightarrow> 'a add_state" where
  \<comment> \<open>\<open>count_.exchange(0.0)\<close> of \<open>Measure\<close>\<close>
  "drain z s = s\<lparr>a_val := z, a_drained := a_drained s @ [a_val s]\<rparr>"

inductive add_reach :: "('a \<Rightarrow> 'd \<Rightarrow> 'a) \<Rightarrow> (nat \<Rightarrow> 'd) \<Rightarrow> 'a \<Rightarrow> bool \<Rightarrow> 'a add_state \<Rightarrow> bool"
  for add deltas z drains where
  init: "add_reach add deltas z drains (add_init z)"
| thread: "add_reach add deltas z drains s \<Longrightarrow> add_step add deltas s t \<Longrightarrow>
    add_reach add deltas z drains t"
| measure: "drains \<Longrightarrow> add_reach add deltas z drains s \<Longrightarrow>
    add_reach add deltas z drains (drain z s)"

inductive_cases add_step_elim: "add_step add deltas s t"

definition apply_log :: "('a \<Rightarrow> 'd \<Rightarrow> 'a) \<Rightarrow> (nat \<Rightarrow> 'd) \<Rightarrow> 'a \<Rightarrow> nat list \<Rightarrow> 'a" where
  \<comment> \<open>the additions one after the other, in the order of the log\<close>
  "apply_log add deltas z l = foldl (\<lambda>x i. add x (deltas i)) z l"

lemma apply_log_snoc [simp]: "apply_log add deltas z (l @ [i]) = add (apply_log add deltas z l) (deltas i)"
  by (simp add: apply_log_def)

section \<open>The interface: sums that only grow\<close>

text \<open>
  What makes the second load harmless: the cell's value never returns to an earlier one
  unless nothing was added in between. The deltas of a thread are those its caller lets
  through (\<open>Counter::Add\<close> returns early on a negative one).
\<close>

locale growing_sum =
  fixes add :: "'a \<Rightarrow> 'd \<Rightarrow> 'a"
    and le :: "'a \<Rightarrow> 'a \<Rightarrow> bool"
    and okv :: "'a \<Rightarrow> bool"
    and okd :: "'d \<Rightarrow> bool"
  assumes le_refl: "le x x"
    and le_trans: "le x y \<Longrightarrow> le y z \<Longrightarrow> le x z"
    and le_antisym: "okv x \<Longrightarrow> okv y \<Longrightarrow> le x y \<Longrightarrow> le y x \<Longrightarrow> x = y"
    and okv_add: "okv x \<Longrightarrow> okd d \<Longrightarrow> okv (add x d)"
    and le_add: "okv x \<Longrightarrow> okd d \<Longrightarrow> le x (add x d)"
begin

definition add_inv :: "(nat \<Rightarrow> 'd) \<Rightarrow> 'a \<Rightarrow> 'a add_state \<Rightarrow> bool" where
  "add_inv deltas z s \<longleftrightarrow> okv (a_val s) \<and> a_val s = apply_log add deltas z (a_log s) \<and>
     distinct (a_log s) \<and> (\<forall>i. i \<in> set (a_log s) \<longleftrightarrow> a_pcs s i = A_done) \<and>
     (\<forall>i c. a_pcs s i = A_loaded c \<longrightarrow> okv c \<and> le c (a_val s)) \<and>
     (\<forall>i c d. a_pcs s i = A_sum c d \<longrightarrow> okv c \<and>
        (\<exists>m. okv m \<and> le c m \<and> le m (a_val s) \<and> d = add m (deltas i)))"

lemma add_inv_step:
  assumes ok: "\<forall>i. okd (deltas i)" and inv: "add_inv deltas z s" and step: "add_step add deltas s t"
  shows "add_inv deltas z t"
  using step
proof cases
  case (load i)
  then show ?thesis using inv by (auto simp: add_inv_def le_refl)
next
  case (load_sum i c)
  then show ?thesis using inv by (auto simp: add_inv_def intro: le_refl)
next
  case (cas_fail i c d)
  then show ?thesis using inv by (auto simp: add_inv_def)
next
  case (cas_ok i d)
  obtain m where m: "okv m" "le (a_val s) m" "le m (a_val s)" "d = add m (deltas i)"
    using inv [unfolded add_inv_def, THEN conjunct2, THEN conjunct2, THEN conjunct2,
        THEN conjunct2, THEN conjunct2, rule_format, OF cas_ok(2)] by blast
  have v: "okv (a_val s)" using inv unfolding add_inv_def by (elim conjE)
  have d: "d = add (a_val s) (deltas i)"
    using m le_antisym [OF v m(1)] by simp
  have up: "le x d" if "le x (a_val s)" for x
    using that le_add [OF v] ok le_trans d by blast
  have "i \<notin> set (a_log s)" using inv cas_ok(2) by (auto simp: add_inv_def)
  moreover have "okv d" using v ok d okv_add by simp
  moreover have "d = apply_log add deltas z (a_log s @ [i])"
    using inv d by (simp add: add_inv_def)
  ultimately show ?thesis
    using inv up unfolding cas_ok(1) add_inv_def by auto metis
qed

lemma add_reach_inv:
  assumes "add_reach add deltas z False s" and "\<forall>i. okd (deltas i)" and "okv z"
  shows "add_inv deltas z s"
  using assms(1)
proof induction
  case init
  then show ?case using assms(3) by (auto simp: add_inv_def add_init_def apply_log_def)
next
  case (thread s t)
  then show ?case using add_inv_step assms(2) by blast
next
  case (measure s)
  then show ?case by simp
qed

lemma linearizable:
  assumes "add_reach add deltas z False s" and "\<forall>i. okd (deltas i)" and "okv z"
  shows "a_val s = apply_log add deltas z (a_log s)" and "distinct (a_log s)"
    and "set (a_log s) = {i. a_pcs s i = A_done}"
  using add_reach_inv [OF assms] by (auto simp: add_inv_def)

end

text \<open>The meters' cells: non-negative doubles with rounded addition.\<close>

definition ok_delta :: "double \<Rightarrow> bool" where
  "ok_delta d \<longleftrightarrow> wf_double d \<and> \<not> dlt d dpos0"

interpretation dsum: growing_sum dadd below nonneg_d ok_delta
  by unfold_locales
    (auto simp: ok_delta_def intro: below_refl below_trans below_antisym dadd_nonneg)

section \<open>update_max\<close>

text \<open>
  \<^verbatim>\<open>
  do { current = n->load();
  } while (value > current && !n->compare_exchange_weak(current, value));
  \<close>
\<close>

datatype 'a max_pc = M_start | M_loaded 'a | M_done

record 'a max_state =
  x_val :: 'a
  x_pcs :: "nat \<Rightarrow> 'a max_pc"

definition max_init :: "'a \<Rightarrow> 'a max_state" where
  "max_init v = \<lparr>x_val = v, x_pcs = (\<lambda>_. M_start)\<rparr>"

inductive max_step :: "('a \<Rightarrow> 'a \<Rightarrow> bool) \<Rightarrow> (nat \<Rightarrow> 'a) \<Rightarrow> 'a max_state \<Rightarrow> 'a max_state \<Rightarrow> bool"
  for lt vals where
  m_load: "x_pcs s i = M_start \<Longrightarrow>
    max_step lt vals s (s\<lparr>x_pcs := (x_pcs s)(i := M_loaded (x_val s))\<rparr>)"
| m_skip: "x_pcs s i = M_loaded c \<Longrightarrow> \<not> lt c (vals i) \<Longrightarrow>
    max_step lt vals s (s\<lparr>x_pcs := (x_pcs s)(i := M_done)\<rparr>)"
| m_cas_ok: "x_pcs s i = M_loaded (x_val s) \<Longrightarrow> lt (x_val s) (vals i) \<Longrightarrow>
    max_step lt vals s (s\<lparr>x_val := vals i, x_pcs := (x_pcs s)(i := M_done)\<rparr>)"
| m_cas_fail: "x_pcs s i = M_loaded c \<Longrightarrow> lt c (vals i) \<Longrightarrow>
    max_step lt vals s (s\<lparr>x_pcs := (x_pcs s)(i := M_start)\<rparr>)"

inductive max_reach :: "('a \<Rightarrow> 'a \<Rightarrow> bool) \<Rightarrow> (nat \<Rightarrow> 'a) \<Rightarrow> 'a \<Rightarrow> 'a max_state \<Rightarrow> bool"
  for lt vals z where
  m_init: "max_reach lt vals z (max_init z)"
| m_thread: "max_reach lt vals z s \<Longrightarrow> max_step lt vals s t \<Longrightarrow> max_reach lt vals z t"

definition max_inv :: "(nat \<Rightarrow> double) \<Rightarrow> double \<Rightarrow> double max_state \<Rightarrow> bool" where
  "max_inv vals z s \<longleftrightarrow> dle z (x_val s) \<and> (x_val s = z \<or> (\<exists>i. x_pcs s i = M_done \<and> x_val s = vals i)) \<and>
     (\<forall>i c. x_pcs s i = M_loaded c \<longrightarrow> dle c (x_val s)) \<and>
     (\<forall>i. x_pcs s i = M_done \<longrightarrow> \<not> dlt (x_val s) (vals i))"

lemma dle_dlt_trans: "dle x y \<Longrightarrow> dlt y z \<Longrightarrow> dlt x z"
  by (cases x; cases y; cases z) (auto simp: dle_def)

lemma max_invI:
  assumes "dle z (x_val s)" and "x_val s = z \<or> x_pcs s j = M_done \<and> x_val s = vals j"
    and "\<And>i c. x_pcs s i = M_loaded c \<Longrightarrow> dle c (x_val s)"
    and "\<And>i. x_pcs s i = M_done \<Longrightarrow> \<not> dlt (x_val s) (vals i)"
  shows "max_inv vals z s"
  using assms unfolding max_inv_def by blast

lemma max_inv_step:
  assumes inv: "max_inv vals z s" and step: "max_step dlt vals s t"
  shows "max_inv vals z t"
proof -
  obtain j where j: "x_val s = z \<or> x_pcs s j = M_done \<and> x_val s = vals j"
    using inv by (auto simp: max_inv_def)
  have z: "dle z (x_val s)" and nn: "x_val s \<noteq> NaN" using inv by (auto simp: max_inv_def)
  have ld: "dle c (x_val s)" if "x_pcs s i = M_loaded c" for i c
    using inv that by (auto simp: max_inv_def)
  have dn: "\<not> dlt (x_val s) (vals i)" if "x_pcs s i = M_done" for i
    using inv that by (auto simp: max_inv_def)
  from step show ?thesis
  proof cases
    case (m_load i)
    show ?thesis by (rule max_invI [where j = j]) (use m_load j z nn ld dn in \<open>auto split: if_splits\<close>)
  next
    case (m_skip i c)
    then have "\<not> dlt (x_val s) (vals i)" using ld dle_dlt_trans by blast
    then show ?thesis
      by (intro max_invI [where j = j]) (use m_skip j z ld dn in \<open>auto split: if_splits\<close>)
  next
    case (m_cas_ok i)
    have up: "dle x (vals i)" if "dle x (x_val s)" for x
      using that dle_dlt_trans [OF that m_cas_ok(3)] by (auto simp: dle_def)
    have "\<not> dlt (vals i) (vals k)" if "x_pcs s k = M_done" for k
      using m_cas_ok(3) dn [OF that] dlt_trans by blast
    then show ?thesis
      by (intro max_invI [where j = i])
        (use m_cas_ok z ld dn up in \<open>auto split: if_splits\<close>)
  next
    case (m_cas_fail i c)
    show ?thesis by (rule max_invI [where j = j]) (use m_cas_fail j z ld dn in \<open>auto split: if_splits\<close>)
  qed
qed

lemma max_reach_inv: "max_reach dlt vals z s \<Longrightarrow> z \<noteq> NaN \<Longrightarrow> max_inv vals z s"
proof (induction rule: max_reach.induct)
  case m_init
  then show ?case by (auto simp: max_inv_def max_init_def)
next
  case (m_thread s t)
  then show ?case using max_inv_step by blast
qed

section \<open>Properties\<close>

text \<open>
  C23. Without a concurrent drain, \<open>add_double\<close> loses no update: in every reachable state the
  cell holds the (rounded) sum of the deltas of exactly the threads that have finished, each
  counted once, added in the order of their exchanges. The second load inside the exchange
  is harmless because the sums only grow.
\<close>

theorem add_double_linearizable:
  assumes "add_reach dadd deltas dpos0 False s" and "\<forall>i. ok_delta (deltas i)"
  shows "a_val s = foldl (\<lambda>x i. dadd x (deltas i)) dpos0 (a_log s) \<and> distinct (a_log s) \<and>
    set (a_log s) = {i. a_pcs s i = A_done}"
  using dsum.linearizable [OF assms] by (simp add: nonneg_d_def dpos0_def apply_log_def)

lemma add_alone:
  assumes "add_reach add deltas z drains s" and "a_pcs s i = A_start"
  shows "add_reach add deltas z drains
    (s\<lparr>a_val := add (a_val s) (deltas i), a_pcs := (a_pcs s)(i := A_done), a_log := a_log s @ [i]\<rparr>)"
proof -
  let ?s1 = "s\<lparr>a_pcs := (a_pcs s)(i := A_loaded (a_val s))\<rparr>"
  let ?s2 = "?s1\<lparr>a_pcs := (a_pcs ?s1)(i := A_sum (a_val s) (add (a_val ?s1) (deltas i)))\<rparr>"
  have 1: "add_reach add deltas z drains ?s1"
    by (rule add_reach.thread [OF assms(1) add_step.load [where i = i]]) (use assms(2) in simp)
  have 2: "add_reach add deltas z drains ?s2"
    by (rule add_reach.thread [OF 1 add_step.load_sum [where i = i]]) simp
  have "a_pcs ?s2 i = A_sum (a_val ?s2) (add (a_val s) (deltas i))" by simp
  from add_reach.thread [OF 2 add_step.cas_ok [OF this]] show ?thesis by simp
qed

theorem add_double_linearizable_witness:
  "\<exists>s. add_reach dadd (\<lambda>_. dint 1) dpos0 False s \<and> a_log s = [0] \<and>
    a_val s = foldl (\<lambda>x i. dadd x (dint 1)) dpos0 [0::nat]"
proof -
  let ?s = "(add_init dpos0)\<lparr>a_val := dadd (a_val (add_init dpos0)) (dint 1),
    a_pcs := (a_pcs (add_init dpos0))(0 := A_done), a_log := a_log (add_init dpos0) @ [0]\<rparr>"
  have r: "add_reach dadd (\<lambda>_. dint 1) dpos0 False ?s"
    by (rule add_alone [OF add_reach.init]) (simp add: add_init_def)
  have l: "a_log ?s = [0]" by (simp add: add_init_def)
  have "dint 1 = Fin 1" using dint_exact [of 1] by simp
  then have ok: "\<forall>i::nat. ok_delta (dint 1)"
    using wf_dint [of 1] by (simp add: ok_delta_def dpos0_def)
  show ?thesis
    using add_double_linearizable [OF r ok] l r by (intro exI [of _ ?s]) (simp only: simp_thms)
qed

text \<open>
  With a concurrent drain \<open>add_double\<close> double-counts: because the value to store comes from a
  second load, a drain between that load and the exchange lets the exchange succeed against a
  reset cell with a sum that includes what has just been drained. Two increments of 5 and 1 are
  then reported as 5 and 6.
\<close>

theorem add_double_drain_double_counts:
  "\<exists>s. add_reach dadd (\<lambda>i. dint (if i = 0 then 1 else 5)) dpos0 True s \<and>
    a_log s = [1, 0] \<and> a_drained s = [dint 5] \<and> a_val s = dint 6"
proof -
  let ?d = "\<lambda>i::nat. dint (if i = 0 then 1 else 5)"
  let ?R = "add_reach dadd ?d dpos0 True"
  define s1 where "s1 = (add_init dpos0)\<lparr>a_pcs := (a_pcs (add_init dpos0))(0 := A_loaded dpos0)\<rparr>"
  have "add_step dadd ?d (add_init dpos0) s1"
    using add_step.load [of "add_init dpos0" 0 dadd ?d] by (simp add: s1_def add_init_def)
  then have 1: "?R s1" by (rule add_reach.thread [OF add_reach.init])
  define s2 where "s2 = s1\<lparr>a_val := dadd (a_val s1) (?d 1), a_pcs := (a_pcs s1)(1 := A_done),
    a_log := a_log s1 @ [1]\<rparr>"
  have 2: "?R s2" unfolding s2_def
    by (rule add_alone [OF 1]) (simp add: s1_def add_init_def)
  have v2: "a_val s2 = dint 5"
    using dadd_dint [of 0 5] by (simp add: s2_def s1_def add_init_def dint_0 dpos0_def)
  define s3 where "s3 = s2\<lparr>a_pcs := (a_pcs s2)(0 := A_sum dpos0 (dadd (a_val s2) (?d 0)))\<rparr>"
  have "a_pcs s2 0 = A_loaded dpos0" by (simp add: s2_def s1_def)
  then have 3: "?R s3"
    unfolding s3_def by (rule add_reach.thread [OF 2 add_step.load_sum])
  have 4: "?R (drain dpos0 s3)" by (rule add_reach.measure [OF TrueI 3])
  have "a_pcs (drain dpos0 s3) 0 = A_sum (a_val (drain dpos0 s3)) (dadd (a_val s2) (?d 0))"
    by (simp add: drain_def s3_def)
  from add_reach.thread [OF 4 add_step.cas_ok [OF this]]
  have 5: "?R (drain dpos0 s3\<lparr>a_val := dadd (a_val s2) (?d 0),
      a_pcs := (a_pcs (drain dpos0 s3))(0 := A_done), a_log := a_log (drain dpos0 s3) @ [0]\<rparr>)" .
  have "dadd (a_val s2) (?d 0) = dint 6"
    unfolding v2 by (simp add: dadd_dint)
  moreover have "a_log (drain dpos0 s3) = [1]" "a_drained (drain dpos0 s3) = [dint 5]"
    using v2 by (simp_all add: drain_def s3_def s2_def s1_def add_init_def)
  ultimately show ?thesis using 5 by (intro exI [of _ "drain dpos0 s3\<lparr>a_val := dadd (a_val s2) (?d 0),
      a_pcs := (a_pcs (drain dpos0 s3))(0 := A_done), a_log := a_log (drain dpos0 s3) @ [0]\<rparr>"]) simp
qed

text \<open>
  \<open>update_max\<close> computes the maximum under any interleaving: the cell never falls below its
  start value, holds either that or the argument of a finished thread, and no finished
  thread's argument exceeds it (a NaN argument never counts).
\<close>

theorem update_max_linearizable:
  assumes "max_reach dlt vals z s" and "z \<noteq> NaN"
  shows "dle z (x_val s) \<and> (x_val s = z \<or> (\<exists>i. x_pcs s i = M_done \<and> x_val s = vals i)) \<and>
    (\<forall>i. x_pcs s i = M_done \<longrightarrow> \<not> dlt (x_val s) (vals i))"
  using max_reach_inv [OF assms] by (simp add: max_inv_def)

theorem update_max_linearizable_witness:
  "\<exists>s. max_reach dlt (\<lambda>_. Inf False) dlowest s \<and> x_pcs s 0 = M_done \<and> \<not> dlt (x_val s) (Inf False)"
proof -
  let ?v = "\<lambda>_::nat. Inf False"
  let ?s1 = "(max_init dlowest)\<lparr>x_pcs := (x_pcs (max_init dlowest))(0 := M_loaded dlowest)\<rparr>"
  have "max_step dlt ?v (max_init dlowest) ?s1"
    using max_step.m_load [of "max_init dlowest" 0 dlt ?v] by (simp add: max_init_def)
  then have 1: "max_reach dlt ?v dlowest ?s1" by (rule max_reach.m_thread [OF max_reach.m_init])
  let ?s2 = "?s1\<lparr>x_val := ?v 0, x_pcs := (x_pcs ?s1)(0 := M_done)\<rparr>"
  have "max_step dlt ?v ?s1 ?s2"
    by (rule max_step.m_cas_ok) (simp_all add: max_init_def dlowest_def)
  then have 2: "max_reach dlt ?v dlowest ?s2" by (rule max_reach.m_thread [OF 1])
  have "x_pcs ?s2 0 = M_done" by simp
  with update_max_linearizable [OF 2] 2 show ?thesis
    by (metis (no_types, lifting) dlowest_def double.distinct(5))
qed

end
