(* ===== verification/StringPool.thy ===== *)
theory StringPool
  imports Prelude
begin

text \<open>
  The interning pool of Atlas strings: \<open>spectator/string_pool.cc\<close>, \<open>spectator/string_pool.h\<close>,
  \<open>spectator/string_intern.h\<close> and the generator of the character table,
  \<open>tools/gen_valid_chars.cc\<close>. A \<open>StrRef\<close> is the address of an allocated copy; the model
  numbers the copies in the order of allocation. The locale \<open>interner\<close> is what the rest
  of the code relies on: equality of references is equality of texts, for ever.
\<close>

section \<open>The character table\<close>

definition chars_from :: "nat \<Rightarrow> nat \<Rightarrow> char list" where
  \<comment> \<open>\<open>for (auto ch = lo; ch <= hi; ++ch)\<close>\<close>
  "chars_from lo hi = map char_of [lo..<Suc hi]"

definition allow :: "char \<Rightarrow> char list \<Rightarrow> char list" where
  \<comment> \<open>\<open>charsAllowed[ch] = ch\<close>\<close>
  "allow c a = a[of_char c := c]"

definition allowed_chars :: "char list" where
  "allowed_chars = [CHR ''.'', CHR ''-''] @ chars_from 48 57 @ chars_from 97 122
     @ chars_from 65 90 @ [CHR ''~'', CHR ''^'']"

definition kAtlasChars :: "char list" where
  "kAtlasChars = fold allow allowed_chars (replicate 256 CHR ''_'')"

definition atlas_char :: "char \<Rightarrow> char" where
  "atlas_char c = kAtlasChars ! of_char c"

definition sanitize :: "string \<Rightarrow> string" where
  \<comment> \<open>the copy loop of \<open>StringPool::Intern\<close>\<close>
  "sanitize s = map atlas_char s"

section \<open>The pool\<close>

record pool =
  p_table :: "(string \<times> nat) list"    \<comment> \<open>\<open>table_\<close>: text to reference\<close>
  p_heap :: "string list"               \<comment> \<open>the allocated copies, by address\<close>
  p_alloc_size :: "64 word"
  p_table_size :: "64 word"
  p_hits :: "64 word"
  p_misses :: "64 word"

definition empty_pool :: pool where
  "empty_pool = \<lparr>p_table = [], p_heap = [], p_alloc_size = 0, p_table_size = 0,
     p_hits = 0, p_misses = 0\<rparr>"

definition ref_text :: "pool \<Rightarrow> nat \<Rightarrow> string" where
  \<comment> \<open>\<open>StrRef::Get\<close>\<close>
  "ref_text P r = p_heap P ! r"

definition intern :: "string \<Rightarrow> pool \<Rightarrow> nat \<times> pool" where
  "intern s P = (case map_of (p_table P) s of
     Some r \<Rightarrow> (r, P\<lparr>p_hits := p_hits P + 1\<rparr>)
   | None \<Rightarrow>
      (let copy = sanitize s; ref = length (p_heap P)
       in case map_of (p_table P) copy of
            None \<Rightarrow> (ref, P\<lparr>p_table := p_table P @ [(copy, ref)],
                            p_heap := p_heap P @ [copy],
                            p_alloc_size := p_alloc_size P + (of_nat (length s) + 1),
                            p_misses := p_misses P + 1,
                            p_table_size := p_table_size P + 1\<rparr>)
          | Some r \<Rightarrow> (r, P\<lparr>p_hits := p_hits P + 1\<rparr>)))"

primrec intern_all :: "string list \<Rightarrow> pool \<Rightarrow> nat list \<times> pool" where
  "intern_all [] P = ([], P)"
| "intern_all (s # ss) P = (let (r, P1) = intern s P; (rs, P2) = intern_all ss P1 in (r # rs, P2))"

section \<open>The charset\<close>

lemma length_fold_allow [simp]: "length (fold allow cs a) = length a"
  by (induction cs arbitrary: a) (simp_all add: allow_def)

lemma of_char_bound: "(of_char c :: nat) < 256"
  by (metis nat_of_char_less_256 of_char_of)

lemma fold_allow_nth:
  "length a = 256 \<Longrightarrow> fold allow cs a ! of_char c = (if c \<in> set cs then c else a ! of_char c)"
proof (induction cs arbitrary: a)
  case Nil
  then show ?case by simp
next
  case (Cons d cs)
  have "(of_char d :: nat) = of_char c \<longleftrightarrow> d = c"
    by (metis char_of_char)
  with Cons of_char_bound [of c] show ?case
    by (auto simp: allow_def nth_list_update)
qed

lemma atlas_char_eq: "atlas_char c = (if c \<in> set allowed_chars then c else CHR ''_'')"
  using of_char_bound [of c] by (simp add: atlas_char_def kAtlasChars_def fold_allow_nth)

lemma char_of_in_range: "c \<in> set (chars_from lo hi) \<longleftrightarrow> lo \<le> of_char c \<and> of_char c \<le> hi" if "hi < 256"
proof
  assume "c \<in> set (chars_from lo hi)"
  then obtain n where "lo \<le> n" "n \<le> hi" "c = char_of n"
    by (auto simp: chars_from_def less_Suc_eq_le)
  with that show "lo \<le> of_char c \<and> of_char c \<le> hi"
    by (simp add: of_char_of)
next
  assume "lo \<le> of_char c \<and> of_char c \<le> hi"
  then have "of_char c \<in> set [lo..<Suc hi]" by auto
  moreover have "char_of (of_char c :: nat) = c" by simp
  ultimately show "c \<in> set (chars_from lo hi)"
    unfolding chars_from_def by (metis imageI list.set_map)
qed

lemma atlas_char_code [code]:
  "atlas_char c = (let n = of_char c :: nat in
     if n = 45 \<or> n = 46 \<or> 48 \<le> n \<and> n \<le> 57 \<or> 65 \<le> n \<and> n \<le> 90 \<or> n = 94
        \<or> 97 \<le> n \<and> n \<le> 122 \<or> n = 126 then c else CHR ''_'')"
proof -
  have "of_char CHR ''.'' = (46::nat)" "of_char CHR ''-'' = (45::nat)"
    "of_char CHR ''~'' = (126::nat)" "of_char CHR ''^'' = (94::nat)" by code_simp+
  then have "c = CHR ''.'' \<longleftrightarrow> of_char c = (46::nat)" "c = CHR ''-'' \<longleftrightarrow> of_char c = (45::nat)"
    "c = CHR ''~'' \<longleftrightarrow> of_char c = (126::nat)" "c = CHR ''^'' \<longleftrightarrow> of_char c = (94::nat)"
    by (metis of_char_eq_iff)+
  then show ?thesis
    by (simp add: atlas_char_eq allowed_chars_def char_of_in_range Let_def)
qed

lemma atlas_char_idem [simp]: "atlas_char (atlas_char c) = atlas_char c"
  by (auto simp: atlas_char_eq)

lemma sanitize_idem [simp]: "sanitize (sanitize s) = sanitize s"
  by (simp add: sanitize_def)

lemma length_sanitize [simp]: "length (sanitize s) = length s"
  by (simp add: sanitize_def)

lemma sanitize_id_iff: "sanitize s = s \<longleftrightarrow> set s \<subseteq> insert (CHR ''_'') (set allowed_chars)"
  by (induction s) (auto simp: sanitize_def atlas_char_eq)

section \<open>The interface\<close>

locale interner =
  fixes intern_op :: "string \<Rightarrow> 'p \<Rightarrow> 'r \<times> 'p"
    and text_of :: "'p \<Rightarrow> 'r \<Rightarrow> string"
    and live :: "'p \<Rightarrow> 'r \<Rightarrow> bool"
    and canon :: "string \<Rightarrow> string"
    and ok :: "'p \<Rightarrow> bool"
  assumes ok_intern: "ok p \<Longrightarrow> intern_op s p = (r, p') \<Longrightarrow> ok p'"
    and live_intern: "ok p \<Longrightarrow> intern_op s p = (r, p') \<Longrightarrow> live p' r"
    and text_intern: "ok p \<Longrightarrow> intern_op s p = (r, p') \<Longrightarrow> text_of p' r = canon s"
    and live_stable: "ok p \<Longrightarrow> intern_op s p = (r, p') \<Longrightarrow> live p x \<Longrightarrow> live p' x"
    and text_stable: "ok p \<Longrightarrow> intern_op s p = (r, p') \<Longrightarrow> live p x \<Longrightarrow> text_of p' x = text_of p x"
    and text_inj: "ok p \<Longrightarrow> live p x \<Longrightarrow> live p y \<Longrightarrow> text_of p x = text_of p y \<Longrightarrow> x = y"
begin

primrec run :: "string list \<Rightarrow> 'p \<Rightarrow> 'r list \<times> 'p" where
  "run [] p = ([], p)"
| "run (s # ss) p = (let (r, p1) = intern_op s p; (rs, p2) = run ss p1 in (r # rs, p2))"

lemma run_stable:
  "ok p \<Longrightarrow> run ss p = (rs, p') \<Longrightarrow> ok p' \<and> (\<forall>x. live p x \<longrightarrow> live p' x \<and> text_of p' x = text_of p x)"
proof (induction ss arbitrary: p rs p')
  case Nil
  then show ?case by simp
next
  case (Cons s ss)
  obtain r p1 where 1: "intern_op s p = (r, p1)" by fastforce
  obtain rs2 p2 where 2: "run ss p1 = (rs2, p2)" by fastforce
  have p': "p' = p2" using Cons.prems(2) 1 2 by simp
  have "ok p2 \<and> (\<forall>x. live p1 x \<longrightarrow> live p2 x \<and> text_of p2 x = text_of p1 x)"
    using Cons.IH ok_intern [OF Cons.prems(1) 1] 2 by blast
  with live_stable [OF Cons.prems(1) 1] text_stable [OF Cons.prems(1) 1] show ?case
    by (simp add: p')
qed

lemma run_texts:
  "ok p \<Longrightarrow> run ss p = (rs, p') \<Longrightarrow>
   length rs = length ss \<and> (\<forall>r \<in> set rs. live p' r) \<and> map (text_of p') rs = map canon ss"
proof (induction ss arbitrary: p rs p')
  case Nil
  then show ?case by simp
next
  case (Cons s ss)
  obtain r p1 where 1: "intern_op s p = (r, p1)" by fastforce
  obtain rs2 p2 where 2: "run ss p1 = (rs2, p2)" by fastforce
  have eq: "rs = r # rs2" "p' = p2" using Cons.prems(2) 1 2 by simp_all
  note ok1 = ok_intern [OF Cons.prems(1) 1]
  have "live p2 r \<and> text_of p2 r = canon s"
    using run_stable [OF ok1 2] live_intern [OF Cons.prems(1) 1] text_intern [OF Cons.prems(1) 1]
    by simp
  with Cons.IH [OF ok1 2] show ?case by (simp add: eq)
qed

lemma refs_eq_iff:
  "ok p \<Longrightarrow> live p x \<Longrightarrow> live p y \<Longrightarrow> x = y \<longleftrightarrow> text_of p x = text_of p y"
  using text_inj by blast

lemma run_refs_eq_iff:
  assumes "ok p" and "run ss p = (rs, p')" and "i < length ss" and "j < length ss"
  shows "rs ! i = rs ! j \<longleftrightarrow> canon (ss ! i) = canon (ss ! j)"
proof -
  note t = run_texts [OF assms(1,2)]
  have "text_of p' (rs ! i) = canon (ss ! i)" "text_of p' (rs ! j) = canon (ss ! j)"
    using t assms(3,4) by (metis nth_map)+
  moreover have "live p' (rs ! i)" "live p' (rs ! j)"
    using t assms(3,4) by auto
  moreover have "ok p'" using run_stable [OF assms(1,2)] by simp
  ultimately show ?thesis using refs_eq_iff by metis
qed

lemma ref_arrays_eq_iff:
  "ok p \<Longrightarrow> \<forall>x \<in> set xs \<union> set ys. live p x \<Longrightarrow>
   xs = ys \<longleftrightarrow> map (text_of p) xs = map (text_of p) ys"
proof -
  assume ok: "ok p" and live: "\<forall>x \<in> set xs \<union> set ys. live p x"
  have "inj_on (text_of p) (set xs \<union> set ys)"
    using live by (intro inj_onI text_inj [OF ok]) auto
  then show ?thesis using inj_on_map_eq_map by blast
qed

end

section \<open>The pool provides it\<close>

definition pool_inv :: "pool \<Rightarrow> bool" where
  "pool_inv P \<longleftrightarrow>
     p_table P = zip (p_heap P) [0..<length (p_heap P)] \<and>
     distinct (p_heap P) \<and>
     (\<forall>t \<in> set (p_heap P). sanitize t = t) \<and>
     p_table_size P = of_nat (length (p_heap P)) \<and>
     p_misses P = of_nat (length (p_heap P)) \<and>
     p_alloc_size P = of_nat (sum_list (map (\<lambda>t. length t + 1) (p_heap P)))"

lemma pool_inv_empty [spd_inv]: "pool_inv empty_pool"
  by (simp add: pool_inv_def empty_pool_def)

lemma pool_lookup:
  assumes "pool_inv P"
  shows "map_of (p_table P) t = Some r \<longleftrightarrow> r < length (p_heap P) \<and> p_heap P ! r = t"
    and "map_of (p_table P) t = None \<longleftrightarrow> t \<notin> set (p_heap P)"
proof -
  let ?h = "p_heap P"
  have T: "p_table P = zip ?h [0..<length ?h]" and d: "distinct ?h"
    using assms by (simp_all add: pool_inv_def)
  have f: "map fst (p_table P) = ?h" by (simp add: T)
  show "map_of (p_table P) t = Some r \<longleftrightarrow> r < length ?h \<and> ?h ! r = t"
    by (subst map_of_eq_Some_iff) (use d f in \<open>auto simp: T in_set_zip\<close>)
  show "map_of (p_table P) t = None \<longleftrightarrow> t \<notin> set ?h"
    by (metis f list.set_map map_of_eq_None_iff)
qed

lemma intern_hit: "map_of (p_table P) s = Some r \<Longrightarrow> intern s P = (r, P\<lparr>p_hits := p_hits P + 1\<rparr>)"
  by (simp add: intern_def)

lemma intern_cases:
  assumes "pool_inv P" and "intern s P = (r, P')"
  obtains (hit) "sanitize s \<in> set (p_heap P)" "r < length (p_heap P)" "p_heap P ! r = sanitize s"
      "P' = P\<lparr>p_hits := p_hits P + 1\<rparr>"
    | (miss) "sanitize s \<notin> set (p_heap P)" "r = length (p_heap P)"
      "P' = P\<lparr>p_table := p_table P @ [(sanitize s, r)], p_heap := p_heap P @ [sanitize s],
         p_alloc_size := p_alloc_size P + (of_nat (length s) + 1),
         p_misses := p_misses P + 1, p_table_size := p_table_size P + 1\<rparr>"
proof (cases "map_of (p_table P) s")
  case (Some x)
  then have x: "x < length (p_heap P)" "p_heap P ! x = s"
    using pool_lookup(1) [OF assms(1)] by simp_all
  then have "sanitize s = s"
    using assms(1) nth_mem [of x "p_heap P"] by (auto simp: pool_inv_def)
  with x Some assms(2) show thesis
    by (intro hit) (auto simp: intern_def)
next
  case None
  show thesis
  proof (cases "map_of (p_table P) (sanitize s)")
    case None': None
    have "sanitize s \<notin> set (p_heap P)"
      using None' pool_lookup(2) [OF assms(1)] by simp
    moreover note assms(2) [symmetric, unfolded intern_def None option.case Let_def None']
    ultimately show thesis by (intro miss) simp_all
  next
    case (Some x)
    have "x < length (p_heap P)" "p_heap P ! x = sanitize s"
      using Some pool_lookup(1) [OF assms(1)] by simp_all
    moreover note assms(2) [symmetric, unfolded intern_def None option.case Let_def Some]
    ultimately show thesis by (intro hit) (auto simp: in_set_conv_nth)
  qed
qed

lemma pool_inv_intern [spd_inv]:
  assumes P: "pool_inv P" and i: "intern s P = (r, P')"
  shows "pool_inv P'"
  by (rule intern_cases [OF P i]) (use P in \<open>auto simp: pool_inv_def\<close>)

interpretation pool: interner intern ref_text "\<lambda>P r. r < length (p_heap P)" sanitize pool_inv
proof unfold_locales
  fix P s r P'
  assume P: "pool_inv P" and i: "intern s P = (r, P')"
  show "pool_inv P'" by (rule pool_inv_intern [OF P i])
  show "r < length (p_heap P')" by (rule intern_cases [OF P i]) auto
  show "ref_text P' r = sanitize s"
    by (rule intern_cases [OF P i]) (auto simp: ref_text_def)
  fix x
  assume "x < length (p_heap P)"
  then show "x < length (p_heap P')" "ref_text P' x = ref_text P x"
    by (rule_tac [!] intern_cases [OF P i]) (auto simp: ref_text_def nth_append)
next
  fix P x y
  assume "pool_inv P" "x < length (p_heap P)" "y < length (p_heap P)" "ref_text P x = ref_text P y"
  then show "x = y" by (simp add: pool_inv_def ref_text_def nth_eq_iff_index_eq)
qed

lemma intern_all_run: "intern_all ss P = pool.run ss P"
  by (induction ss arbitrary: P) (simp_all split: prod.splits)

lemma intern_all_stats:
  "pool_inv P \<Longrightarrow> intern_all ss P = (rs, P') \<Longrightarrow>
   p_hits P' + p_misses P' = p_hits P + p_misses P + of_nat (length ss) \<and>
   set (p_heap P') = set (p_heap P) \<union> sanitize ` set ss"
proof (induction ss arbitrary: P rs P')
  case Nil
  then show ?case by simp
next
  case (Cons s ss)
  obtain r P1 where 1: "intern s P = (r, P1)" by fastforce
  obtain rs2 P2 where 2: "intern_all ss P1 = (rs2, P2)" by fastforce
  have eq: "P' = P2" using Cons.prems(2) 1 2 by simp
  have "p_hits P1 + p_misses P1 = p_hits P + p_misses P + 1 \<and>
        set (p_heap P1) = insert (sanitize s) (set (p_heap P))"
    by (rule intern_cases [OF Cons.prems(1) 1]) (auto simp: insert_absorb)
  with Cons.IH [OF pool_inv_intern [OF Cons.prems(1) 1] 2] show ?case
    by (auto simp: eq)
qed

section \<open>Properties\<close>

text \<open>
  C27. Interning gives pointer equality the meaning of text equality: whatever strings are
  interned, in whatever order, two of the returned references are equal exactly when the
  strings agree after every character outside the Atlas charset has become an underscore, and each
  reference keeps denoting its sanitised text.
\<close>

theorem intern_refs_denote_texts:
  assumes "pool_inv P" and "intern_all ss P = (rs, P')"
  shows "length rs = length ss \<and> map (ref_text P') rs = map sanitize ss \<and>
    (\<forall>i < length ss. \<forall>j < length ss. (rs ! i = rs ! j) = (sanitize (ss ! i) = sanitize (ss ! j)))"
  using pool.run_texts [OF assms(1)] pool.run_refs_eq_iff [OF assms(1)] assms(2)
  by (simp add: intern_all_run)

theorem intern_refs_denote_texts_witness:
  "let rs = fst (intern_all [''a b'', ''a_b'', ''c''] empty_pool) in rs ! 0 = rs ! 1 \<and> rs ! 0 \<noteq> rs ! 2"
proof -
  let ?ss = "[''a b'', ''a_b'', ''c'']"
  have s: "sanitize (?ss ! 0) = sanitize (?ss ! 1)" "sanitize (?ss ! 0) \<noteq> sanitize (?ss ! 2)"
    by code_simp+
  note eq = intern_refs_denote_texts [OF pool_inv_empty surjective_pairing, of ?ss,
      THEN conjunct2, THEN conjunct2, rule_format, of 0]
  have "0 < length ?ss" "1 < length ?ss" "2 < length ?ss" by simp_all
  with eq [of 1] eq [of 2] s show ?thesis
    unfolding Let_def by blast
qed

text \<open>
  The statistics that the daemon publishes about its pool are exact: after any strings
  have been interned into a fresh pool, misses and entries both count the distinct sanitised
  texts, hits and misses add up to the number of calls, the allocated bytes are the texts'
  lengths with one terminator each, and every text in the pool lies in the Atlas charset.
\<close>

theorem pool_stats_exact:
  assumes "intern_all ss empty_pool = (rs, P)"
  shows "p_misses P = of_nat (card (sanitize ` set ss)) \<and> p_table_size P = p_misses P \<and>
    p_hits P + p_misses P = of_nat (length ss) \<and>
    p_alloc_size P = of_nat (\<Sum>t \<in> sanitize ` set ss. length t + 1) \<and>
    (\<forall>t \<in> set (p_heap P). set t \<subseteq> insert (CHR ''_'') (set allowed_chars))"
proof -
  have inv: "pool_inv P"
    using pool.run_stable [OF pool_inv_empty] assms by (simp add: intern_all_run)
  have h: "set (p_heap P) = sanitize ` set ss" "p_hits P + p_misses P = of_nat (length ss)"
    using intern_all_stats [OF pool_inv_empty assms] by (simp_all add: empty_pool_def)
  have "length (p_heap P) = card (sanitize ` set ss)"
    using inv h(1) by (metis distinct_card pool_inv_def)
  moreover have "sum_list (map (\<lambda>t. length t + 1) (p_heap P)) = (\<Sum>t \<in> sanitize ` set ss. length t + 1)"
    using inv h(1) by (metis pool_inv_def sum_list_distinct_conv_sum_set)
  ultimately show ?thesis
    using inv h(2) by (auto simp: pool_inv_def sanitize_id_iff)
qed

theorem pool_stats_exact_witness:
  "p_hits (snd (intern_all [''x'', ''x'', ''y''] empty_pool)) +
   p_misses (snd (intern_all [''x'', ''x'', ''y''] empty_pool)) = 3"
  using pool_stats_exact [OF surjective_pairing, of "[''x'', ''x'', ''y'']",
      THEN conjunct2, THEN conjunct2, THEN conjunct1]
  by (simp del: intern_all.simps)

end
