(* ===== verification/Tags.thy ===== *)
theory Tags
  imports Prelude
begin

text \<open>
  \<open>spectator/tags.h\<close>: the sorted array of tags with its small-buffer optimisation. The first
  part is the abstract view the rest of the model uses, a list of key/value pairs sorted by
  key; the second is the class itself, with the inline array, the capacity that shares its
  storage with it (a union), the growth by four and the shift that makes room; the third
  proves that the class implements the abstract view without ever leaving its storage. A
  \<open>StrRef\<close> is represented by its text (theory StringPool: equal references are equal
  texts), and \<open>StrRef::operator<\<close>, \<open>strcmp\<close> on the texts, by the lexicographic order.
\<close>

type_synonym tag = "string \<times> string"
type_synonym tag_list = "tag list"

section \<open>The abstract view\<close>

definition lower_bound :: "string \<Rightarrow> tag_list \<Rightarrow> nat" where
  \<comment> \<open>\<open>std::lower_bound\<close> with the comparison of \<open>Tags\<close>\<close>
  "lower_bound k ts = length (takeWhile (\<lambda>t. fst t < k) ts)"

definition tag_put :: "string \<Rightarrow> string \<Rightarrow> tag_list \<Rightarrow> tag_list" where
  "tag_put k v ts =
     (let i = lower_bound k ts
      in take i ts @ (k, v) # (if i < length ts \<and> fst (ts ! i) = k then drop (Suc i) ts else drop i ts))"

definition tag_has :: "tag_list \<Rightarrow> string \<Rightarrow> bool" where
  "tag_has ts k = (let i = lower_bound k ts in i \<noteq> length ts \<and> fst (ts ! i) = k)"

definition tag_at :: "tag_list \<Rightarrow> string \<Rightarrow> string option" where
  \<comment> \<open>\<open>None\<close> is the null \<open>StrRef\<close>\<close>
  "tag_at ts k = (let i = lower_bound k ts in
     if i = length ts \<or> fst (ts ! i) \<noteq> k then None else Some (snd (ts ! i)))"

definition tag_put_all :: "tag_list \<Rightarrow> tag_list \<Rightarrow> tag_list" where
  "tag_put_all src ts = fold (\<lambda>t. tag_put (fst t) (snd t)) src ts"

definition sorted_tags :: "tag_list \<Rightarrow> bool" where
  "sorted_tags ts \<longleftrightarrow> sorted_wrt (<) (map fst ts)"

lemma sorted_tags_Nil [simp]: "sorted_tags []"
  by (simp add: sorted_tags_def)

lemma sorted_tags_Cons: "sorted_tags (t # ts) \<longleftrightarrow> (\<forall>u \<in> set ts. fst t < fst u) \<and> sorted_tags ts"
  by (auto simp: sorted_tags_def)

lemma lower_bound_simps [simp]:
  "lower_bound k [] = 0"
  "lower_bound k (t # ts) = (if fst t < k then Suc (lower_bound k ts) else 0)"
  by (simp_all add: lower_bound_def)

lemma lower_bound_le: "lower_bound k ts \<le> length ts"
  by (simp add: lower_bound_def length_takeWhile_le)

lemma tag_put_Nil [simp]: "tag_put k v [] = [(k, v)]"
  by (simp add: tag_put_def)

lemma tag_put_Cons [simp]:
  "tag_put k v (t # ts) = (if fst t < k then t # tag_put k v ts
     else if fst t = k then (k, v) # ts else (k, v) # t # ts)"
  by (simp add: tag_put_def Let_def)

lemma set_tag_put: "set (map fst (tag_put k v ts)) = insert k (set (map fst ts))"
  by (induction ts) auto

lemma sorted_tag_put [simp]: "sorted_tags ts \<Longrightarrow> sorted_tags (tag_put k v ts)"
proof (induction ts)
  case Nil
  then show ?case by (simp add: sorted_tags_def)
next
  case (Cons t ts)
  have "fst ` set (tag_put k v ts) = insert k (fst ` set ts)"
    using set_tag_put [of k v ts] by simp
  then have "\<forall>u \<in> set (tag_put k v ts). fst u = k \<or> fst u \<in> fst ` set ts" by blast
  with Cons show ?case by (fastforce simp: sorted_tags_Cons)
qed

lemma map_of_tag_put: "sorted_tags ts \<Longrightarrow> map_of (tag_put k v ts) = (map_of ts)(k \<mapsto> v)"
proof (induction ts)
  case Nil
  then show ?case by simp
next
  case (Cons t ts)
  then show ?case by (cases t) (auto simp: sorted_tags_Cons fun_eq_iff)
qed

lemma map_of_smaller_key: "(\<forall>u \<in> set ts. k < fst u) \<Longrightarrow> map_of ts k = None"
  for ts :: tag_list
  by (induction ts) auto

lemma tag_at_map_of: "sorted_tags ts \<Longrightarrow> tag_at ts k = map_of ts k"
proof (induction ts)
  case Nil
  then show ?case by (simp add: tag_at_def)
next
  case (Cons t ts)
  show ?case
  proof (cases "fst t < k")
    case True
    have "tag_at (t # ts) k = tag_at ts k" using True by (simp add: tag_at_def)
    with True Cons show ?thesis by (cases t) (auto simp: sorted_tags_Cons)
  next
    case False
    then have "k = fst t \<or> (\<forall>u \<in> set ts. k < fst u)"
      using Cons.prems by (auto simp: sorted_tags_Cons intro: less_trans)
    with False show ?thesis
      by (cases t) (auto simp: tag_at_def map_of_smaller_key)
  qed
qed

lemma tag_has_tag_at: "tag_has ts k \<longleftrightarrow> tag_at ts k \<noteq> None"
  by (auto simp: tag_has_def tag_at_def Let_def)

lemma sorted_tags_distinct: "sorted_tags ts \<Longrightarrow> distinct (map fst ts)"
  by (simp add: sorted_tags_def strict_sorted_iff)

lemma map_of_rebuild: "distinct (map fst ts) \<Longrightarrow> map (\<lambda>k. (k, the (map_of ts k))) (map fst ts) = ts"
proof -
  assume d: "distinct (map fst ts)"
  have "map (\<lambda>t. (fst t, the (map_of ts (fst t)))) ts = ts"
  proof (rule map_idI)
    fix t
    assume "t \<in> set ts"
    with d have "map_of ts (fst t) = Some (snd t)" by simp
    then show "(fst t, the (map_of ts (fst t))) = t" by simp
  qed
  then show ?thesis by (simp add: comp_def)
qed

lemma sorted_tags_ext:
  assumes "sorted_tags ts" and "sorted_tags us" and "map_of ts = map_of us"
  shows "ts = us"
proof -
  have "dom (map_of ts) = dom (map_of us)" using assms(3) by simp
  then have "set (map fst ts) = set (map fst us)" by (simp add: dom_map_of_conv_image_fst)
  then have k: "map fst ts = map fst us"
    using assms(1,2) by (intro sorted_distinct_set_unique)
      (auto simp: sorted_tags_def strict_sorted_iff)
  with assms(3) map_of_rebuild sorted_tags_distinct assms(1,2) show ?thesis by metis
qed

lemma sorted_tag_put_all [simp]: "sorted_tags ts \<Longrightarrow> sorted_tags (tag_put_all src ts)"
  unfolding tag_put_all_def by (induction src arbitrary: ts) simp_all

lemma map_of_tag_put_all:
  "sorted_tags ts \<Longrightarrow> map_of (tag_put_all src ts) = map_of ts ++ map_of (rev src)"
  unfolding tag_put_all_def
proof (induction src arbitrary: ts)
  case Nil
  then show ?case by simp
next
  case (Cons p src)
  then show ?case by (cases p) (simp add: map_of_tag_put map_add_def fun_eq_iff split: option.splits)
qed

lemma map_of_rev_sorted: "sorted_tags ts \<Longrightarrow> map_of (rev ts) = map_of ts"
  by (metis map_of_inject_set map_fst_zip distinct_rev rev_map set_rev sorted_tags_distinct)

lemma length_tag_put: "sorted_tags ts \<Longrightarrow> length (tag_put k v ts) =
    (if k \<in> set (map fst ts) then length ts else Suc (length ts))"
  by (induction ts) (auto simp: sorted_tags_Cons)

section \<open>The interface of a set of tags\<close>

text \<open>
  What \<open>Id\<close> and the publisher rely on: adding a tag is total, updates exactly its key, and
  equality is equality of the contents.
\<close>

locale tag_store =
  fixes put :: "'k \<Rightarrow> 'v \<Rightarrow> 't \<Rightarrow> 't option"
    and look :: "'t \<Rightarrow> 'k \<Rightarrow> 'v option"
    and same :: "'t \<Rightarrow> 't \<Rightarrow> bool"
    and ok :: "'t \<Rightarrow> bool"
  assumes put_total: "ok t \<Longrightarrow> \<exists>t'. put k v t = Some t'"
    and ok_put: "ok t \<Longrightarrow> put k v t = Some t' \<Longrightarrow> ok t'"
    and look_put: "ok t \<Longrightarrow> put k v t = Some t' \<Longrightarrow> look t' = (look t)(k \<mapsto> v)"
    and same_iff: "ok t \<Longrightarrow> ok u \<Longrightarrow> same t u \<longleftrightarrow> look t = look u"
begin

primrec put_list :: "('k \<times> 'v) list \<Rightarrow> 't \<Rightarrow> 't option" where
  "put_list [] t = Some t"
| "put_list (p # ps) t = Option.bind (put (fst p) (snd p) t) (put_list ps)"

lemma put_list_total:
  "ok t \<Longrightarrow> \<exists>t'. put_list ps t = Some t' \<and> ok t' \<and> look t' = look t ++ map_of (rev ps)"
proof (induction ps arbitrary: t)
  case Nil
  then show ?case by simp
next
  case (Cons p ps)
  obtain t1 where 1: "put (fst p) (snd p) t = Some t1" using put_total [OF Cons.prems] by blast
  have "(look t)(fst p \<mapsto> snd p) ++ map_of (rev ps) = look t ++ map_of (rev (p # ps))"
    by (cases p) (simp add: map_add_def fun_eq_iff split: option.split)
  moreover obtain t' where t': "put_list ps t1 = Some t'" "ok t'" "look t' = look t1 ++ map_of (rev ps)"
    using Cons.IH [OF ok_put [OF Cons.prems 1]] by blast
  ultimately have "look t' = look t ++ map_of (rev (p # ps))"
    by (simp only: look_put [OF Cons.prems 1])
  moreover have "put_list (p # ps) t = Some t'" using 1 t'(1) by simp
  ultimately show ?case using t'(2) by blast
qed

lemma put_list_same:
  assumes "ok t" and "put_list ps t = Some u" and "put_list qs t = Some w"
  shows "same u w \<longleftrightarrow> look t ++ map_of (rev ps) = look t ++ map_of (rev qs)"
  using put_list_total [OF assms(1)] assms(2,3) same_iff by (metis option.inject)

end


section \<open>The class\<close>

text \<open>
  \<open>tg_buf\<close> is the storage \<open>begin_\<close> points to: the eight inline entries or a heap block. A
  slot that was never written is \<open>None\<close>. \<open>tg_cap\<close> is \<open>U.capacity_\<close>, which is only there once
  it has been written over the inline entries (\<open>None\<close> before); reading it while the union
  holds the entries, and a write outside the storage, are undefined behaviour, the outcome
  \<open>None\<close> of the operations.
\<close>

definition kSmallTags :: nat where
  "kSmallTags = 8"

record tags =
  tg_size :: nat
  tg_cap :: "nat option"
  tg_buf :: "tag option list"

definition is_large :: "tags \<Rightarrow> bool" where
  "is_large t \<longleftrightarrow> kSmallTags < tg_size t"

definition entries :: "tags \<Rightarrow> tag_list" where
  \<comment> \<open>the range from \<open>begin()\<close> to \<open>end()\<close>\<close>
  "entries t = map the (take (tg_size t) (tg_buf t))"

definition empty_tags :: tags where
  "empty_tags = \<lparr>tg_size = 0, tg_cap = None, tg_buf = replicate kSmallTags None\<rparr>"

definition capacity :: "tags \<Rightarrow> nat option" where
  "capacity t = (if is_large t then tg_cap t else Some kSmallTags)"

definition reallocate :: "tags \<Rightarrow> tags option" where
  "reallocate t = (case capacity t of None \<Rightarrow> None
     | Some c \<Rightarrow>
         if \<not> is_large t
         then Some (t\<lparr>tg_buf := take (tg_size t) (tg_buf t) @ replicate (c + 4 - tg_size t) None,
                      tg_cap := Some (c + 4)\<rparr>)
         else Some (t\<lparr>tg_buf := take (c + 4) (tg_buf t) @ replicate (c + 4 - length (tg_buf t)) None,
                      tg_cap := Some (c + 4)\<rparr>))"

definition make_room :: "tags \<Rightarrow> tags option" where
  \<comment> \<open>\<open>if (size() == capacity()) reallocate();\<close>\<close>
  "make_room t = (case capacity t of None \<Rightarrow> None
     | Some c \<Rightarrow> if tg_size t = c then reallocate t else Some t)"

definition shift_in :: "nat \<Rightarrow> tag \<Rightarrow> tags \<Rightarrow> tags option" where
  \<comment> \<open>\<open>std::copy_backward(it, end(), end() + 1); *it = {k, v}; ++size_;\<close>\<close>
  "shift_in i x t = (if tg_size t < length (tg_buf t)
     then Some (t\<lparr>tg_buf := take i (tg_buf t) @ Some x # drop i (take (tg_size t) (tg_buf t))
                              @ drop (Suc (tg_size t)) (tg_buf t),
                  tg_size := Suc (tg_size t)\<rparr>)
     else None)"

definition insert_tag :: "string \<Rightarrow> string \<Rightarrow> tags \<Rightarrow> tags option" where
  "insert_tag k v t =
     (let es = entries t; i = lower_bound k es
      in if i \<noteq> tg_size t
         then if fst (es ! i) = k then Some (t\<lparr>tg_buf := (tg_buf t)[i := Some (k, v)]\<rparr>)
              else Option.bind (make_room t) (shift_in i (k, v))
         else Option.bind (make_room t) (shift_in i (k, v)))"

primrec add_all :: "tag_list \<Rightarrow> tags \<Rightarrow> tags option" where
  \<comment> \<open>the loop of \<open>add_all\<close> and of the initializer-list constructor\<close>
  "add_all [] t = Some t"
| "add_all (p # ps) t = Option.bind (insert_tag (fst p) (snd p) t) (add_all ps)"

definition copy_tags :: "tags \<Rightarrow> tags" where
  \<comment> \<open>\<open>Tags(const Tags&)\<close>\<close>
  "copy_tags t = (if is_large t
     then \<lparr>tg_size = tg_size t, tg_cap = Some (tg_size t), tg_buf = take (tg_size t) (tg_buf t)\<rparr>
     else \<lparr>tg_size = tg_size t, tg_cap = None,
           tg_buf = take (tg_size t) (tg_buf t) @ replicate (kSmallTags - tg_size t) None\<rparr>)"

definition move_tags :: "tags \<Rightarrow> tags" where
  \<comment> \<open>\<open>Tags(Tags&&)\<close>: a large set is taken over with its block and its capacity\<close>
  "move_tags t = (if is_large t
     then \<lparr>tg_size = tg_size t, tg_cap = tg_cap t, tg_buf = tg_buf t\<rparr>
     else \<lparr>tg_size = tg_size t, tg_cap = None,
           tg_buf = take (tg_size t) (tg_buf t) @ replicate (kSmallTags - tg_size t) None\<rparr>)"

definition move_assign :: "tags \<Rightarrow> tags \<Rightarrow> tags" where
  \<comment> \<open>\<open>operator=(Tags&&)\<close> on \<open>this\<close> with the other set: the block is taken over, the
    capacity is not\<close>
  "move_assign this t = (if is_large t
     then this\<lparr>tg_size := tg_size t, tg_buf := tg_buf t\<rparr>
     else this\<lparr>tg_size := tg_size t,
               tg_buf := take (tg_size t) (tg_buf t) @ replicate (kSmallTags - tg_size t) None\<rparr>)"

definition eq_tags :: "tags \<Rightarrow> tags \<Rightarrow> bool" where
  \<comment> \<open>\<open>operator==\<close>: \<open>memcmp\<close> over the entries, which are pairs of references\<close>
  "eq_tags t u = (if tg_size t \<noteq> tg_size u then False
     else if tg_size t = 0 then True else entries t = entries u)"

definition hash_tags :: "(string \<Rightarrow> 64 word) \<Rightarrow> tags \<Rightarrow> 64 word" where
  \<comment> \<open>\<open>hash()\<close> over the hash of the references, a parameter\<close>
  "hash_tags h t = sum_list (map (\<lambda>(k, v). xor (push_bit 1 (h k)) (h v)) (entries t))"

section \<open>The class implements the abstract view\<close>

definition tags_inv :: "tags \<Rightarrow> bool" where
  "tags_inv t \<longleftrightarrow> tg_size t \<le> length (tg_buf t) \<and> None \<notin> set (take (tg_size t) (tg_buf t)) \<and>
     sorted_tags (entries t) \<and>
     (if is_large t then tg_cap t = Some (length (tg_buf t)) else length (tg_buf t) = kSmallTags)"

lemma length_entries: "tags_inv t \<Longrightarrow> length (entries t) = tg_size t"
  by (simp add: tags_inv_def entries_def)

lemma tags_inv_empty [spd_inv]: "tags_inv empty_tags" "entries empty_tags = []"
  by (simp_all add: tags_inv_def empty_tags_def entries_def is_large_def)

lemma capacity_inv: "tags_inv t \<Longrightarrow> capacity t = Some (length (tg_buf t))"
  by (auto simp: tags_inv_def capacity_def)

text \<open>Making room: the entries stay, and there is a free slot after them.\<close>

lemma make_room_spec:
  assumes "tags_inv t"
  obtains u where "make_room t = Some u" "tg_size u = tg_size t" "tg_size u < length (tg_buf u)"
    "take (tg_size t) (tg_buf u) = take (tg_size t) (tg_buf t)"
    "if Suc (tg_size u) > kSmallTags then tg_cap u = Some (length (tg_buf u))
     else length (tg_buf u) = kSmallTags"
proof (cases "tg_size t = length (tg_buf t)")
  case True
  then show thesis
    using assms that
    by (cases "is_large t")
       (auto simp: make_room_def capacity_inv reallocate_def tags_inv_def is_large_def)
next
  case False
  have "Suc (tg_size t) \<le> length (tg_buf t)" using False assms by (simp add: tags_inv_def)
  with assms False show thesis
    by (intro that [of t])
       (auto simp: make_room_def capacity_inv tags_inv_def is_large_def split: if_splits)
qed

lemma shift_in_entries:
  assumes "tg_size u < length (tg_buf u)" and "i \<le> tg_size u"
  obtains w where "shift_in i x u = Some w" "tg_size w = Suc (tg_size u)"
    "length (tg_buf w) = length (tg_buf u)" "tg_cap w = tg_cap u"
    "take (tg_size w) (tg_buf w) =
       take i (take (tg_size u) (tg_buf u)) @ Some x # drop i (take (tg_size u) (tg_buf u))"
proof -
  let ?a = "take (tg_size u) (tg_buf u)"
  let ?new = "take i ?a @ Some x # drop i ?a"
  define w where "w = u\<lparr>tg_buf := ?new @ drop (Suc (tg_size u)) (tg_buf u),
    tg_size := Suc (tg_size u)\<rparr>"
  have "shift_in i x u = Some w"
    using assms by (simp add: shift_in_def w_def min_def)
  moreover have len: "length ?new = Suc (tg_size u)" using assms by simp
  moreover have "take (tg_size w) (tg_buf w) = ?new"
  proof -
    have w: "tg_size w = Suc (tg_size u)" "tg_buf w = ?new @ drop (Suc (tg_size u)) (tg_buf u)"
      by (simp_all add: w_def)
    show ?thesis unfolding w using take_length_append [of ?new] by (simp only: len)
  qed
  ultimately show thesis
    using assms by (intro that [of w]) (simp_all add: w_def)
qed

lemma insert_at_lower_bound:
  assumes "sorted_tags es" and "i = lower_bound k es"
    and "i = length es \<or> fst (es ! i) \<noteq> k"
  shows "tag_put k v es = take i es @ (k, v) # drop i es"
  using assms by (auto simp: tag_put_def Let_def)

lemma insert_tag_refines:
  assumes inv: "tags_inv t"
  shows "\<exists>w. insert_tag k v t = Some w \<and> tags_inv w \<and> entries w = tag_put k v (entries t)"
proof -
  let ?es = "entries t" and ?a = "take (tg_size t) (tg_buf t)"
  let ?i = "lower_bound k ?es"
  have len: "length ?es = tg_size t" by (rule length_entries [OF inv])
  have le: "?i \<le> tg_size t" using lower_bound_le [of k ?es] len by simp
  have srt: "sorted_tags ?es" and some: "None \<notin> set ?a" and bnd: "tg_size t \<le> length (tg_buf t)"
    using inv by (simp_all add: tags_inv_def)
  show ?thesis
  proof (cases "?i \<noteq> tg_size t \<and> fst (?es ! ?i) = k")
    case True
    define w where "w = t\<lparr>tg_buf := (tg_buf t)[?i := Some (k, v)]\<rparr>"
    have ins: "insert_tag k v t = Some w"
      using True by (simp add: insert_tag_def Let_def w_def)
    have i: "?i < tg_size t" using True le by simp
    have tk: "take (tg_size w) (tg_buf w) = ?a[?i := Some (k, v)]"
      using i by (simp add: w_def take_update_swap)
    have "entries w = ?es[?i := (k, v)]"
      unfolding entries_def tk by (simp add: map_update entries_def)
    also have "\<dots> = tag_put k v ?es"
      using True i len by (simp add: tag_put_def upd_conv_take_nth_drop Let_def)
    finally have e: "entries w = tag_put k v ?es" .
    have "None \<notin> set (take (tg_size w) (tg_buf w))"
      using some set_update_subset_insert [of ?a ?i "Some (k, v)"] unfolding tk by auto
    moreover have "tg_size w = tg_size t" "length (tg_buf w) = length (tg_buf t)" "tg_cap w = tg_cap t"
      by (simp_all add: w_def)
    ultimately have "tags_inv w"
      using inv srt e by (auto simp: tags_inv_def is_large_def)
    with ins e show ?thesis by blast
  next
    case False
    obtain u where u: "make_room t = Some u" "tg_size u = tg_size t" "tg_size u < length (tg_buf u)"
      "take (tg_size t) (tg_buf u) = ?a"
      "if Suc (tg_size u) > kSmallTags then tg_cap u = Some (length (tg_buf u))
       else length (tg_buf u) = kSmallTags"
      by (rule make_room_spec [OF inv])
    obtain w where w: "shift_in ?i (k, v) u = Some w" "tg_size w = Suc (tg_size u)"
      "length (tg_buf w) = length (tg_buf u)" "tg_cap w = tg_cap u"
      "take (tg_size w) (tg_buf w) = take ?i ?a @ Some (k, v) # drop ?i ?a"
      using shift_in_entries [OF u(3), of ?i "(k, v)"] le u(2,4) by metis
    have ins: "insert_tag k v t = Some w"
      using False u(1) w(1) by (auto simp: insert_tag_def Let_def)
    have "entries w = take ?i ?es @ (k, v) # drop ?i ?es"
      unfolding entries_def w(5) by (simp add: take_map drop_map)
    also have "\<dots> = tag_put k v ?es"
      using False len by (intro insert_at_lower_bound [symmetric] srt) auto
    finally have e: "entries w = tag_put k v ?es" .
    have "None \<notin> set (take (tg_size w) (tg_buf w))"
      using some set_take_subset [of ?i ?a] set_drop_subset [of ?i ?a]
      unfolding w(5) by (auto simp del: take_take)
    then have "tags_inv w"
      using srt e u(3,5) w(2,3,4) by (auto simp: tags_inv_def is_large_def split: if_splits)
    with ins e show ?thesis by blast
  qed
qed

lemma tags_inv_copy [spd_inv]: "tags_inv t \<Longrightarrow> tags_inv (copy_tags t)"
  and entries_copy [spd_abs]: "tags_inv t \<Longrightarrow> entries (copy_tags t) = entries t"
  by (auto simp: tags_inv_def copy_tags_def is_large_def entries_def)

lemma tags_inv_move [spd_inv]: "tags_inv t \<Longrightarrow> tags_inv (move_tags t)"
  and entries_move [spd_abs]: "tags_inv t \<Longrightarrow> entries (move_tags t) = entries t"
  by (auto simp: tags_inv_def move_tags_def is_large_def entries_def)

lemma eq_tags_entries: "tags_inv t \<Longrightarrow> tags_inv u \<Longrightarrow> eq_tags t u \<longleftrightarrow> entries t = entries u"
  using length_entries [of t] length_entries [of u] by (auto simp: eq_tags_def)

interpretation tags: tag_store insert_tag "\<lambda>t. map_of (entries t)" eq_tags tags_inv
proof unfold_locales
  fix t u :: tags and k v t'
  assume t: "tags_inv t"
  show "\<exists>t'. insert_tag k v t = Some t'" using insert_tag_refines [OF t] by blast
  have srt: "sorted_tags (entries t)" using t by (simp add: tags_inv_def)
  {
    assume "insert_tag k v t = Some t'"
    then show "tags_inv t'" "map_of (entries t') = (map_of (entries t))(k \<mapsto> v)"
      using insert_tag_refines [OF t, of k v] map_of_tag_put [OF srt] by auto
  }
  assume u: "tags_inv u"
  then have "sorted_tags (entries u)" by (simp add: tags_inv_def)
  then show "eq_tags t u \<longleftrightarrow> map_of (entries t) = map_of (entries u)"
    using eq_tags_entries [OF t u] sorted_tags_ext [OF srt] by metis
qed

lemma add_all_put_list: "add_all ps t = tags.put_list ps t"
proof (induction ps arbitrary: t)
  case Nil
  then show ?case by simp
next
  case (Cons p ps)
  then have "add_all ps = tags.put_list ps" by (rule ext)
  then show ?case by simp
qed

lemma add_all_refines:
  "tags_inv t \<Longrightarrow> \<exists>w. add_all ps t = Some w \<and> tags_inv w \<and> entries w = tag_put_all ps (entries t)"
proof (induction ps arbitrary: t)
  case Nil
  then show ?case by (simp add: tag_put_all_def)
next
  case (Cons p ps)
  obtain u where u: "insert_tag (fst p) (snd p) t = Some u" "tags_inv u"
    "entries u = tag_put (fst p) (snd p) (entries t)"
    using insert_tag_refines [OF Cons.prems] by blast
  with Cons.IH [OF u(2)] show ?case by (simp add: tag_put_all_def)
qed

section \<open>Properties\<close>

text \<open>
  C28. The class implements a finite map without leaving its storage: starting from any
  well-formed set, a sequence of \<open>add\<close> calls never writes outside the allocated slots nor
  reads the capacity while the union holds the entries (the outcome is never \<open>None\<close>), the
  entries stay strictly sorted and within the storage, and \<open>at\<close> returns for every key the
  last value added for it, else the value it had before.
\<close>

theorem tags_add_all_is_map_update:
  assumes "tags_inv t"
  shows "\<exists>w. add_all ps t = Some w \<and> tags_inv w \<and> sorted_tags (entries w) \<and>
    tg_size w \<le> length (tg_buf w) \<and>
    tag_at (entries w) = (\<lambda>k. case map_of (rev ps) k of Some v \<Rightarrow> Some v | None \<Rightarrow> tag_at (entries t) k)"
proof -
  obtain w where w: "add_all ps t = Some w" "tags_inv w"
    "map_of (entries w) = map_of (entries t) ++ map_of (rev ps)"
    using tags.put_list_total [OF assms] by (auto simp: add_all_put_list)
  have s: "sorted_tags (entries t)" "sorted_tags (entries w)" "tg_size w \<le> length (tg_buf w)"
    using assms w(2) by (simp_all add: tags_inv_def)
  then have "tag_at (entries t) = map_of (entries t)" "tag_at (entries w) = map_of (entries w)"
    by (simp_all add: tag_at_map_of fun_eq_iff)
  with w s show ?thesis by (auto simp: map_add_def split: option.split)
qed

theorem tags_add_all_is_map_update_witness:
  "\<exists>w. add_all [(''b'', ''1''), (''a'', ''2''), (''b'', ''3'')] empty_tags = Some w \<and>
    tag_at (entries w) ''b'' = Some ''3''"
  using tags_add_all_is_map_update [OF tags_inv_empty(1), of "[(''b'', ''1''), (''a'', ''2''), (''b'', ''3'')]"]
  by auto

text \<open>
  Two sets of tags are equal, and then hash alike, exactly when they map the same keys to the same
  values: the comparison by \<open>memcmp\<close> is insensitive to the order in which the tags were added, to how
  often a key was overwritten and to the inline or heap storage. The registry keys its
  tables by this.
\<close>

theorem tags_equality_is_extensional:
  assumes "add_all ps empty_tags = Some t" and "add_all qs empty_tags = Some u"
  shows "(eq_tags t (copy_tags u) = (map_of (rev ps) = map_of (rev qs))) \<and>
    (map_of (rev ps) = map_of (rev qs) \<longrightarrow> hash_tags h t = hash_tags h (copy_tags u))"
proof -
  have inv: "tags_inv t" "tags_inv u"
    using add_all_refines [OF tags_inv_empty(1), of ps] add_all_refines [OF tags_inv_empty(1), of qs]
      assms by auto
  have "eq_tags t (copy_tags u) = eq_tags t u"
    using inv by (simp add: eq_tags_entries spd_inv spd_abs)
  also have "\<dots> = (map_of (rev ps) = map_of (rev qs))"
    using tags.put_list_same [OF tags_inv_empty(1)] assms
    by (simp add: add_all_put_list tags_inv_empty)
  finally have eq: "eq_tags t (copy_tags u) = (map_of (rev ps) = map_of (rev qs))" .
  then have "map_of (rev ps) = map_of (rev qs) \<Longrightarrow> entries t = entries (copy_tags u)"
    using inv by (simp add: eq_tags_entries spd_inv)
  with eq show ?thesis by (auto simp: hash_tags_def)
qed

theorem tags_equality_is_extensional_witness:
  "\<exists>t u. add_all [(''a'', ''1''), (''b'', ''2'')] empty_tags = Some t \<and>
    add_all [(''b'', ''0''), (''a'', ''1''), (''b'', ''2'')] empty_tags = Some u \<and> eq_tags t (copy_tags u)"
proof -
  obtain t u where t: "add_all [(''a'', ''1''), (''b'', ''2'')] empty_tags = Some t"
    and u: "add_all [(''b'', ''0''), (''a'', ''1''), (''b'', ''2'')] empty_tags = Some u"
    using add_all_refines [OF tags_inv_empty(1)] by blast
  have "map_of (rev [(''a'', ''1''), (''b'', ''2'')]) =
        map_of (rev [(''b'', ''0''), (''a'', ''1''), (''b'', ''2'')])"
    by (simp add: fun_eq_iff)
  with tags_equality_is_extensional [OF t u] t u show ?thesis by blast
qed

text \<open>
  Move assignment loses the capacity: when a large set is move-assigned to a small one
  (as \<open>LogEntry::set_attempt\<close> does when the ninth tag is added), the target no longer
  satisfies the class invariant and adding one more key to it is undefined behaviour (the
  capacity is read from storage that still holds an entry).
\<close>

theorem move_assign_loses_capacity:
  assumes "tags_inv t" and "is_large t" and "tags_inv this" and "\<not> is_large this"
    and "tg_cap this = None" and "k \<notin> set (map fst (entries t))"
  shows "\<not> tags_inv (move_assign this t) \<and> insert_tag k v (move_assign this t) = None"
proof -
  let ?w = "move_assign this t"
  have w: "tg_size ?w = tg_size t" "tg_buf ?w = tg_buf t" "tg_cap ?w = None"
    using assms(2,5) by (simp_all add: move_assign_def)
  then have L: "is_large ?w" and e: "entries ?w = entries t"
    using assms(2) by (simp_all add: is_large_def entries_def)
  have "capacity ?w = None" using L w(3) by (simp add: capacity_def)
  then have "make_room ?w = None" by (simp add: make_room_def)
  moreover have "fst (entries t ! i) \<noteq> k" if "i < tg_size t" for i
    using assms(6) that length_entries [OF assms(1)] by (metis length_map nth_map nth_mem)
  ultimately have "insert_tag k v ?w = None"
    using lower_bound_le [of k "entries t"] length_entries [OF assms(1)] w(1)
    by (auto simp: insert_tag_def Let_def e le_less)
  with L w(3) show ?thesis by (simp add: tags_inv_def)
qed

theorem move_assign_loses_capacity_witness:
  "\<exists>t. add_all (map (\<lambda>c. ([c], ''v'')) ''abcdefghi'') empty_tags = Some t \<and>
    insert_tag ''z'' ''v'' (move_assign empty_tags t) = None"
proof -
  obtain t where t: "add_all (map (\<lambda>c. ([c], ''v'')) ''abcdefghi'') empty_tags = Some t" "tags_inv t"
    "entries t = tag_put_all (map (\<lambda>c. ([c], ''v'')) ''abcdefghi'') []"
    using add_all_refines [OF tags_inv_empty(1)] by (metis tags_inv_empty(2))
  have "length (entries t) = 9 \<and> ''z'' \<notin> set (map fst (entries t))"
    unfolding t(3) by code_simp
  then have "is_large t" "''z'' \<notin> set (map fst (entries t))"
    using length_entries [OF t(2)] by (auto simp: is_large_def kSmallTags_def)
  moreover have "\<not> is_large empty_tags" "tg_cap empty_tags = None"
    by (simp_all add: is_large_def empty_tags_def)
  ultimately show ?thesis
    using move_assign_loses_capacity [OF t(2) _ tags_inv_empty(1)] t(1) by blast
qed

end
