(* ===== verification/Ids.thy ===== *)
theory Ids
  imports StringPool Tags Doubles
begin

text \<open>
  Meter identities and measurements: \<open>spectator/id.h\<close>, \<open>spectator/common_refs.h\<close>,
  \<open>spectator/dist_stats.h\<close> and \<open>spectator/measurement.h\<close>. An identity is a name and a
  sorted set of tags, both interned, hence sanitised.
\<close>

section \<open>Common references\<close>

definition r_name :: string where "r_name = ''name''"
definition r_count :: string where "r_count = ''count''"
definition r_gauge :: string where "r_gauge = ''gauge''"
definition r_totalTime :: string where "r_totalTime = ''totalTime''"
definition r_totalAmount :: string where "r_totalAmount = ''totalAmount''"
definition r_totalOfSquares :: string where "r_totalOfSquares = ''totalOfSquares''"
definition r_percentile :: string where "r_percentile = ''percentile''"
definition r_max :: string where "r_max = ''max''"
definition r_statistic :: string where "r_statistic = ''statistic''"

lemmas refs_defs = r_name_def r_count_def r_gauge_def r_totalTime_def r_totalAmount_def
  r_totalOfSquares_def r_percentile_def r_max_def r_statistic_def

section \<open>Identities\<close>

record meter_id =
  id_name :: string
  id_tags :: tag_list

definition intern_tags :: "(string \<times> string) list \<Rightarrow> tag_list" where
  \<comment> \<open>\<open>Tags{{k, v}, ...}\<close>: \<open>add\<close> of string views, which interns key and value\<close>
  "intern_tags kvs = tag_put_all (map (\<lambda>(k, v). (sanitize k, sanitize v)) kvs) []"

definition id_of :: "string \<Rightarrow> tag_list \<Rightarrow> meter_id" where
  "id_of name tags = \<lparr>id_name = sanitize name, id_tags = tags\<rparr>"

definition with_tag :: "string \<Rightarrow> string \<Rightarrow> meter_id \<Rightarrow> meter_id" where
  "with_tag k v i = i\<lparr>id_tags := tag_put k v (id_tags i)\<rparr>"

definition with_tags2 :: "string \<Rightarrow> string \<Rightarrow> string \<Rightarrow> string \<Rightarrow> meter_id \<Rightarrow> meter_id" where
  "with_tags2 k1 v1 k2 v2 i = i\<lparr>id_tags := tag_put k2 v2 (tag_put k1 v1 (id_tags i))\<rparr>"

definition with_tags :: "tag_list \<Rightarrow> meter_id \<Rightarrow> meter_id" where
  "with_tags extra i = i\<lparr>id_tags := tag_put_all extra (id_tags i)\<rparr>"

definition with_stat :: "string \<Rightarrow> meter_id \<Rightarrow> meter_id" where
  "with_stat stat i = with_tag r_statistic stat i"

definition with_default_stat :: "string \<Rightarrow> meter_id \<Rightarrow> meter_id" where
  "with_default_stat stat i =
     (if tag_has (id_tags i) r_statistic then i else with_stat stat i)"

definition hash_id :: "(string \<Rightarrow> 64 word) \<Rightarrow> (tag_list \<Rightarrow> 64 word) \<Rightarrow> meter_id \<Rightarrow> 64 word" where
  \<comment> \<open>\<open>Hash()\<close>, the value cached in \<open>hash_\<close>\<close>
  "hash_id h ht i = xor (ht (id_tags i)) (h (id_name i))"

record dist_stats =
  ds_total :: meter_id
  ds_totalSq :: meter_id
  ds_max :: meter_id
  ds_count :: meter_id

definition mk_dist_stats :: "meter_id \<Rightarrow> string \<Rightarrow> dist_stats" where
  "mk_dist_stats base total_stat =
     \<lparr>ds_total = with_stat total_stat base,
      ds_totalSq = with_stat r_totalOfSquares base,
      ds_max = with_stat r_max base,
      ds_count = with_stat r_count base\<rparr>"

record measurement =
  m_id :: meter_id
  m_value :: double

definition measured :: "meter_id \<Rightarrow> double \<Rightarrow> measurement" where
  \<comment> \<open>\<open>results->emplace_back(id, value)\<close>\<close>
  "measured i v = \<lparr>m_id = i, m_value = v\<rparr>"

lemma measured_sel [simp]: "m_id (measured i v) = i" "m_value (measured i v) = v"
  by (simp_all add: measured_def)

definition wf_id :: "meter_id \<Rightarrow> bool" where
  "wf_id i \<longleftrightarrow> sorted_tags (id_tags i) \<and> sanitize (id_name i) = id_name i \<and>
     (\<forall>(k, v) \<in> set (id_tags i). sanitize k = k \<and> sanitize v = v)"

section \<open>Well-formedness\<close>

lemma set_tag_put_subset: "set (tag_put k v ts) \<subseteq> insert (k, v) (set ts)"
  by (induction ts) auto

lemma refs_sane [simp]:
  "sanitize r_statistic = r_statistic" "sanitize r_count = r_count" "sanitize r_gauge = r_gauge"
  "sanitize r_max = r_max" "sanitize r_totalTime = r_totalTime"
  "sanitize r_totalAmount = r_totalAmount" "sanitize r_totalOfSquares = r_totalOfSquares"
  "sanitize r_percentile = r_percentile" "sanitize r_name = r_name"
  by code_simp+

lemma wf_with_tag [spd_inv]:
  "wf_id i \<Longrightarrow> sanitize k = k \<Longrightarrow> sanitize v = v \<Longrightarrow> wf_id (with_tag k v i)"
  using set_tag_put_subset [of k v "id_tags i"] by (fastforce simp: wf_id_def with_tag_def)

lemma wf_with_stat [spd_inv]: "wf_id i \<Longrightarrow> sanitize s = s \<Longrightarrow> wf_id (with_stat s i)"
  by (simp add: with_stat_def wf_with_tag)

lemma wf_with_default_stat [spd_inv]: "wf_id i \<Longrightarrow> sanitize s = s \<Longrightarrow> wf_id (with_default_stat s i)"
  by (simp add: with_default_stat_def wf_with_stat)

lemma with_tags2_eq: "with_tags2 k1 v1 k2 v2 i = with_tag k2 v2 (with_tag k1 v1 i)"
  by (simp add: with_tags2_def with_tag_def)

lemma set_tag_put_all: "set (tag_put_all src ts) \<subseteq> set src \<union> set ts"
  unfolding tag_put_all_def
proof (induction src arbitrary: ts)
  case Nil
  then show ?case by simp
next
  case (Cons p src)
  have "set (fold (\<lambda>t. tag_put (fst t) (snd t)) src (tag_put (fst p) (snd p) ts))
        \<subseteq> set src \<union> set (tag_put (fst p) (snd p) ts)" by (rule Cons)
  with set_tag_put_subset [of "fst p" "snd p" ts] show ?case by auto
qed

lemma wf_id_of [spd_inv]: "wf_id (id_of name (intern_tags kvs))"
proof -
  have "set (intern_tags kvs) \<subseteq> (\<lambda>(k, v). (sanitize k, sanitize v)) ` set kvs"
    using set_tag_put_all [of "map (\<lambda>(k, v). (sanitize k, sanitize v)) kvs" "[]"]
    by (simp add: intern_tags_def)
  then show ?thesis by (fastforce simp: wf_id_def id_of_def intern_tags_def)
qed

section \<open>The statistic tag\<close>

lemma tag_at_put: "sorted_tags ts \<Longrightarrow> tag_at (tag_put k v ts) k' = (if k' = k then Some v else tag_at ts k')"
  by (simp add: tag_at_map_of map_of_tag_put)

lemma statistic_with_stat: "wf_id i \<Longrightarrow> tag_at (id_tags (with_stat s i)) r_statistic = Some s"
  by (simp add: with_stat_def with_tag_def wf_id_def tag_at_put)

text \<open>
  The identity under which a meter publishes: \<open>WithDefaultStat\<close> always yields a
  well-formed identity with a statistic, never overrides a statistic that the client chose, leaves
  the name and every other tag alone, and is idempotent whatever default the second call names.
\<close>

theorem with_default_stat_spec:
  assumes "wf_id i" and "sanitize s = s"
  shows "let j = with_default_stat s i in wf_id j \<and> id_name j = id_name i \<and>
    tag_at (id_tags j) r_statistic =
      (case tag_at (id_tags i) r_statistic of None \<Rightarrow> Some s | Some s0 \<Rightarrow> Some s0) \<and>
    (k \<noteq> r_statistic \<longrightarrow> tag_at (id_tags j) k = tag_at (id_tags i) k) \<and>
    with_default_stat s' j = j"
proof -
  have srt: "sorted_tags (id_tags i)" using assms(1) by (simp add: wf_id_def)
  show ?thesis
    using wf_with_default_stat [OF assms] srt
    by (auto simp: Let_def with_default_stat_def tag_has_tag_at with_stat_def with_tag_def tag_at_put
        split: option.split)
qed

theorem with_default_stat_spec_witness:
  "tag_at (id_tags (with_default_stat ''gauge'' (id_of ''foo'' (intern_tags [(''statistic'', ''duration'')]))))
     ''statistic'' = Some ''duration''"
proof -
  have "sanitize ''gauge'' = ''gauge''"
    "tag_at (id_tags (id_of ''foo'' (intern_tags [(''statistic'', ''duration'')]))) r_statistic = Some ''duration''"
    by code_simp+
  with with_default_stat_spec [OF wf_id_of, of "''gauge''" "''foo''" "[(''statistic'', ''duration'')]"]
  show ?thesis by (simp add: Let_def r_statistic_def)
qed

end
