(* ===== verification/Meters.thy ===== *)
theory Meters
  imports Ids
begin

text \<open>
  The meters of \<open>spectator/\<close>: what each keeps, what an update does to it and what it reports
  to the publisher. Times are readings of \<open>absl::GetCurrentTimeNanos()\<close>, an argument \<open>now\<close>
  of the operations. Every \<open>Measure\<close> returns the meter after it (cells drained, identity
  built on first use) and what it appended to the results, in order. The cells are updated
  here by one thread; the theory \<open>AtomicNumber\<close> treats their interleaving.
\<close>

section \<open>Durations and the base class\<close>

text \<open>
  \<open>absl::Duration\<close> is a library type. The code constructs durations from seconds and
  nanoseconds, compares them, converts them to nanoseconds and divides them by a nanosecond.
\<close>

record 'd absl_time =
  ab_seconds :: "int \<Rightarrow> 'd"
  ab_nanos :: "int \<Rightarrow> 'd"
  ab_less :: "'d \<Rightarrow> 'd \<Rightarrow> bool"
  ab_to_ns :: "'d \<Rightarrow> int"
  ab_div_ns :: "'d \<Rightarrow> int"

definition absl_laws :: "'d absl_time \<Rightarrow> bool" where
  \<comment> \<open>documented: durations are ordered, whole nanoseconds convert exactly, conversions
    saturate at the bounds of \<open>int64_t\<close> and round towards zero\<close>
  "absl_laws A \<longleftrightarrow>
     (\<forall>n. in_int64 n \<longrightarrow> ab_to_ns A (ab_nanos A n) = n \<and> ab_div_ns A (ab_nanos A n) = n) \<and>
     (\<forall>n. in_int64 (n * 1000000000) \<longrightarrow> ab_to_ns A (ab_seconds A n) = n * 1000000000) \<and>
     (\<forall>d. in_int64 (ab_to_ns A d)) \<and>
     (\<forall>d e. \<not> ab_less A d e \<longrightarrow> ab_to_ns A e \<le> ab_to_ns A d) \<and>
     (\<forall>d e. ab_less A d e \<longrightarrow> ab_to_ns A d \<le> ab_to_ns A e)"

record meter =
  mt_id :: meter_id
  mt_updated :: int

definition touch :: "int \<Rightarrow> 'x meter_scheme \<Rightarrow> 'x meter_scheme" where
  \<comment> \<open>\<open>Meter::Update()\<close>\<close>
  "touch now m = m\<lparr>mt_updated := now\<rparr>"

definition lazy_id :: "meter_id option \<Rightarrow> meter_id \<Rightarrow> meter_id" where
  \<comment> \<open>\<open>if (!x_id_) x_id_ = std::make_unique<Id>(...);\<close>\<close>
  "lazy_id cached i = (case cached of None \<Rightarrow> i | Some j \<Rightarrow> j)"

lemma touch_sel [simp]: "mt_id (touch now m) = mt_id m" "mt_updated (touch now m) = now"
  by (simp_all add: touch_def)

section \<open>Counter\<close>

record counter = meter +
  c_count_id :: "meter_id option"
  c_count :: double

definition new_counter :: "int \<Rightarrow> meter_id \<Rightarrow> counter" where
  "new_counter now i = \<lparr>mt_id = i, mt_updated = now, c_count_id = None, c_count = dpos0\<rparr>"

definition counter_measure :: "counter \<Rightarrow> counter \<times> measurement list" where
  "counter_measure c =
     (let count = c_count c; c1 = c\<lparr>c_count := dpos0\<rparr>
      in if dlt dpos0 count
         then let i = lazy_id (c_count_id c) (with_default_stat r_count (mt_id c))
              in (c1\<lparr>c_count_id := Some i\<rparr>, [measured i count])
         else (c1, []))"

definition counter_add :: "int \<Rightarrow> double \<Rightarrow> counter \<Rightarrow> counter" where
  "counter_add now delta c =
     (let c1 = touch now c
      in if dlt delta dpos0 then c1 else c1\<lparr>c_count := dadd (c_count c1) delta\<rparr>)"

definition counter_increment :: "int \<Rightarrow> counter \<Rightarrow> counter" where
  "counter_increment now c = counter_add now (dint 1) c"

section \<open>Gauge\<close>

record gauge = meter +
  g_ttl :: int
  g_gauge_id :: "meter_id option"
  g_value :: double

definition kMinTtlNanos :: int where
  "kMinTtlNanos = 5 * 1000 * 1000 * 1000"

definition get_ttl :: "'d absl_time \<Rightarrow> 'd \<Rightarrow> int" where
  "get_ttl A ttl = (if ab_less A ttl (ab_seconds A 5) then kMinTtlNanos else ab_to_ns A ttl)"

definition new_gauge :: "'d absl_time \<Rightarrow> int \<Rightarrow> meter_id \<Rightarrow> 'd \<Rightarrow> gauge" where
  "new_gauge A now i ttl = \<lparr>mt_id = i, mt_updated = now, g_ttl = get_ttl A ttl,
     g_gauge_id = None, g_value = NaN\<rparr>"

definition gauge_has_expired :: "int \<Rightarrow> gauge \<Rightarrow> bool" where
  "gauge_has_expired now g \<longleftrightarrow> g_ttl g < now - mt_updated g"

definition gauge_measure :: "int \<Rightarrow> gauge \<Rightarrow> gauge \<times> measurement list" where
  "gauge_measure now g =
     (let value = g_value g; g1 = (if gauge_has_expired now g then g\<lparr>g_value := NaN\<rparr> else g)
      in if is_nan value then (g1, [])
         else let i = lazy_id (g_gauge_id g) (with_default_stat r_gauge (mt_id g))
              in (g1\<lparr>g_gauge_id := Some i\<rparr>, [measured i value]))"

definition gauge_set :: "int \<Rightarrow> double \<Rightarrow> gauge \<Rightarrow> gauge" where
  "gauge_set now v g = (touch now g)\<lparr>g_value := v\<rparr>"

definition gauge_set_ttl :: "'d absl_time \<Rightarrow> 'd \<Rightarrow> gauge \<Rightarrow> gauge" where
  "gauge_set_ttl A ttl g = g\<lparr>g_ttl := get_ttl A ttl\<rparr>"

section \<open>Max gauge\<close>

record max_gauge = meter +
  mg_max_id :: "meter_id option"
  mg_value :: double

definition new_max_gauge :: "int \<Rightarrow> meter_id \<Rightarrow> max_gauge" where
  "new_max_gauge now i = \<lparr>mt_id = i, mt_updated = now, mg_max_id = None, mg_value = dlowest\<rparr>"

definition max_gauge_measure :: "max_gauge \<Rightarrow> max_gauge \<times> measurement list" where
  "max_gauge_measure g =
     (let value = mg_value g; g1 = g\<lparr>mg_value := dlowest\<rparr>
      in if deq value dlowest then (g1, [])
         else let i = lazy_id (mg_max_id g) (with_stat r_max (mt_id g))
              in (g1\<lparr>mg_max_id := Some i\<rparr>, [measured i value]))"

definition max_gauge_get :: "max_gauge \<Rightarrow> double" where
  "max_gauge_get g = (if \<not> deq (mg_value g) dlowest then mg_value g else NaN)"

definition max_gauge_update :: "int \<Rightarrow> double \<Rightarrow> max_gauge \<Rightarrow> max_gauge" where
  "max_gauge_update now v g =
     (let g1 = touch now g in if dlt (mg_value g1) v then g1\<lparr>mg_value := v\<rparr> else g1)"

section \<open>Age gauge\<close>

record age_gauge = meter +
  ag_last_success :: int
  ag_gauge_id :: "meter_id option"

definition new_age_gauge :: "int \<Rightarrow> meter_id \<Rightarrow> age_gauge" where
  "new_age_gauge now i = \<lparr>mt_id = i, mt_updated = now, ag_last_success = 0, ag_gauge_id = None\<rparr>"

definition age_gauge_value :: "int \<Rightarrow> age_gauge \<Rightarrow> double option" where
  \<comment> \<open>\<open>None\<close>: the subtraction overflows \<open>int64_t\<close>, undefined behaviour\<close>
  "age_gauge_value now g = (if in_int64 (now - ag_last_success g)
     then Some (ddiv (dint (now - ag_last_success g)) (dint 1000000000)) else None)"

definition age_gauge_measure :: "int \<Rightarrow> age_gauge \<Rightarrow> (age_gauge \<times> measurement list) option" where
  "age_gauge_measure now g =
     (let i = lazy_id (ag_gauge_id g) (with_default_stat r_gauge (mt_id g))
      in case age_gauge_value now g of None \<Rightarrow> None
         | Some v \<Rightarrow> Some (g\<lparr>ag_gauge_id := Some i\<rparr>, [measured i v]))"

definition update_last_success :: "int \<Rightarrow> age_gauge \<Rightarrow> age_gauge" where
  \<comment> \<open>does not call \<open>Update()\<close>: the base class keeps the time of construction\<close>
  "update_last_success t g = g\<lparr>ag_last_success := t\<rparr>"

section \<open>Monotonic counters\<close>

record mono_counter = meter +
  mc_count_id :: "meter_id option"
  mc_value :: double
  mc_prev :: double

definition new_mono_counter :: "int \<Rightarrow> meter_id \<Rightarrow> mono_counter" where
  "new_mono_counter now i = \<lparr>mt_id = i, mt_updated = now, mc_count_id = None, mc_value = NaN, mc_prev = NaN\<rparr>"

definition mono_set :: "int \<Rightarrow> double \<Rightarrow> mono_counter \<Rightarrow> mono_counter" where
  "mono_set now amount c = (touch now c)\<lparr>mc_value := amount\<rparr>"

definition mono_delta :: "mono_counter \<Rightarrow> double" where
  "mono_delta c = dsub (mc_value c) (mc_prev c)"

definition mono_measure :: "mono_counter \<Rightarrow> mono_counter \<times> measurement list" where
  "mono_measure c =
     (let delta = mono_delta c; c1 = c\<lparr>mc_prev := mc_value c\<rparr>
      in if dlt dpos0 delta
         then let i = lazy_id (mc_count_id c) (with_default_stat r_count (mt_id c))
              in (c1\<lparr>mc_count_id := Some i\<rparr>, [measured i delta])
         else (c1, []))"

record mono_uint = meter +
  mu_count_id :: "meter_id option"
  mu_init :: bool
  mu_value :: "64 word"
  mu_prev :: "64 word"

definition kOverflow :: double where
  "kOverflow = dint 9223372000000000000"

definition new_mono_uint :: "int \<Rightarrow> meter_id \<Rightarrow> mono_uint" where
  "new_mono_uint now i = \<lparr>mt_id = i, mt_updated = now, mu_count_id = None, mu_init = False,
     mu_value = 0, mu_prev = 0\<rparr>"

definition mono_uint_set :: "int \<Rightarrow> 64 word \<Rightarrow> mono_uint \<Rightarrow> mono_uint" where
  "mono_uint_set now amount c = (touch now c)\<lparr>mu_value := amount\<rparr>"

definition mono_uint_delta :: "mono_uint \<Rightarrow> double" where
  "mono_uint_delta c = (if \<not> mu_init c then NaN else
     let prev = mu_prev c; curr = mu_value c
     in if curr < prev then dint (uint (- 1 - prev + curr + 1)) else dint (uint (curr - prev)))"

definition mono_uint_measure :: "mono_uint \<Rightarrow> mono_uint \<times> measurement list" where
  "mono_uint_measure c =
     (let delta = mono_uint_delta c; c1 = c\<lparr>mu_prev := mu_value c, mu_init := True\<rparr>
      in if dlt dpos0 delta
         then let i = lazy_id (mu_count_id c) (with_default_stat r_count (mt_id c))
              in (c1\<lparr>mu_count_id := Some i\<rparr>,
                  [measured i (if dlt kOverflow delta then dint 0 else delta)])
         else (c1, []))"

section \<open>Sampled monotonic source\<close>

record mono_sampled = meter +
  ms_count_id :: "meter_id option"
  ms_value :: double
  ms_prev :: double
  ms_ts :: int
  ms_prev_ts :: int

definition new_mono_sampled :: "int \<Rightarrow> meter_id \<Rightarrow> mono_sampled" where
  "new_mono_sampled now i = \<lparr>mt_id = i, mt_updated = now, ms_count_id = None,
     ms_value = NaN, ms_prev = NaN, ms_ts = 0, ms_prev_ts = 0\<rparr>"

definition mono_sampled_set :: "int \<Rightarrow> double \<Rightarrow> int \<Rightarrow> mono_sampled \<Rightarrow> mono_sampled" where
  "mono_sampled_set now amount ts_nanos m =
     (let m1 = touch now m
      in if ts_nanos < ms_ts m1 then m1
         else let m2 = (if is_nan (ms_prev m1) then m1\<lparr>ms_prev := ms_value m1, ms_prev_ts := ms_ts m1\<rparr> else m1)
              in m2\<lparr>ms_value := amount, ms_ts := ts_nanos\<rparr>)"

definition sampled_rate :: "mono_sampled \<Rightarrow> double" where
  \<comment> \<open>both times are non-negative, so that their difference is in \<open>int64_t\<close>\<close>
  "sampled_rate m = ddiv (dsub (ms_value m) (ms_prev m))
     (ddiv (dint (ms_ts m - ms_prev_ts m)) (dint 1000000000))"

definition mono_sampled_measure :: "mono_sampled \<Rightarrow> mono_sampled \<times> measurement list" where
  "mono_sampled_measure m =
     (let delta = sampled_rate m
      in if is_nan delta then (m, [])
         else let m1 = m\<lparr>ms_prev := ms_value m, ms_prev_ts := ms_ts m\<rparr>
              in if dlt dpos0 delta
                 then let i = lazy_id (ms_count_id m) (with_stat r_count (mt_id m))
                      in (m1\<lparr>ms_count_id := Some i\<rparr>, [measured i delta])
                 else (m1, []))"

section \<open>Timer and distribution summary\<close>

record timer = meter +
  t_st :: "dist_stats option"
  t_count :: int
  t_total :: int
  t_totalSq :: double
  t_max :: int

definition lazy_stats :: "dist_stats option \<Rightarrow> dist_stats \<Rightarrow> dist_stats" where
  "lazy_stats cached st = (case cached of None \<Rightarrow> st | Some s \<Rightarrow> s)"

definition dist_report :: "dist_stats \<Rightarrow> int \<Rightarrow> double \<Rightarrow> double \<Rightarrow> double \<Rightarrow> measurement list" where
  \<comment> \<open>the four \<open>emplace_back\<close> calls, in order\<close>
  "dist_report st cnt tot t_sq mx =
     [measured (ds_count st) (dint cnt), measured (ds_total st) tot,
      measured (ds_totalSq st) t_sq, measured (ds_max st) mx]"

definition new_timer :: "int \<Rightarrow> meter_id \<Rightarrow> timer" where
  "new_timer now i = \<lparr>mt_id = i, mt_updated = now, t_st = None, t_count = 0, t_total = 0,
     t_totalSq = dpos0, t_max = 0\<rparr>"

definition timer_measure :: "timer \<Rightarrow> timer \<times> measurement list" where
  "timer_measure t =
     (let cnt = t_count t; t0 = t\<lparr>t_count := 0\<rparr>
      in if cnt = 0 then (t0, [])
         else let st = lazy_stats (t_st t) (mk_dist_stats (mt_id t) r_totalTime);
                  total_secs = ddiv (dint (t_total t)) (dint 1000000000);
                  t_sq_secs = ddiv (t_totalSq t) (dint 1000000000000000000);
                  mx_secs = ddiv (dint (t_max t)) (dint 1000000000)
              in (t0\<lparr>t_st := Some st, t_total := 0, t_totalSq := dpos0, t_max := 0\<rparr>,
                  dist_report st cnt total_secs t_sq_secs mx_secs))"

definition timer_record :: "'d absl_time \<Rightarrow> int \<Rightarrow> 'd \<Rightarrow> timer \<Rightarrow> timer" where
  \<comment> \<open>\<open>fetch_add\<close> on \<open>std::atomic_int64_t\<close> wraps around\<close>
  "timer_record A now amount t =
     (let t1 = touch now t; ns = ab_div_ns A amount
      in if 0 \<le> ns
         then t1\<lparr>t_count := wrap64 (t_count t1 + 1), t_total := wrap64 (t_total t1 + ns),
                 t_totalSq := dadd (t_totalSq t1) (dmul (dint ns) (dint ns)),
                 t_max := (if t_max t1 < ns then ns else t_max t1)\<rparr>
         else t1)"

record dist_summary = meter +
  d_st :: "dist_stats option"
  d_count :: int
  d_total :: double
  d_totalSq :: double
  d_max :: double

definition new_dist_summary :: "int \<Rightarrow> meter_id \<Rightarrow> dist_summary" where
  "new_dist_summary now i = \<lparr>mt_id = i, mt_updated = now, d_st = None, d_count = 0,
     d_total = dpos0, d_totalSq = dpos0, d_max = dpos0\<rparr>"

definition dist_summary_measure :: "dist_summary \<Rightarrow> dist_summary \<times> measurement list" where
  "dist_summary_measure d =
     (let cnt = d_count d; d0 = d\<lparr>d_count := 0\<rparr>
      in if cnt = 0 then (d0, [])
         else let st = lazy_stats (d_st d) (mk_dist_stats (mt_id d) r_totalAmount)
              in (d0\<lparr>d_st := Some st, d_total := dpos0, d_totalSq := dpos0, d_max := dpos0\<rparr>,
                  dist_report st cnt (d_total d) (d_totalSq d) (d_max d)))"

definition dist_summary_record :: "int \<Rightarrow> double \<Rightarrow> dist_summary \<Rightarrow> dist_summary" where
  "dist_summary_record now amount d =
     (let d1 = touch now d
      in if dle dpos0 amount
         then d1\<lparr>d_count := wrap64 (d_count d1 + 1), d_total := dadd (d_total d1) amount,
                 d_totalSq := dadd (d_totalSq d1) (dmul amount amount),
                 d_max := (if dlt (d_max d1) amount then amount else d_max d1)\<rparr>
         else d1)"

section \<open>The interface: what the registry relies on\<close>

text \<open>
  The registry measures meters without knowing their kind: a measurement carries the name of
  the meter and a statistic, and measuring changes neither the identity nor the time of the
  last update, on which expiry depends. Meters that report what happened since the last
  measurement are then silent until they are updated.
\<close>

locale reporting_meter =
  fixes measure :: "'m \<Rightarrow> 'm \<times> measurement list"
    and mid :: "'m \<Rightarrow> meter_id"
    and upd :: "'m \<Rightarrow> int"
    and ok :: "'m \<Rightarrow> bool"
  assumes mid_measure: "mid (fst (measure m)) = mid m"
    and upd_measure: "upd (fst (measure m)) = upd m"
    and ok_measure: "ok m \<Longrightarrow> ok (fst (measure m))"
    and measure_ids: "ok m \<Longrightarrow> x \<in> set (snd (measure m)) \<Longrightarrow>
      wf_id (m_id x) \<and> id_name (m_id x) = id_name (mid m) \<and> tag_has (id_tags (m_id x)) r_statistic"
begin

primrec polls :: "nat \<Rightarrow> 'm \<Rightarrow> 'm \<times> measurement list" where
  "polls 0 m = (m, [])"
| "polls (Suc n) m = (let (m1, xs) = measure m; (m2, ys) = polls n m1 in (m2, xs @ ys))"

lemma polls_keep: "mid (fst (polls n m)) = mid m \<and> upd (fst (polls n m)) = upd m \<and>
  (ok m \<longrightarrow> ok (fst (polls n m)))"
proof (induction n arbitrary: m)
  case 0
  then show ?case by simp
next
  case (Suc n)
  from Suc [of "fst (measure m)"] show ?case
    using mid_measure [of m] upd_measure [of m] ok_measure [of m]
    by (simp add: split_beta)
qed

lemma polls_ids: "ok m \<Longrightarrow> x \<in> set (snd (polls n m)) \<Longrightarrow>
  wf_id (m_id x) \<and> id_name (m_id x) = id_name (mid m) \<and> tag_has (id_tags (m_id x)) r_statistic"
proof (induction n arbitrary: m)
  case 0
  then show ?case by simp
next
  case (Suc n)
  have "snd (polls (Suc n) m) = snd (measure m) @ snd (polls n (fst (measure m)))"
    by (simp add: split_beta)
  with Suc.prems(2) consider "x \<in> set (snd (measure m))" | "x \<in> set (snd (polls n (fst (measure m))))"
    by auto
  then show ?case
  proof cases
    case 1
    then show ?thesis by (rule measure_ids [OF Suc.prems(1)])
  next
    case 2
    then show ?thesis using Suc.IH [OF ok_measure [OF Suc.prems(1)]] mid_measure [of m] by simp
  qed
qed

end

locale resetting_meter = reporting_meter +
  assumes idle: "ok m \<Longrightarrow> snd (measure (fst (measure m))) = []"
begin

lemma polls_silent: "ok m \<Longrightarrow> snd (measure m) = [] \<Longrightarrow> snd (polls n m) = []"
proof (induction n arbitrary: m)
  case 0
  then show ?case by simp
next
  case (Suc n)
  with Suc.IH [OF ok_measure [OF Suc.prems(1)] idle [OF Suc.prems(1)]] show ?case
    by (simp add: split_beta)
qed

lemma polls_once: "ok m \<Longrightarrow> snd (polls (Suc n) m) = snd (measure m)"
  using polls_silent [OF ok_measure idle] idle by (simp add: split_beta)

end

section \<open>Every meter provides it\<close>

lemma stat_id_facts:
  assumes "wf_id i" and "sanitize s = s"
  shows "wf_id (with_stat s i) \<and> id_name (with_stat s i) = id_name i \<and>
      tag_has (id_tags (with_stat s i)) r_statistic"
    and "wf_id (with_default_stat s i) \<and> id_name (with_default_stat s i) = id_name i \<and>
      tag_has (id_tags (with_default_stat s i)) r_statistic"
proof -
  show 1: "wf_id (with_stat s i) \<and> id_name (with_stat s i) = id_name i \<and>
      tag_has (id_tags (with_stat s i)) r_statistic"
    using wf_with_stat [OF assms] statistic_with_stat [OF assms(1), of s] tag_has_tag_at
    by (simp add: with_stat_def with_tag_def)
  then show "wf_id (with_default_stat s i) \<and> id_name (with_default_stat s i) = id_name i \<and>
      tag_has (id_tags (with_default_stat s i)) r_statistic"
    using assms(1) by (simp add: with_default_stat_def)
qed

definition cached_ok :: "'a option \<Rightarrow> 'a \<Rightarrow> bool" where
  "cached_ok cached x \<longleftrightarrow> cached = None \<or> cached = Some x"

lemma lazy_cached: "cached_ok cached i \<Longrightarrow> lazy_id cached i = i" "cached_ok cst st \<Longrightarrow> lazy_stats cst st = st"
  "cached_ok (Some x) x" "cached_ok None x"
  by (auto simp: cached_ok_def lazy_id_def lazy_stats_def)

lemma dsub_self: "\<not> dlt dpos0 (dsub x x)"
  by (cases x) (auto simp: dsub_def dpos0_def to_double_def)

lemma deq_lowest [simp]: "deq dlowest dlowest"
  by (simp add: dlowest_def)

definition counter_ok :: "counter \<Rightarrow> bool" where
  "counter_ok c \<longleftrightarrow> wf_id (mt_id c) \<and> cached_ok (c_count_id c) (with_default_stat r_count (mt_id c))"

definition gauge_ok :: "gauge \<Rightarrow> bool" where
  "gauge_ok g \<longleftrightarrow> wf_id (mt_id g) \<and> cached_ok (g_gauge_id g) (with_default_stat r_gauge (mt_id g))"

definition max_gauge_ok :: "max_gauge \<Rightarrow> bool" where
  "max_gauge_ok g \<longleftrightarrow> wf_id (mt_id g) \<and> cached_ok (mg_max_id g) (with_stat r_max (mt_id g))"

definition age_gauge_ok :: "age_gauge \<Rightarrow> bool" where
  "age_gauge_ok g \<longleftrightarrow> wf_id (mt_id g) \<and> cached_ok (ag_gauge_id g) (with_default_stat r_gauge (mt_id g))"

definition mono_ok :: "mono_counter \<Rightarrow> bool" where
  "mono_ok c \<longleftrightarrow> wf_id (mt_id c) \<and> cached_ok (mc_count_id c) (with_default_stat r_count (mt_id c))"

definition mono_uint_ok :: "mono_uint \<Rightarrow> bool" where
  "mono_uint_ok c \<longleftrightarrow> wf_id (mt_id c) \<and> cached_ok (mu_count_id c) (with_default_stat r_count (mt_id c))"

definition mono_sampled_ok :: "mono_sampled \<Rightarrow> bool" where
  "mono_sampled_ok c \<longleftrightarrow> wf_id (mt_id c) \<and> cached_ok (ms_count_id c) (with_stat r_count (mt_id c))"

definition timer_ok :: "timer \<Rightarrow> bool" where
  "timer_ok t \<longleftrightarrow> wf_id (mt_id t) \<and> cached_ok (t_st t) (mk_dist_stats (mt_id t) r_totalTime)"

definition dist_summary_ok :: "dist_summary \<Rightarrow> bool" where
  "dist_summary_ok d \<longleftrightarrow> wf_id (mt_id d) \<and> cached_ok (d_st d) (mk_dist_stats (mt_id d) r_totalAmount)"

lemmas meter_ok_defs = counter_ok_def gauge_ok_def max_gauge_ok_def age_gauge_ok_def mono_ok_def
  mono_uint_ok_def mono_sampled_ok_def timer_ok_def dist_summary_ok_def

interpretation counter: resetting_meter counter_measure mt_id mt_updated counter_ok
  by unfold_locales
    (auto simp: counter_measure_def Let_def counter_ok_def lazy_cached stat_id_facts split: if_splits)

interpretation max_gauge: resetting_meter max_gauge_measure mt_id mt_updated max_gauge_ok
  by unfold_locales
    (auto simp: max_gauge_measure_def Let_def max_gauge_ok_def lazy_cached stat_id_facts split: if_splits)

interpretation mono: resetting_meter mono_measure mt_id mt_updated mono_ok
  by unfold_locales
    (auto simp: mono_measure_def mono_delta_def Let_def mono_ok_def lazy_cached stat_id_facts dsub_self
      split: if_splits)

interpretation mono_uint: resetting_meter mono_uint_measure mt_id mt_updated mono_uint_ok
  by unfold_locales
    (auto simp: mono_uint_measure_def mono_uint_delta_def Let_def mono_uint_ok_def lazy_cached
      stat_id_facts dpos0_def split: if_splits)

interpretation gauge: reporting_meter "gauge_measure now" mt_id mt_updated gauge_ok for now
  by unfold_locales
    (auto simp: gauge_measure_def Let_def gauge_ok_def lazy_cached stat_id_facts split: if_splits)

lemma wf_id_plain [simp]: "wf_id (id_of name [])"
  using wf_id_of [of name "[]"] by (simp add: intern_tags_def tag_put_all_def)

lemma dist_report_ids:
  assumes "wf_id i" and "sanitize s = s" and "x \<in> set (dist_report (mk_dist_stats i s) cnt tot sq mx)"
  shows "wf_id (m_id x) \<and> id_name (m_id x) = id_name i \<and> tag_has (id_tags (m_id x)) r_statistic"
  using assms(3) stat_id_facts(1) [OF assms(1)] assms(2)
  by (auto simp: dist_report_def mk_dist_stats_def)

interpretation timer: resetting_meter timer_measure mt_id mt_updated timer_ok
proof unfold_locales
  fix t x
  assume t: "timer_ok t"
  then have w: "wf_id (mt_id t)" by (simp add: timer_ok_def)
  assume "x \<in> set (snd (timer_measure t))"
  then show "wf_id (m_id x) \<and> id_name (m_id x) = id_name (mt_id t) \<and> tag_has (id_tags (m_id x)) r_statistic"
    using t dist_report_ids [OF w, of r_totalTime]
    by (auto simp: timer_measure_def timer_ok_def Let_def lazy_cached split: if_splits)
qed (auto simp: timer_measure_def Let_def timer_ok_def lazy_cached split: if_splits)

interpretation dist_summary: resetting_meter dist_summary_measure mt_id mt_updated dist_summary_ok
proof unfold_locales
  fix t x
  assume t: "dist_summary_ok t"
  then have w: "wf_id (mt_id t)" by (simp add: dist_summary_ok_def)
  assume "x \<in> set (snd (dist_summary_measure t))"
  then show "wf_id (m_id x) \<and> id_name (m_id x) = id_name (mt_id t) \<and> tag_has (id_tags (m_id x)) r_statistic"
    using t dist_report_ids [OF w, of r_totalAmount]
    by (auto simp: dist_summary_measure_def dist_summary_ok_def Let_def lazy_cached split: if_splits)
qed (auto simp: dist_summary_measure_def Let_def dist_summary_ok_def lazy_cached split: if_splits)

lemma dsub_self_shape: "dsub x x = NaN \<or> dsub x x = Zero False \<or> dsub x x = Zero True"
  by (cases x) (auto simp: dsub_def to_double_def)

lemma sampled_idle:
  assumes "ms_prev m = ms_value m" and "ms_prev_ts m = ms_ts m"
  shows "sampled_rate m = NaN"
proof -
  have "ddiv (dint 0) (dint 1000000000) = Zero False" by (simp add: dint_exact to_double_def sign_differs_def)
  then show ?thesis
    using assms dsub_self_shape [of "ms_value m"] by (auto simp: sampled_rate_def)
qed

interpretation mono_sampled: resetting_meter mono_sampled_measure mt_id mt_updated mono_sampled_ok
proof unfold_locales
  fix m x
  assume m: "mono_sampled_ok m"
  show "snd (mono_sampled_measure (fst (mono_sampled_measure m))) = []"
    by (auto simp: mono_sampled_measure_def Let_def sampled_idle)
qed (auto simp: mono_sampled_measure_def Let_def mono_sampled_ok_def lazy_cached stat_id_facts
    split: if_splits)

section \<open>Histories of one meter\<close>

datatype counter_op = Add int int | Poll

primrec counter_run :: "counter_op list \<Rightarrow> counter \<Rightarrow> counter \<times> measurement list" where
  \<comment> \<open>clients add whole amounts, the publisher polls\<close>
  "counter_run [] c = (c, [])"
| "counter_run (x # xs) c = (case x of
     Add now n \<Rightarrow> counter_run xs (counter_add now (dint n) c)
   | Poll \<Rightarrow> (let (c1, ms) = counter_measure c; (c2, ms2) = counter_run xs c1 in (c2, ms @ ms2)))"

primrec added :: "counter_op list \<Rightarrow> int list" where
  "added [] = []"
| "added (x # xs) = (case x of Add now n \<Rightarrow> n # added xs | Poll \<Rightarrow> added xs)"

abbreviation accepted :: "int list \<Rightarrow> int" where
  "accepted ns \<equiv> sum_list (filter (\<lambda>n. 0 \<le> n) ns)"

lemma accepted_nonneg: "0 \<le> accepted ns"
  by (rule sum_list_nonneg) simp

lemma dlt_dint_pos0: "\<bar>n\<bar> \<le> 2 ^ 53 \<Longrightarrow> dlt (dint n) dpos0 \<longleftrightarrow> n < 0"
  "\<bar>n\<bar> \<le> 2 ^ 53 \<Longrightarrow> dlt dpos0 (dint n) \<longleftrightarrow> 0 < n"
  by (simp_all add: dint_exact dpos0_def)

lemma counter_add_dint:
  assumes "c_count c = dint p" and "0 \<le> p" and "\<bar>n\<bar> \<le> 2 ^ 53" and "p + max n 0 \<le> 2 ^ 53"
  shows "c_count (counter_add now (dint n) c) = dint (p + max n 0)"
    and "mt_id (counter_add now (dint n) c) = mt_id c"
    and "c_count_id (counter_add now (dint n) c) = c_count_id c"
  using assms dadd_dint [of p n] by (auto simp: counter_add_def Let_def dlt_dint_pos0 touch_def)

lemma counter_run_sum:
  assumes "counter_ok c" and "c_count c = dint p" and "0 \<le> p" and "\<forall>n \<in> set (added ops). \<bar>n\<bar> \<le> 2 ^ 53"
    and "p + accepted (added ops) \<le> 2 ^ 53"
  shows "\<exists>rs q. map m_value (snd (counter_run ops c)) = map dint rs \<and> (\<forall>r \<in> set rs. 0 < r) \<and>
    c_count (fst (counter_run ops c)) = dint q \<and> 0 \<le> q \<and> sum_list rs + q = p + accepted (added ops) \<and>
    (\<forall>m \<in> set (snd (counter_run ops c)). m_id m = with_default_stat r_count (mt_id c))"
  using assms
proof (induction ops arbitrary: c p)
  case Nil
  then show ?case by (intro exI [of _ "[]"] exI [of _ p]) simp
next
  case (Cons x ops)
  show ?case
  proof (cases x)
    case (Add now n)
    let ?c = "counter_add now (dint n) c"
    have n: "\<bar>n\<bar> \<le> 2 ^ 53" and le: "p + max n 0 + accepted (added ops) \<le> 2 ^ 53"
      and eq: "p + accepted (added (x # ops)) = p + max n 0 + accepted (added ops)"
      using Cons.prems(4,5) Add by (auto split: if_splits)
    note step = counter_add_dint [OF Cons.prems(2,3) n, of now]
    have p': "p + max n 0 \<le> 2 ^ 53" using le accepted_nonneg [of "added ops"] by linarith
    have ok: "counter_ok ?c"
      using Cons.prems(1) step(2,3) [OF p'] by (simp add: counter_ok_def)
    have run: "counter_run (x # ops) c = counter_run ops ?c" using Add by simp
    have small: "\<forall>n \<in> set (added ops). \<bar>n\<bar> \<le> 2 ^ 53" using Cons.prems(4) Add by simp
    have "0 \<le> p + max n 0" using Cons.prems(3) by simp
    from Cons.IH [OF ok step(1) [OF p'] this small le] show ?thesis
      unfolding run step(2) [OF p'] eq by simp
  next
    case Poll
    let ?m = "counter_measure c"
    have p: "\<bar>p\<bar> \<le> 2 ^ 53" using Cons.prems(3,5) accepted_nonneg [of "added (x # ops)"] by linarith
    have ok: "counter_ok (fst ?m)" by (rule counter.ok_measure [OF Cons.prems(1)])
    have id: "mt_id (fst ?m) = mt_id c" by (rule counter.mid_measure)
    have z: "c_count (fst ?m) = dint 0" by (simp add: counter_measure_def Let_def dpos0_def)
    have ms: "snd ?m = (if 0 < p then [measured (with_default_stat r_count (mt_id c)) (dint p)] else [])"
      using Cons.prems(1,2) dlt_dint_pos0(2) [OF p]
      by (simp add: counter_measure_def Let_def counter_ok_def lazy_cached)
    have small: "\<forall>n \<in> set (added ops). \<bar>n\<bar> \<le> 2 ^ 53" and le: "0 + accepted (added ops) \<le> 2 ^ 53"
      using Cons.prems(3-5) Poll by simp_all
    obtain rs q where IH: "map m_value (snd (counter_run ops (fst ?m))) = map dint rs" "\<forall>r \<in> set rs. 0 < r"
      "c_count (fst (counter_run ops (fst ?m))) = dint q" "0 \<le> q" "sum_list rs + q = 0 + accepted (added ops)"
      "\<forall>m \<in> set (snd (counter_run ops (fst ?m))). m_id m = with_default_stat r_count (mt_id c)"
      using Cons.IH [OF ok z _ small le] unfolding id by auto
    have run: "counter_run (x # ops) c =
        (fst (counter_run ops (fst ?m)), snd ?m @ snd (counter_run ops (fst ?m)))"
      using Poll by (simp add: split_beta)
    show ?thesis
      using IH Cons.prems(3) Poll unfolding run ms
      by (intro exI [of _ "(if 0 < p then [p] else []) @ rs"] exI [of _ q]) auto
  qed
qed

text \<open>
  C24. A counter loses and invents nothing: whatever the interleaving of additions and polls, the
  values reported so far, all positive, together with the pending count add up to the sum of
  the non-negative amounts added (exact up to 2^53, the range where doubles hold whole
  numbers), and each is reported under the counter's identity with its default statistic.
\<close>

theorem counter_conserves:
  assumes "wf_id i" and "\<forall>n \<in> set (added ops). \<bar>n\<bar> \<le> 2 ^ 53" and "accepted (added ops) \<le> 2 ^ 53"
    and "counter_run ops (new_counter now i) = (c, ms)"
  shows "\<exists>rs q. map m_value ms = map dint rs \<and> (\<forall>r \<in> set rs. 0 < r) \<and> c_count c = dint q \<and> 0 \<le> q \<and>
    sum_list rs + q = accepted (added ops) \<and> (\<forall>m \<in> set ms. m_id m = with_default_stat r_count i)"
proof -
  have "counter_ok (new_counter now i)" "c_count (new_counter now i) = dint 0" "mt_id (new_counter now i) = i"
    using assms(1) by (simp_all add: counter_ok_def new_counter_def lazy_cached dpos0_def)
  with counter_run_sum [of "new_counter now i" 0 ops] assms show ?thesis by simp
qed

theorem counter_conserves_witness:
  "\<exists>rs q. map m_value (snd (counter_run [Add 1 5, Poll, Add 2 (- 3), Add 3 7, Poll, Add 4 1]
       (new_counter 0 (id_of ''c'' [])))) = map dint rs \<and> sum_list rs + q = 13"
proof -
  let ?ops = "[Add 1 5, Poll, Add 2 (- 3), Add 3 7, Poll, Add 4 1]"
  have "wf_id (id_of ''c'' [])" by (rule wf_id_plain)
  with counter_conserves [of "id_of ''c'' []" ?ops 0, OF _ _ _ prod.collapse [symmetric]]
  show ?thesis by auto
qed

lemma max_gauge_fold:
  "mt_id (fold (max_gauge_update now) vs g) = mt_id g \<and>
   mg_max_id (fold (max_gauge_update now) vs g) = mg_max_id g \<and>
   mg_value (fold (max_gauge_update now) vs g) = fold (\<lambda>v m. if dlt m v then v else m) vs (mg_value g)"
  by (induction vs arbitrary: g) (simp_all add: max_gauge_update_def Let_def touch_def)

lemma fold_max_spec:
  fixes m :: double
  assumes "m \<noteq> NaN"
  shows "let r = fold (\<lambda>v m. if dlt m v then v else m) vs m in
    r \<noteq> NaN \<and> (r = m \<or> r \<in> set vs \<and> dlt m r) \<and> (\<forall>v \<in> set vs. \<not> dlt r v) \<and> \<not> dlt r m"
  using assms
proof (induction vs arbitrary: m)
  case Nil
  then show ?case by simp
next
  case (Cons v vs)
  let ?m = "if dlt m v then v else m"
  let ?r = "fold (\<lambda>v m. if dlt m v then v else m) vs ?m"
  have nn: "?m \<noteq> NaN" using Cons.prems by auto
  from Cons.IH [OF nn] have r: "?r \<noteq> NaN" "?r = ?m \<or> ?r \<in> set vs \<and> dlt ?m ?r"
    "\<forall>v \<in> set vs. \<not> dlt ?r v" "\<not> dlt ?r ?m" by (simp_all add: Let_def)
  have "\<not> dlt ?r v" using r(1,4) Cons.prems dlt_trans [of ?r m v] dlt_dle_trans dlt_not_dle
    by (smt (verit) dlt_NaN(1) dlt_irrefl dle_lin dle_trans)
  moreover have "?r = m \<or> ?r \<in> set (v # vs) \<and> dlt m ?r"
    using r(2) dlt_trans [of m v ?r] by (auto split: if_splits)
  moreover have "\<not> dlt ?r m" using r(4) dlt_trans [of ?r m v] by (auto split: if_splits)
  ultimately show ?case using r(1,3) by (simp add: Let_def)
qed

text \<open>
  A max gauge reports the largest value set since the last poll, whatever was set before it
  and in which order, and nothing when no value above the lowest double was set (a NaN never
  counts).
\<close>

theorem max_gauge_reports_max:
  assumes "max_gauge_ok g"
  shows "let drained = fst (max_gauge_measure g);
      reports = snd (max_gauge_measure (fold (max_gauge_update now) vs drained))
    in if \<exists>v \<in> set vs. dlt dlowest v
       then \<exists>m \<in> set vs. reports = [measured (with_stat r_max (mt_id g)) m] \<and> (\<forall>v \<in> set vs. \<not> dlt m v)
       else reports = []"
proof -
  let ?d = "fst (max_gauge_measure g)"
  let ?g = "fold (max_gauge_update now) vs ?d"
  let ?r = "fold (\<lambda>v m. if dlt m v then v else m) vs dlowest"
  have "mg_value ?d = dlowest" by (simp add: max_gauge_measure_def Let_def)
  then have v: "mg_value ?g = ?r" using max_gauge_fold [of now vs ?d] by simp
  have "max_gauge_ok ?d" by (rule max_gauge.ok_measure [OF assms])
  then have "lazy_id (mg_max_id ?g) (with_stat r_max (mt_id ?g)) = with_stat r_max (mt_id g)"
    using max_gauge_fold [of now vs ?d] max_gauge.mid_measure [of g]
    by (simp add: max_gauge_ok_def lazy_cached)
  then have rep: "snd (max_gauge_measure ?g) =
      (if deq ?r dlowest then [] else [measured (with_stat r_max (mt_id g)) ?r])"
    using v by (simp add: max_gauge_measure_def Let_def)
  have "dlowest \<noteq> NaN" by (simp add: dlowest_def)
  from fold_max_spec [OF this, of vs] have r: "?r = dlowest \<or> ?r \<in> set vs \<and> dlt dlowest ?r"
    "\<forall>v \<in> set vs. \<not> dlt ?r v" by (simp_all add: Let_def)
  have "\<not> deq ?r dlowest" if "dlt dlowest ?r"
    using that by (cases ?r) (auto simp: dlowest_def)
  with r rep show ?thesis by (auto simp: Let_def)
qed

theorem max_gauge_reports_max_witness:
  "\<exists>m \<in> {dint 3, dint 9, dint 4}. snd (max_gauge_measure (fold (max_gauge_update 7) [dint 3, dint 9, dint 4]
     (fst (max_gauge_measure (new_max_gauge 0 (id_of ''m'' [])))))) = [measured (with_stat r_max (id_of ''m'' [])) m]"
proof -
  have "max_gauge_ok (new_max_gauge 0 (id_of ''m'' []))"
    by (simp add: max_gauge_ok_def new_max_gauge_def lazy_cached)
  moreover have "dlt dlowest (dint 3)" by (simp add: dint_exact dlowest_def)
  ultimately show ?thesis
    using max_gauge_reports_max [of "new_max_gauge 0 (id_of ''m'' [])" 7 "[dint 3, dint 9, dint 4]"]
    by (auto simp: Let_def new_max_gauge_def)
qed

primrec mono_uint_polls :: "int \<Rightarrow> 64 word list \<Rightarrow> mono_uint \<Rightarrow> measurement list" where
  \<comment> \<open>each value is set and then polled\<close>
  "mono_uint_polls now [] c = []"
| "mono_uint_polls now (b # bs) c =
     (let (c1, ms) = mono_uint_measure (mono_uint_set now b c) in ms @ mono_uint_polls now bs c1)"

primrec increments :: "64 word \<Rightarrow> 64 word list \<Rightarrow> int list" where
  "increments a [] = []"
| "increments a (b # bs) = uint (b - a) # increments b bs"

lemma mono_uint_delta_wraps: "mu_init c \<Longrightarrow> mono_uint_delta c = dint (uint (mu_value c - mu_prev c))"
  by (simp add: mono_uint_delta_def Let_def)

lemma dint_pos: "0 \<le> n \<Longrightarrow> n < 2 ^ 64 \<Longrightarrow> dlt dpos0 (dint n) \<longleftrightarrow> 0 < n"
proof (cases "n \<le> 2 ^ 53")
  case True
  then show "0 \<le> n \<Longrightarrow> ?thesis" by (simp add: dlt_dint_pos0)
next
  case False
  have "rnd 1 = 1" using rnd_of_int [of 1] by simp
  moreover have "(1::rat) \<le> of_int n" using False of_int_le_iff [of 1 n, where 'a = rat] by simp
  ultimately have "1 \<le> rnd (of_int n)" using rnd_mono [of 1 "of_int n"] by simp
  then show ?thesis using False by (auto simp: dint_def to_double_def dpos0_def Let_def)
qed

text \<open>
  C19. A monotonic counter of 64-bit readings reports true increments: once initialised, the
  reports for readings polled one after the other are the differences modulo 2^64 (so a wrap of the
  source is not lost), silent where the reading did not move, with a difference beyond
  \<open>kOverflow\<close> (a source that restarted) reported as zero.
\<close>

theorem mono_uint_reports_increments:
  assumes "mu_init c" and "mono_uint_ok c"
  shows "mono_uint_polls now bs c =
    map (\<lambda>d. measured (with_default_stat r_count (mt_id c)) (if dlt kOverflow (dint d) then dint 0 else dint d))
      (filter (\<lambda>d. d \<noteq> 0) (increments (mu_prev c) bs))"
  using assms
proof (induction bs arbitrary: c)
  case Nil
  then show ?case by simp
next
  case (Cons b bs)
  define d where "d = uint (b - mu_prev c)"
  define s where "s = mono_uint_set now b c"
  have s: "mu_init s" "mono_uint_ok s" "mt_id s = mt_id c" "mu_value s = b" "mu_prev s = mu_prev c"
    using Cons.prems by (simp_all add: s_def mono_uint_set_def mono_uint_ok_def touch_def)
  have "dlt dpos0 (dint d) \<longleftrightarrow> d \<noteq> 0"
    using dint_pos [of d] uint_lt2p [of "b - mu_prev c"] uint_ge_0 [of "b - mu_prev c"]
    unfolding d_def [symmetric] by auto
  then have m: "snd (mono_uint_measure s) = map (\<lambda>d. measured (with_default_stat r_count (mt_id c))
      (if dlt kOverflow (dint d) then dint 0 else dint d)) (filter (\<lambda>d. d \<noteq> 0) [d])"
    using s by (simp add: mono_uint_measure_def Let_def mono_uint_delta_wraps lazy_cached mono_uint_ok_def
        flip: d_def)
  let ?c = "fst (mono_uint_measure s)"
  have c: "mu_init ?c" "mono_uint_ok ?c" "mt_id ?c = mt_id c" "mu_prev ?c = b"
    using s mono_uint.ok_measure [OF s(2)] mono_uint.mid_measure [of s]
    by (simp_all add: mono_uint_measure_def Let_def)
  have "mono_uint_polls now (b # bs) c = snd (mono_uint_measure s) @ mono_uint_polls now bs ?c"
    by (simp add: split_beta flip: s_def)
  with Cons.IH [OF c(1,2)] m show ?case by (simp add: c d_def)
qed

theorem mono_uint_reports_increments_witness:
  \<comment> \<open>a wrap by 5, and an increment below 2^63 that the threshold still takes for a restart\<close>
  "mono_uint_polls 1 [- 2, 3, 3, 9223372030000000000 + 3]
     (fst (mono_uint_measure (new_mono_uint 0 (id_of ''c'' [])))) =
   map (\<lambda>d. measured (with_default_stat r_count (id_of ''c'' [])) (if dlt kOverflow (dint d) then dint 0 else dint d))
     [18446744073709551614, 5, 9223372030000000000]"
proof -
  let ?c = "fst (mono_uint_measure (new_mono_uint 0 (id_of ''c'' [])))"
  have "mono_uint_ok (new_mono_uint 0 (id_of ''c'' []))"
    by (simp add: mono_uint_ok_def new_mono_uint_def lazy_cached)
  then have "mono_uint_ok ?c" by (rule mono_uint.ok_measure)
  moreover have "mu_init ?c" "mu_prev ?c = 0" "mt_id ?c = id_of ''c'' []"
    by (simp_all add: mono_uint_measure_def new_mono_uint_def Let_def)
  moreover have "filter (\<lambda>d. d \<noteq> 0) (increments 0 [- 2, 3, 3, 9223372030000000000 + 3]) =
      [18446744073709551614, 5, 9223372030000000000]"
    by simp
  ultimately show ?thesis
    using mono_uint_reports_increments [of ?c 1 "[- 2, 3, 3, 9223372030000000000 + 3]"] by simp
qed

definition non_negative :: "'d absl_time \<Rightarrow> 'd list \<Rightarrow> int list" where
  "non_negative A ds = filter (\<lambda>n. 0 \<le> n) (map (ab_div_ns A) ds)"

lemma timer_fold:
  assumes "0 \<le> t_count t" and "t_count t + length ds \<le> int64_max"
    and "0 \<le> t_total t" and "t_total t + sum_list (non_negative A ds) \<le> int64_max"
  shows "let u = fold (timer_record A now) ds t; ns = non_negative A ds in
    mt_id u = mt_id t \<and> t_st u = t_st t \<and> t_count u = t_count t + length ns \<and>
    t_total u = t_total t + sum_list ns \<and>
    t_totalSq u = foldl dadd (t_totalSq t) (map (\<lambda>n. dmul (dint n) (dint n)) ns) \<and>
    t_max u = fold max ns (t_max t)"
  using assms
proof (induction ds arbitrary: t)
  case Nil
  then show ?case by (simp add: non_negative_def)
next
  case (Cons d ds)
  let ?n = "ab_div_ns A d" and ?t = "timer_record A now d t"
  have nn: "0 \<le> sum_list (non_negative A ds)"
    by (rule sum_list_nonneg) (simp add: non_negative_def)
  have sel: "mt_id ?t = mt_id t" "t_st ?t = t_st t"
    by (simp_all add: timer_record_def Let_def touch_def)
  show ?case
  proof (cases "0 \<le> ?n")
    case True
    have eq: "non_negative A (d # ds) = ?n # non_negative A ds" using True by (simp add: non_negative_def)
    have b: "t_total t + ?n \<le> int64_max" "t_count t + 1 \<le> int64_max"
      using Cons.prems(2,4) nn by (simp_all add: eq)
    have t: "t_count ?t = t_count t + 1" "t_total ?t = t_total t + ?n"
      "t_totalSq ?t = dadd (t_totalSq t) (dmul (dint ?n) (dint ?n))" "t_max ?t = max (t_max t) ?n"
      using True b Cons.prems(1,3)
      by (auto simp: timer_record_def Let_def touch_def wrap64_id in_int64_def int64_min_def max_def)
    have "0 \<le> t_count ?t" "t_count ?t + int (length ds) \<le> int64_max" "0 \<le> t_total ?t"
      "t_total ?t + sum_list (non_negative A ds) \<le> int64_max"
      using Cons.prems True by (simp_all add: t eq)
    from Cons.IH [OF this] show ?thesis by (simp add: Let_def eq t sel max.commute)
  next
    case False
    have eq: "non_negative A (d # ds) = non_negative A ds" using False by (simp add: non_negative_def)
    have t: "t_count ?t = t_count t" "t_total ?t = t_total t" "t_totalSq ?t = t_totalSq t" "t_max ?t = t_max t"
      using False by (simp_all add: timer_record_def Let_def touch_def)
    have "0 \<le> t_count ?t" "t_count ?t + int (length ds) \<le> int64_max" "0 \<le> t_total ?t"
      "t_total ?t + sum_list (non_negative A ds) \<le> int64_max"
      using Cons.prems by (simp_all add: t eq)
    from Cons.IH [OF this] show ?thesis by (simp add: Let_def eq t sel)
  qed
qed

lemma fold_max_nonneg: "\<forall>n \<in> set ns. 0 \<le> n \<Longrightarrow> ns \<noteq> [] \<Longrightarrow> fold max ns 0 = (Max (set ns) :: int)"
proof -
  assume "\<forall>n \<in> set ns. 0 \<le> n" and ne: "ns \<noteq> []"
  then have "0 \<le> Max (set ns)" by (meson List.finite_set Max_in set_empty)
  moreover have "fold max ns 0 = Max (set (0 # ns))" by (simp only: Max.set_eq_fold)
  ultimately show ?thesis using ne by simp
qed

text \<open>
  A timer reports exactly what was recorded since the last poll: for any durations whose
  number and total fit in \<open>int64_t\<close>, negative ones are ignored, and if any remain the
  report is their number, their total and the largest in seconds, and the sum of their squares,
  accumulated in order with rounding, in square seconds; otherwise nothing is reported.
\<close>

theorem timer_reports_recordings:
  assumes "timer_ok t" and "t_count t \<noteq> 0" and "length ds \<le> int64_max"
    and "sum_list (non_negative A ds) \<le> int64_max"
  shows "let ns = non_negative A ds; secs = (\<lambda>n. ddiv (dint n) (dint 1000000000)) in
    snd (timer_measure (fold (timer_record A now) ds (fst (timer_measure t)))) =
      (if ns = [] then []
       else dist_report (mk_dist_stats (mt_id t) r_totalTime) (length ns) (secs (sum_list ns))
         (ddiv (foldl dadd dpos0 (map (\<lambda>n. dmul (dint n) (dint n)) ns)) (dint 1000000000000000000))
         (secs (Max (set ns))))"
proof -
  let ?d = "fst (timer_measure t)"
  let ?u = "fold (timer_record A now) ds ?d" and ?ns = "non_negative A ds"
  have d: "t_count ?d = 0" "t_total ?d = 0" "t_totalSq ?d = dpos0" "t_max ?d = 0"
    using assms(2) by (simp_all add: timer_measure_def Let_def)
  have u: "mt_id ?u = mt_id ?d" "t_st ?u = t_st ?d" "t_count ?u = length ?ns" "t_total ?u = sum_list ?ns"
    "t_totalSq ?u = foldl dadd dpos0 (map (\<lambda>n. dmul (dint n) (dint n)) ?ns)" "t_max ?u = fold max ?ns 0"
    using timer_fold [of ?d ds A now] assms(3,4) by (simp_all add: d Let_def)
  have st: "lazy_stats (t_st ?u) (mk_dist_stats (mt_id ?u) r_totalTime) = mk_dist_stats (mt_id t) r_totalTime"
    using timer.ok_measure [OF assms(1)] timer.mid_measure [of t]
    unfolding u by (simp add: timer_ok_def lazy_cached)
  have "\<forall>n \<in> set ?ns. 0 \<le> n" by (simp add: non_negative_def)
  then have mx: "?ns \<noteq> [] \<Longrightarrow> fold max ?ns 0 = Max (set ?ns)" by (rule fold_max_nonneg)
  show ?thesis
    unfolding timer_measure_def [of ?u] Let_def st unfolding u using mx by simp
qed

theorem timer_reports_recordings_witness:
  "\<exists>t :: timer. \<exists>A :: int absl_time. length (snd (timer_measure (fold (timer_record A 3) [7, - 2, 5] (fst (timer_measure t))))) = 4 \<and>
    non_negative A [7, - 2, 5] = [7, 5]"
proof -
  define A :: "int absl_time" where "A = \<lparr>ab_seconds = (\<lambda>s. s * 1000000000), ab_nanos = (\<lambda>n. n),
    ab_less = (<), ab_to_ns = (\<lambda>n. n), ab_div_ns = (\<lambda>n. n)\<rparr>"
  define t where "t = timer_record A 1 4 (new_timer 0 (id_of ''t'' []))"
  have "timer_ok t" "t_count t \<noteq> 0"
    by (simp_all add: t_def timer_record_def new_timer_def A_def Let_def touch_def timer_ok_def lazy_cached
        wrap64_def)
  moreover have ns: "non_negative A [7, - 2, 5] = [7, 5]" by (simp add: non_negative_def A_def)
  ultimately show ?thesis
    using timer_reports_recordings [of t "[7, - 2, 5]" A 3] ns
    by (intro exI [of _ t] exI [of _ A]) (simp add: Let_def dist_report_def int64_max_def)
qed

primrec gauge_polls :: "int list \<Rightarrow> gauge \<Rightarrow> measurement list list" where
  "gauge_polls [] g = []"
| "gauge_polls (now # ts) g = (let (g1, ms) = gauge_measure now g in ms # gauge_polls ts g1)"

lemma gauge_polls_nan: "g_value g = NaN \<Longrightarrow> gauge_polls ts g = replicate (length ts) []"
proof (induction ts arbitrary: g)
  case Nil
  then show ?case by simp
next
  case (Cons now ts)
  have "fst (gauge_measure now g) = (if gauge_has_expired now g then g\<lparr>g_value := NaN\<rparr> else g)"
    "snd (gauge_measure now g) = []"
    using Cons.prems by (simp_all add: gauge_measure_def Let_def)
  with Cons show ?case by (simp add: split_beta)
qed

text \<open>
  A gauge keeps reporting the last value set until its time to live has passed: every poll
  that is not later than the time to live after the set reports it, the first later poll
  reports it once more and clears it, and all polls after that report nothing; and the time to
  live is at least five seconds whatever the client asked for.
\<close>

theorem gauge_reports_until_expiry:
  assumes "absl_laws A" and "wf_id i" and "v \<noteq> NaN"
    and "\<forall>now \<in> set live. now - t \<le> get_ttl A ttl" and "late = [] \<or> get_ttl A ttl < hd late - t"
  shows "gauge_polls (live @ late) (gauge_set t v (new_gauge A t0 i ttl)) =
      replicate (length live) [measured (with_default_stat r_gauge i) v] @
      (case late of [] \<Rightarrow> [] | _ # ts \<Rightarrow> [measured (with_default_stat r_gauge i) v] # replicate (length ts) []) \<and>
    5000000000 \<le> get_ttl A ttl"
proof -
  have m: "in_int64 (5 * 1000000000)" by (simp add: in_int64_def int64_min_def int64_max_def)
  have five: "ab_to_ns A (ab_seconds A 5) = 5000000000"
    using assms(1) m unfolding absl_laws_def by fastforce
  have "\<not> ab_less A ttl (ab_seconds A 5) \<Longrightarrow> ab_to_ns A (ab_seconds A 5) \<le> ab_to_ns A ttl"
    using assms(1) by (simp add: absl_laws_def)
  then have ttl: "5000000000 \<le> get_ttl A ttl"
    by (simp add: get_ttl_def kMinTtlNanos_def five)
  define G where "G g \<longleftrightarrow> gauge_ok g \<and> mt_id g = i \<and> mt_updated g = t \<and> g_ttl g = get_ttl A ttl \<and> g_value g = v"
    for g
  have poll: "snd (gauge_measure now g) = [measured (with_default_stat r_gauge i) v]" if "G g" for now g
    using that assms(3) by (auto simp: G_def gauge_ok_def gauge_measure_def Let_def lazy_cached)
  have keep: "G (fst (gauge_measure now g))" if "G g" "now - t \<le> get_ttl A ttl" for now g
    using that gauge.ok_measure [of g now] by (auto simp: G_def gauge_measure_def gauge_has_expired_def Let_def)
  have clear: "g_value (fst (gauge_measure now g)) = NaN" if "G g" "get_ttl A ttl < now - t" for now g
    using that by (auto simp: G_def gauge_measure_def gauge_has_expired_def Let_def)
  have "gauge_polls (live @ late) g = replicate (length live) [measured (with_default_stat r_gauge i) v] @
      (case late of [] \<Rightarrow> [] | _ # ts \<Rightarrow> [measured (with_default_stat r_gauge i) v] # replicate (length ts) [])"
    if "G g" for g
    using that assms(4)
  proof (induction live arbitrary: g)
    case Nil
    then show ?case using assms(5) poll [OF Nil(1)] clear [OF Nil(1)]
      by (auto simp: split_beta gauge_polls_nan split: list.split)
  next
    case (Cons now live)
    with poll [OF Cons.prems(1)] keep [OF Cons.prems(1)] show ?case by (simp add: split_beta)
  qed
  moreover have "G (gauge_set t v (new_gauge A t0 i ttl))"
    using assms(2) by (simp add: G_def gauge_ok_def gauge_set_def new_gauge_def touch_def lazy_cached)
  ultimately show ?thesis using ttl by blast
qed

definition ns_durations :: "int absl_time" where
  \<comment> \<open>durations of whole nanoseconds, saturating: an instance for the examples\<close>
  "ns_durations = (let sat = (\<lambda>n. max int64_min (min int64_max n)) in
     \<lparr>ab_seconds = (\<lambda>s. s * 1000000000), ab_nanos = (\<lambda>n. n), ab_less = (<), ab_to_ns = sat, ab_div_ns = sat\<rparr>)"

lemma ns_durations_laws: "absl_laws ns_durations"
  by (auto simp: absl_laws_def ns_durations_def Let_def in_int64_def int64_min_def int64_max_def)

theorem gauge_reports_until_expiry_witness:
  "concat (gauge_polls ([3, 6000000003] @ [6000000004, 7000000000])
      (gauge_set 3 (dint 1) (new_gauge ns_durations 1 (id_of ''g'' []) 6000000000))) =
    replicate 3 (measured (with_default_stat r_gauge (id_of ''g'' [])) (dint 1))"
proof -
  have ttl: "get_ttl ns_durations 6000000000 = 6000000000"
    by (simp add: get_ttl_def ns_durations_def Let_def int64_min_def int64_max_def)
  have "dint 1 \<noteq> NaN" by (simp add: dint_exact)
  note * = gauge_reports_until_expiry [OF ns_durations_laws wf_id_plain this,
      of "[3, 6000000003]" 3 6000000000 "[6000000004, 7000000000]" 1 "''g''", THEN conjunct1]
  show ?thesis by (subst *) (simp_all add: ttl numeral_3_eq_3)
qed

end
