(* ===== verification/Registry.thy ===== *)
theory Registry
  imports Meters
begin

text \<open>
  The registry of meters (\<open>spectator/registry.h\<close>, \<open>spectator/registry.cc\<close>,
  \<open>spectator/config.h\<close>). Clients hold a meter through a \<open>shared_ptr\<close>, so that a meter taken
  out of the registry lives on: a \<open>meter_map\<close> is a heap of the meters of one kind ever created
  and a table from identities to references into it. The order in which a hash table is
  walked is unspecified in the code; here it is the order of insertion. The readings of the
  clock within one call are taken to be equal; every call is one step (the maps are guarded
  by a mutex each).
\<close>

section \<open>Maps of meters\<close>

record 'm meter_map =
  mm_objs :: "'m list"
  mm_table :: "(meter_id \<times> nat) list"

definition empty_map :: "'m meter_map" where
  "empty_map = \<lparr>mm_objs = [], mm_table = []\<rparr>"

definition mm_size :: "'m meter_map \<Rightarrow> nat" where
  "mm_size s = length (mm_table s)"

definition mm_contains :: "meter_id \<Rightarrow> 'm meter_map \<Rightarrow> bool" where
  "mm_contains i s \<longleftrightarrow> i \<in> set (keys (mm_table s))"

definition mm_find :: "'m meter_map \<Rightarrow> meter_id \<Rightarrow> nat option" where
  "mm_find s = map_of (mm_table s)"

definition mm_alloc :: "'m \<Rightarrow> 'm meter_map \<Rightarrow> nat \<times> 'm meter_map" where
  \<comment> \<open>\<open>std::make_shared\<close>, not registered\<close>
  "mm_alloc m s = (length (mm_objs s), s\<lparr>mm_objs := mm_objs s @ [m]\<rparr>)"

definition mm_insert :: "'x meter_scheme \<Rightarrow> 'x meter_scheme meter_map \<Rightarrow> nat \<times> 'x meter_scheme meter_map" where
  \<comment> \<open>\<open>emplace\<close>: an existing entry stays and the new object is dropped\<close>
  "mm_insert m s = (case map_of (mm_table s) (mt_id m) of
     Some r \<Rightarrow> (r, s)
   | None \<Rightarrow> (let (r, s1) = mm_alloc m s in (r, s1\<lparr>mm_table := mm_table s1 @ [(mt_id m, r)]\<rparr>)))"

definition mm_update :: "nat \<Rightarrow> ('m \<Rightarrow> 'm) \<Rightarrow> 'm meter_map \<Rightarrow> 'm meter_map" where
  \<comment> \<open>an operation on the meter behind a handle\<close>
  "mm_update r f s = s\<lparr>mm_objs := (mm_objs s)[r := f (mm_objs s ! r)]\<rparr>"

primrec measure_refs ::
  "('m \<Rightarrow> bool) \<Rightarrow> ('m \<Rightarrow> ('m \<times> measurement list) option) \<Rightarrow> nat list \<Rightarrow> 'm list \<Rightarrow>
   ('m list \<times> measurement list) option" where
  "measure_refs expired meas [] os = Some (os, [])"
| "measure_refs expired meas (r # rs) os =
     (if expired (os ! r) then measure_refs expired meas rs os
      else case meas (os ! r) of
        None \<Rightarrow> None
      | Some (m, ms) \<Rightarrow> (case measure_refs expired meas rs (os[r := m]) of
          None \<Rightarrow> None
        | Some (os2, ms2) \<Rightarrow> Some (os2, ms @ ms2)))"

definition mm_measure :: "('m \<Rightarrow> bool) \<Rightarrow> ('m \<Rightarrow> ('m \<times> measurement list) option) \<Rightarrow> 'm meter_map \<Rightarrow>
    ('m meter_map \<times> measurement list) option" where
  "mm_measure expired meas s =
     (case measure_refs expired meas (map snd (mm_table s)) (mm_objs s) of
        None \<Rightarrow> None | Some (os, ms) \<Rightarrow> Some (s\<lparr>mm_objs := os\<rparr>, ms))"

primrec sweep :: "('m \<Rightarrow> bool) \<Rightarrow> 'm list \<Rightarrow> (meter_id \<times> nat) list \<Rightarrow> (meter_id \<times> nat) list \<times> nat \<times> nat" where
  \<comment> \<open>the loop of \<open>remove_expired\<close>: what is left, how many expired, how many in total\<close>
  "sweep expired os [] = ([], 0, 0)"
| "sweep expired os (e # es) = (let (kept, n, tot) = sweep expired os es in
     if expired (os ! snd e) then (kept, n + 1, tot + 1) else (e # kept, n, tot + 1))"

definition mm_remove_expired :: "('m \<Rightarrow> bool) \<Rightarrow> 'm meter_map \<Rightarrow> 'm meter_map \<times> nat \<times> nat" where
  "mm_remove_expired expired s = (let (kept, n, tot) = sweep expired (mm_objs s) (mm_table s)
     in (s\<lparr>mm_table := kept\<rparr>, n, tot))"

definition mm_remove_one :: "meter_id \<Rightarrow> 'm meter_map \<Rightarrow> bool \<times> 'm meter_map" where
  "mm_remove_one i s = (if mm_contains i s
     then (True, s\<lparr>mm_table := filter (\<lambda>e. fst e \<noteq> i) (mm_table s)\<rparr>) else (False, s))"

definition mm_remove_all :: "'m meter_map \<Rightarrow> 'm meter_map" where
  \<comment> \<open>the loop increments an iterator whose element it has just erased; the model takes that
    to reach the next element\<close>
  "mm_remove_all s = s\<lparr>mm_table := []\<rparr>"

definition mm_get_ids :: "'m meter_map \<Rightarrow> meter_id list" where
  "mm_get_ids s = map fst (mm_table s)"

definition mm_get_values :: "'m meter_map \<Rightarrow> 'm list" where
  "mm_get_values s = map (\<lambda>e. mm_objs s ! snd e) (mm_table s)"

section \<open>All meters\<close>

definition is_meter_expired :: "int \<Rightarrow> int \<Rightarrow> 'x meter_scheme \<Rightarrow> bool" where
  "is_meter_expired now ttl m \<longleftrightarrow> ttl < now - mt_updated m"

definition age_gauge_expired :: "int \<Rightarrow> int \<Rightarrow> age_gauge \<Rightarrow> bool" where
  "age_gauge_expired now ttl m \<longleftrightarrow> False"

definition gauge_expired :: "int \<Rightarrow> int \<Rightarrow> gauge \<Rightarrow> bool" where
  "gauge_expired now ttl g \<longleftrightarrow> gauge_has_expired now g"

record all_meters =
  am_age_gauges :: "age_gauge meter_map"
  am_counters :: "counter meter_map"
  am_dist_sums :: "dist_summary meter_map"
  am_gauges :: "gauge meter_map"
  am_max_gauges :: "max_gauge meter_map"
  am_mono_counters :: "mono_counter meter_map"
  am_mono_counters_uint :: "mono_uint meter_map"
  am_mono_sampled :: "mono_sampled meter_map"
  am_timers :: "timer meter_map"

definition no_meters :: all_meters where
  "no_meters = \<lparr>am_age_gauges = empty_map, am_counters = empty_map, am_dist_sums = empty_map,
     am_gauges = empty_map, am_max_gauges = empty_map, am_mono_counters = empty_map,
     am_mono_counters_uint = empty_map, am_mono_sampled = empty_map, am_timers = empty_map\<rparr>"

definition all_size :: "all_meters \<Rightarrow> nat" where
  "all_size a = mm_size (am_age_gauges a) + mm_size (am_counters a) + mm_size (am_dist_sums a) +
     mm_size (am_gauges a) + mm_size (am_max_gauges a) + mm_size (am_mono_counters a) +
     mm_size (am_mono_counters_uint a) + mm_size (am_timers a)"

definition all_measure :: "int \<Rightarrow> int \<Rightarrow> all_meters \<Rightarrow> (all_meters \<times> measurement list) option" where
  \<comment> \<open>\<open>None\<close>: an age gauge computes an age outside \<open>int64_t\<close>\<close>
  "all_measure now ttl a =
     (case mm_measure (age_gauge_expired now ttl) (age_gauge_measure now) (am_age_gauges a) of
        None \<Rightarrow> None
      | Some (ag, m1) \<Rightarrow>
        (case (mm_measure (is_meter_expired now ttl) (Some \<circ> counter_measure) (am_counters a),
               mm_measure (is_meter_expired now ttl) (Some \<circ> dist_summary_measure) (am_dist_sums a),
               mm_measure (gauge_expired now ttl) (Some \<circ> gauge_measure now) (am_gauges a),
               mm_measure (is_meter_expired now ttl) (Some \<circ> max_gauge_measure) (am_max_gauges a),
               mm_measure (is_meter_expired now ttl) (Some \<circ> mono_measure) (am_mono_counters a),
               mm_measure (is_meter_expired now ttl) (Some \<circ> mono_uint_measure) (am_mono_counters_uint a),
               mm_measure (is_meter_expired now ttl) (Some \<circ> timer_measure) (am_timers a)) of
           (Some (cs, m2), Some (ds, m3), Some (gs, m4), Some (mg, m5), Some (mc, m6), Some (mu, m7), Some (ts, m8)) \<Rightarrow>
             Some (a\<lparr>am_age_gauges := ag, am_counters := cs, am_dist_sums := ds, am_gauges := gs,
                     am_max_gauges := mg, am_mono_counters := mc, am_mono_counters_uint := mu, am_timers := ts\<rparr>,
                   m1 @ m2 @ m3 @ m4 @ m5 @ m6 @ m7 @ m8)
         | _ \<Rightarrow> None))"

definition all_remove_expired :: "int \<Rightarrow> int \<Rightarrow> all_meters \<Rightarrow> all_meters \<times> nat \<times> nat" where
  "all_remove_expired now ttl a =
     (let n0 = mm_size (am_age_gauges a);
          (cs, e1, n1) = mm_remove_expired (is_meter_expired now ttl) (am_counters a);
          (ds, e2, n2) = mm_remove_expired (is_meter_expired now ttl) (am_dist_sums a);
          (gs, e3, n3) = mm_remove_expired (gauge_expired now ttl) (am_gauges a);
          (mg, e4, n4) = mm_remove_expired (is_meter_expired now ttl) (am_max_gauges a);
          (mc, e5, n5) = mm_remove_expired (is_meter_expired now ttl) (am_mono_counters a);
          (mu, e6, n6) = mm_remove_expired (is_meter_expired now ttl) (am_mono_counters_uint a);
          (ts, e7, n7) = mm_remove_expired (is_meter_expired now ttl) (am_timers a)
      in (a\<lparr>am_counters := cs, am_dist_sums := ds, am_gauges := gs, am_max_gauges := mg,
            am_mono_counters := mc, am_mono_counters_uint := mu, am_timers := ts\<rparr>,
          e1 + e2 + e3 + e4 + e5 + e6 + e7, n0 + n1 + n2 + n3 + n4 + n5 + n6 + n7))"

section \<open>The registry\<close>

record 'd config =
  cf_common_tags :: "(string \<times> string) list"
  cf_read_timeout :: 'd
  cf_connect_timeout :: 'd
  cf_batch_size :: int
  cf_frequency :: 'd
  cf_expiration_frequency :: 'd
  cf_meter_ttl :: 'd
  cf_age_gauge_limit :: nat
  cf_uri :: string
  cf_external_uri :: string
  cf_metatron_dir :: string
  cf_process_name :: string
  cf_external_enabled :: bool
  cf_status_metrics_enabled :: bool
  cf_verbose_http :: bool

record 'd registry =
  rg_config :: "'d config"
  rg_meter_ttl :: int
  rg_first_warn :: bool
  rg_meters :: all_meters
  rg_registry_size :: nat

definition new_registry :: "'d absl_time \<Rightarrow> int \<Rightarrow> 'd config \<Rightarrow> 'd registry" where
  \<comment> \<open>all members but the last, the publisher, which \<open>construct_registry\<close> adds with the counters it registers\<close>
  "new_registry A now cfg =
     (let ttl = ab_to_ns A (cf_meter_ttl cfg);
          i = id_of ''spectator.registrySize'' (intern_tags [(''nf.process'', cf_process_name cfg)]);
          (r, ds) = mm_insert (new_dist_summary now i) (am_dist_sums no_meters)
      in \<lparr>rg_config = cfg, rg_meter_ttl = (if ttl = 0 then 15 * 60 * 1000 * 1000 * 1000 else ttl),
          rg_first_warn = True, rg_meters = no_meters\<lparr>am_dist_sums := ds\<rparr>, rg_registry_size = r\<rparr>)"

definition get_age_gauge :: "int \<Rightarrow> meter_id \<Rightarrow> 'd registry \<Rightarrow> nat \<times> 'd registry" where
  "get_age_gauge now i R =
     (let a = rg_meters R; s = am_age_gauges a
      in case map_of (mm_table s) i of
           Some r \<Rightarrow> (r, R)
         | None \<Rightarrow>
             if mm_size s < cf_age_gauge_limit (rg_config R)
             then let (r, s1) = mm_insert (new_age_gauge now i) s
                  in (r, R\<lparr>rg_meters := a\<lparr>am_age_gauges := s1\<rparr>\<rparr>)
             else let (r, s1) = mm_alloc (new_age_gauge now i) s
                  in (r, R\<lparr>rg_meters := a\<lparr>am_age_gauges := s1\<rparr>, rg_first_warn := False\<rparr>))"

definition get_counter :: "int \<Rightarrow> meter_id \<Rightarrow> 'd registry \<Rightarrow> nat \<times> 'd registry" where
  "get_counter now i R = (let (r, s) = mm_insert (new_counter now i) (am_counters (rg_meters R))
     in (r, R\<lparr>rg_meters := (rg_meters R)\<lparr>am_counters := s\<rparr>\<rparr>))"

definition get_dist_summary :: "int \<Rightarrow> meter_id \<Rightarrow> 'd registry \<Rightarrow> nat \<times> 'd registry" where
  "get_dist_summary now i R = (let (r, s) = mm_insert (new_dist_summary now i) (am_dist_sums (rg_meters R))
     in (r, R\<lparr>rg_meters := (rg_meters R)\<lparr>am_dist_sums := s\<rparr>\<rparr>))"

definition get_gauge :: "'d absl_time \<Rightarrow> int \<Rightarrow> meter_id \<Rightarrow> 'd registry \<Rightarrow> nat \<times> 'd registry" where
  "get_gauge A now i R =
     (let (r, s) = mm_insert (new_gauge A now i (cf_meter_ttl (rg_config R))) (am_gauges (rg_meters R))
      in (r, R\<lparr>rg_meters := (rg_meters R)\<lparr>am_gauges := s\<rparr>\<rparr>))"

definition get_gauge_ttl :: "'d absl_time \<Rightarrow> int \<Rightarrow> meter_id \<Rightarrow> 'd \<Rightarrow> 'd registry \<Rightarrow> nat \<times> 'd registry" where
  "get_gauge_ttl A now i ttl R =
     (let (r, s) = mm_insert (new_gauge A now i ttl) (am_gauges (rg_meters R));
          s1 = mm_update r (gauge_set_ttl A ttl) s
      in (r, R\<lparr>rg_meters := (rg_meters R)\<lparr>am_gauges := s1\<rparr>\<rparr>))"

definition get_max_gauge :: "int \<Rightarrow> meter_id \<Rightarrow> 'd registry \<Rightarrow> nat \<times> 'd registry" where
  "get_max_gauge now i R = (let (r, s) = mm_insert (new_max_gauge now i) (am_max_gauges (rg_meters R))
     in (r, R\<lparr>rg_meters := (rg_meters R)\<lparr>am_max_gauges := s\<rparr>\<rparr>))"

definition get_mono_counter :: "int \<Rightarrow> meter_id \<Rightarrow> 'd registry \<Rightarrow> nat \<times> 'd registry" where
  "get_mono_counter now i R = (let (r, s) = mm_insert (new_mono_counter now i) (am_mono_counters (rg_meters R))
     in (r, R\<lparr>rg_meters := (rg_meters R)\<lparr>am_mono_counters := s\<rparr>\<rparr>))"

definition get_mono_uint :: "int \<Rightarrow> meter_id \<Rightarrow> 'd registry \<Rightarrow> nat \<times> 'd registry" where
  "get_mono_uint now i R = (let (r, s) = mm_insert (new_mono_uint now i) (am_mono_counters_uint (rg_meters R))
     in (r, R\<lparr>rg_meters := (rg_meters R)\<lparr>am_mono_counters_uint := s\<rparr>\<rparr>))"

definition get_mono_sampled :: "int \<Rightarrow> meter_id \<Rightarrow> 'd registry \<Rightarrow> nat \<times> 'd registry" where
  "get_mono_sampled now i R = (let (r, s) = mm_insert (new_mono_sampled now i) (am_mono_sampled (rg_meters R))
     in (r, R\<lparr>rg_meters := (rg_meters R)\<lparr>am_mono_sampled := s\<rparr>\<rparr>))"

definition get_timer :: "int \<Rightarrow> meter_id \<Rightarrow> 'd registry \<Rightarrow> nat \<times> 'd registry" where
  "get_timer now i R = (let (r, s) = mm_insert (new_timer now i) (am_timers (rg_meters R))
     in (r, R\<lparr>rg_meters := (rg_meters R)\<lparr>am_timers := s\<rparr>\<rparr>))"

definition registry_measurements :: "int \<Rightarrow> 'd registry \<Rightarrow> ('d registry \<times> measurement list) option" where
  "registry_measurements now R = (case all_measure now (rg_meter_ttl R) (rg_meters R) of
     None \<Rightarrow> None
   | Some (a, res) \<Rightarrow>
       let a1 = (if cf_status_metrics_enabled (rg_config R)
                 then a\<lparr>am_dist_sums := mm_update (rg_registry_size R)
                          (dist_summary_record now (dint (int (length res)))) (am_dist_sums a)\<rparr>
                 else a)
       in Some (R\<lparr>rg_meters := a1\<rparr>, res))"

definition on_measurements :: "(measurement list \<Rightarrow> 'w \<Rightarrow> 'w) \<Rightarrow> (measurement list \<Rightarrow> 'w \<Rightarrow> 'w) list \<Rightarrow> (measurement list \<Rightarrow> 'w \<Rightarrow> 'w) list" where
  \<comment> \<open>\<open>OnMeasurements\<close>: a callback, as what it does to the state of its owner\<close>
  "on_measurements fn ms_callbacks = ms_callbacks @ [fn]"

definition measurements_with_callbacks ::
  "int \<Rightarrow> (measurement list \<Rightarrow> 'w \<Rightarrow> 'w) list \<Rightarrow> 'd registry \<Rightarrow> 'w \<Rightarrow> ('d registry \<times> measurement list \<times> 'w) option" where
  \<comment> \<open>\<open>Measurements\<close> with the callbacks it calls, in the order in which they were added\<close>
  "measurements_with_callbacks now ms_callbacks R w =
     map_option (\<lambda>(R1, res). (R1, res, fold (\<lambda>callback. callback res) ms_callbacks w)) (registry_measurements now R)"

definition update_common_tag :: "string \<Rightarrow> string \<Rightarrow> 'd registry \<Rightarrow> 'd registry" where
  "update_common_tag k v R =
     R\<lparr>rg_config := (rg_config R)\<lparr>cf_common_tags := tag_put k v (cf_common_tags (rg_config R))\<rparr>\<rparr>"

definition erase_common_tag :: "string \<Rightarrow> 'd registry \<Rightarrow> 'd registry" where
  "erase_common_tag k R = R\<lparr>rg_config := (rg_config R)\<lparr>cf_common_tags :=
     filter (\<lambda>t. fst t \<noteq> k) (cf_common_tags (rg_config R))\<rparr>\<rparr>"

definition delete_meter :: "string \<Rightarrow> meter_id \<Rightarrow> 'd registry \<Rightarrow> bool \<times> 'd registry" where
  "delete_meter type i R =
     (if type = ''A''
      then let (b, s) = mm_remove_one i (am_age_gauges (rg_meters R))
           in (b, R\<lparr>rg_meters := (rg_meters R)\<lparr>am_age_gauges := s\<rparr>\<rparr>)
      else if type = ''g''
      then let (b, s) = mm_remove_one i (am_gauges (rg_meters R))
           in (b, R\<lparr>rg_meters := (rg_meters R)\<lparr>am_gauges := s\<rparr>\<rparr>)
      else (False, R))"

definition delete_all_meters :: "string \<Rightarrow> 'd registry \<Rightarrow> 'd registry" where
  "delete_all_meters type R =
     (if type = ''A''
      then R\<lparr>rg_meters := (rg_meters R)\<lparr>am_age_gauges := mm_remove_all (am_age_gauges (rg_meters R))\<rparr>\<rparr>
      else if type = ''g''
      then R\<lparr>rg_meters := (rg_meters R)\<lparr>am_gauges := mm_remove_all (am_gauges (rg_meters R))\<rparr>\<rparr>
      else R)"

definition remove_expired_meters :: "int \<Rightarrow> 'd registry \<Rightarrow> 'd registry" where
  "remove_expired_meters now R =
     R\<lparr>rg_meters := fst (all_remove_expired now (rg_meter_ttl R) (rg_meters R))\<rparr>"

section \<open>The interface of a store of meters\<close>

locale meter_store =
  fixes put :: "'m \<Rightarrow> 's \<Rightarrow> 'r \<times> 's"
    and look :: "'s \<Rightarrow> meter_id \<Rightarrow> 'r option"
    and key :: "'m \<Rightarrow> meter_id"
    and ok :: "'s \<Rightarrow> bool"
    and fit :: "'m \<Rightarrow> bool"
  assumes ok_put: "ok s \<Longrightarrow> fit m \<Longrightarrow> ok (snd (put m s))"
    and look_put: "ok s \<Longrightarrow> look (snd (put m s)) i = (if i = key m then Some (fst (put m s)) else look s i)"
    and put_hit: "look s (key m) = Some r \<Longrightarrow> put m s = (r, s)"
    and look_inj: "ok s \<Longrightarrow> look s i = Some r \<Longrightarrow> look s j = Some r \<Longrightarrow> i = j"
begin

lemma look_put_keeps: "ok s \<Longrightarrow> look s i = Some r \<Longrightarrow> look (snd (put m s)) i = Some r"
  using put_hit [of s m] by (cases "i = key m") (simp_all add: look_put)

lemma put_again: "ok s \<Longrightarrow> key m' = key m \<Longrightarrow> put m' (snd (put m s)) = put m s"
  using put_hit [of "snd (put m s)" m' "fst (put m s)"] by (simp add: look_put)

end

section \<open>Meter maps provide it\<close>

definition mm_inv :: "('x meter_scheme \<Rightarrow> bool) \<Rightarrow> 'x meter_scheme meter_map \<Rightarrow> bool" where
  "mm_inv fit s \<longleftrightarrow> distinct (map fst (mm_table s)) \<and> distinct (map snd (mm_table s)) \<and>
     (\<forall>e \<in> set (mm_table s). snd e < length (mm_objs s) \<and> mt_id (mm_objs s ! snd e) = fst e) \<and>
     (\<forall>m \<in> set (mm_objs s). fit m)"

lemma mm_inv_empty [spd_inv]: "mm_inv fit empty_map"
  by (simp add: mm_inv_def empty_map_def)

lemma mm_inv_alloc [spd_inv]: "mm_inv fit s \<Longrightarrow> fit m \<Longrightarrow> mm_inv fit (snd (mm_alloc m s))"
  by (fastforce simp: mm_inv_def mm_alloc_def nth_append)

lemma mm_inv_insert [spd_inv]: "mm_inv fit s \<Longrightarrow> fit m \<Longrightarrow> mm_inv fit (snd (mm_insert m s))"
  by (fastforce simp: mm_inv_def mm_insert_def mm_alloc_def nth_append map_of_eq_None_iff
      split: option.split)

lemma mm_inv_update [spd_inv]:
  assumes "mm_inv fit s" and "\<And>m. mt_id (f m) = mt_id m" and "\<And>m. fit m \<Longrightarrow> fit (f m)"
  shows "mm_inv fit (mm_update r f s)"
proof (cases "r < length (mm_objs s)")
  case True
  then have "mm_objs s ! r \<in> set (mm_objs s)" by simp
  then have "fit (f (mm_objs s ! r))" using assms(1,3) by (simp add: mm_inv_def)
  moreover have "mt_id ((mm_objs s)[r := f (mm_objs s ! r)] ! k) = mt_id (mm_objs s ! k)"
    if "k < length (mm_objs s)" for k
    using that assms(2) by (cases "k = r") simp_all
  ultimately show ?thesis
    using assms(1) set_update_subset_insert [of "mm_objs s" r "f (mm_objs s ! r)"]
    unfolding mm_inv_def mm_update_def by auto
next
  case False
  then have "mm_update r f s = s" by (simp add: mm_update_def list_update_beyond)
  then show ?thesis using assms(1) by simp
qed

interpretation meters: meter_store mm_insert mm_find mt_id "mm_inv fit" fit for fit
proof unfold_locales
  fix fit :: "'a meter_scheme \<Rightarrow> bool" and s m i j r
  show "mm_inv fit s \<Longrightarrow> fit m \<Longrightarrow> mm_inv fit (snd (mm_insert m s))" by (rule mm_inv_insert)
  show "mm_inv fit s \<Longrightarrow> mm_find (snd (mm_insert m s)) i =
      (if i = mt_id m then Some (fst (mm_insert m s)) else mm_find s i)"
    by (auto simp: mm_find_def mm_insert_def mm_alloc_def map_add_def split: option.split)
  show "mm_find s (mt_id m) = Some r \<Longrightarrow> mm_insert m s = (r, s)"
    by (simp add: mm_find_def mm_insert_def)
  show "i = j" if inv: "mm_inv fit s" and l: "mm_find s i = Some r" "mm_find s j = Some r"
  proof -
    have "(i, r) \<in> set (mm_table s)" "(j, r) \<in> set (mm_table s)"
      using l by (auto simp: mm_find_def dest: map_of_SomeD)
    then have "fst (i, r) = mt_id (mm_objs s ! r)" "fst (j, r) = mt_id (mm_objs s ! r)"
      using inv unfolding mm_inv_def by fastforce+
    then show ?thesis by simp
  qed
qed

section \<open>Measuring and sweeping one map\<close>

definition live_reports :: "('m \<Rightarrow> bool) \<Rightarrow> ('m \<Rightarrow> 'm \<times> measurement list) \<Rightarrow> 'm meter_map \<Rightarrow> measurement list" where
  \<comment> \<open>the reference: every registered meter that has not expired reports once\<close>
  "live_reports expired f s =
     concat (map (\<lambda>m. if expired m then [] else snd (f m)) (mm_get_values s))"

lemma measure_refs_spec:
  assumes "distinct rs" and "\<forall>r \<in> set rs. r < length os"
    and "\<forall>r \<in> set rs. \<not> expired (os ! r) \<longrightarrow> g (os ! r) = Some (f (os ! r))"
  shows "measure_refs expired g rs os =
    Some (map (\<lambda>k. if k \<in> set rs \<and> \<not> expired (os ! k) then fst (f (os ! k)) else os ! k) [0..<length os],
      concat (map (\<lambda>r. if expired (os ! r) then [] else snd (f (os ! r))) rs))"
  using assms
proof (induction rs arbitrary: os)
  case Nil
  then show ?case by (simp add: map_nth)
next
  case (Cons r rs)
  show ?case
  proof (cases "expired (os ! r)")
    case True
    with Cons.IH [of os] Cons.prems show ?thesis by (auto intro!: map_cong)
  next
    case False
    let ?os = "os[r := fst (f (os ! r))]"
    have r: "r < length os" "r \<notin> set rs" using Cons.prems(1,2) by simp_all
    have same: "?os ! k = os ! k" if "k \<in> set rs" for k
      using that r(2) by (cases "k = r") auto
    have IH: "measure_refs expired g rs ?os =
      Some (map (\<lambda>k. if k \<in> set rs \<and> \<not> expired (?os ! k) then fst (f (?os ! k)) else ?os ! k) [0..<length ?os],
        concat (map (\<lambda>r. if expired (?os ! r) then [] else snd (f (?os ! r))) rs))"
      by (rule Cons.IH) (use Cons.prems same in simp_all)
    have e1: "map (\<lambda>k. if k \<in> set rs \<and> \<not> expired (?os ! k) then fst (f (?os ! k)) else ?os ! k) [0..<length ?os]
        = map (\<lambda>k. if k \<in> set (r # rs) \<and> \<not> expired (os ! k) then fst (f (os ! k)) else os ! k) [0..<length os]"
      using r same False by (intro nth_equalityI) (auto simp: nth_list_update)
    have e2: "map (\<lambda>r. if expired (?os ! r) then [] else snd (f (?os ! r))) rs
        = map (\<lambda>r. if expired (os ! r) then [] else snd (f (os ! r))) rs"
      using same by simp
    have "g (os ! r) = Some (f (os ! r))" using Cons.prems(3) False by simp
    with False have "measure_refs expired g (r # rs) os = (case measure_refs expired g rs ?os of
        None \<Rightarrow> None | Some (os2, ms2) \<Rightarrow> Some (os2, snd (f (os ! r)) @ ms2))"
      by (simp add: split_beta)
    also note IH
    finally show ?thesis unfolding e1 e2 using False by simp
  qed
qed

lemma mm_measure_spec:
  fixes s :: "'x meter_scheme meter_map"
  assumes "mm_inv fit s" and "\<forall>m \<in> set (mm_get_values s). \<not> expired m \<longrightarrow> g m = Some (f m)"
  shows "\<exists>s'. mm_measure expired g s = Some (s', live_reports expired f s) \<and> mm_table s' = mm_table s \<and>
    mm_objs s' = map (\<lambda>k. let m = mm_objs s ! k in
      if k \<in> snd ` set (mm_table s) \<and> \<not> expired m then fst (f m) else m) [0..<length (mm_objs s)]"
proof -
  have "measure_refs expired g (map snd (mm_table s)) (mm_objs s) =
    Some (map (\<lambda>k. if k \<in> set (map snd (mm_table s)) \<and> \<not> expired (mm_objs s ! k)
        then fst (f (mm_objs s ! k)) else mm_objs s ! k) [0..<length (mm_objs s)],
      concat (map (\<lambda>r. if expired (mm_objs s ! r) then [] else snd (f (mm_objs s ! r))) (map snd (mm_table s))))"
    by (rule measure_refs_spec)
      (use assms in \<open>auto simp: mm_inv_def mm_get_values_def\<close>)
  then show ?thesis
    by (simp add: mm_measure_def live_reports_def mm_get_values_def comp_def Let_def)
qed

lemma mm_inv_measure:
  assumes inv: "mm_inv fit s" and s': "mm_table s' = mm_table s"
    "mm_objs s' = map (\<lambda>k. let m = mm_objs s ! k in
      if k \<in> snd ` set (mm_table s) \<and> \<not> expired m then fst (f m) else m) [0..<length (mm_objs s)]"
    and f: "\<And>m. mt_id (fst (f m)) = mt_id m" "\<And>m. fit m \<Longrightarrow> fit (fst (f m))"
  shows "mm_inv fit s'"
  using assms by (auto simp: mm_inv_def Let_def all_set_conv_all_nth)

lemma sweep_spec: "sweep expired os t =
   (filter (\<lambda>e. \<not> expired (os ! snd e)) t, length (filter (\<lambda>e. expired (os ! snd e)) t), length t)"
  by (induction t) simp_all

lemma mm_remove_expired_spec: "mm_remove_expired expired s =
   (s\<lparr>mm_table := filter (\<lambda>e. \<not> expired (mm_objs s ! snd e)) (mm_table s)\<rparr>,
    length (filter expired (mm_get_values s)), mm_size s)"
  by (simp add: mm_remove_expired_def sweep_spec mm_get_values_def mm_size_def filter_map comp_def)

lemma mm_inv_filter [spd_inv]: "mm_inv fit s \<Longrightarrow> mm_inv fit (s\<lparr>mm_table := filter P (mm_table s)\<rparr>)"
  by (auto simp: mm_inv_def distinct_map_filter)

lemma mm_inv_remove_one [spd_inv]: "mm_inv fit s \<Longrightarrow> mm_inv fit (snd (mm_remove_one i s))"
  by (simp add: mm_remove_one_def mm_inv_filter)

lemma mm_inv_remove_all [spd_inv]: "mm_inv fit s \<Longrightarrow> mm_inv fit (mm_remove_all s)"
  by (simp add: mm_inv_def mm_remove_all_def)

section \<open>The invariant of the registry\<close>

definition all_inv :: "all_meters \<Rightarrow> bool" where
  "all_inv a \<longleftrightarrow> mm_inv age_gauge_ok (am_age_gauges a) \<and> mm_inv counter_ok (am_counters a) \<and>
     mm_inv dist_summary_ok (am_dist_sums a) \<and> mm_inv gauge_ok (am_gauges a) \<and>
     mm_inv max_gauge_ok (am_max_gauges a) \<and> mm_inv mono_ok (am_mono_counters a) \<and>
     mm_inv mono_uint_ok (am_mono_counters_uint a) \<and> mm_inv mono_sampled_ok (am_mono_sampled a) \<and>
     mm_inv timer_ok (am_timers a)"

definition registry_inv :: "'d registry \<Rightarrow> bool" where
  "registry_inv R \<longleftrightarrow> all_inv (rg_meters R) \<and>
     mm_size (am_age_gauges (rg_meters R)) \<le> cf_age_gauge_limit (rg_config R)"

lemma fresh_ok:
  assumes "wf_id i"
  shows "counter_ok (new_counter now i)" "gauge_ok (new_gauge A now i ttl)" "max_gauge_ok (new_max_gauge now i)"
    "age_gauge_ok (new_age_gauge now i)" "mono_ok (new_mono_counter now i)" "mono_uint_ok (new_mono_uint now i)"
    "mono_sampled_ok (new_mono_sampled now i)" "timer_ok (new_timer now i)" "dist_summary_ok (new_dist_summary now i)"
  using assms by (simp_all add: meter_ok_defs new_counter_def new_gauge_def new_max_gauge_def new_age_gauge_def
      new_mono_counter_def new_mono_uint_def new_mono_sampled_def new_timer_def new_dist_summary_def lazy_cached)

lemma fresh_id [simp]:
  "mt_id (new_counter now i) = i" "mt_id (new_gauge A now i ttl) = i" "mt_id (new_max_gauge now i) = i"
  "mt_id (new_age_gauge now i) = i" "mt_id (new_mono_counter now i) = i" "mt_id (new_mono_uint now i) = i"
  "mt_id (new_mono_sampled now i) = i" "mt_id (new_timer now i) = i" "mt_id (new_dist_summary now i) = i"
  by (simp_all add: new_counter_def new_gauge_def new_max_gauge_def new_age_gauge_def
      new_mono_counter_def new_mono_uint_def new_mono_sampled_def new_timer_def new_dist_summary_def)

lemma age_gauge_measure_ok:
  "age_gauge_measure now g = Some (g', ms) \<Longrightarrow>
   mt_id g' = mt_id g \<and> mt_updated g' = mt_updated g \<and> (age_gauge_ok g \<longrightarrow> age_gauge_ok g')"
  by (auto simp: age_gauge_measure_def age_gauge_ok_def lazy_cached Let_def split: option.splits)

lemma registry_inv_get [spd_inv]:
  assumes "registry_inv R" and "wf_id i"
  shows "registry_inv (snd (get_counter now i R))" "registry_inv (snd (get_dist_summary now i R))"
    "registry_inv (snd (get_gauge A now i R))" "registry_inv (snd (get_max_gauge now i R))"
    "registry_inv (snd (get_mono_counter now i R))" "registry_inv (snd (get_mono_uint now i R))"
    "registry_inv (snd (get_mono_sampled now i R))" "registry_inv (snd (get_timer now i R))"
  using assms
  by (simp_all add: fresh_ok registry_inv_def all_inv_def get_counter_def get_dist_summary_def get_gauge_def
      get_max_gauge_def get_mono_counter_def get_mono_uint_def get_mono_sampled_def get_timer_def
      mm_inv_insert split_beta)

lemma gauge_set_ttl_ok: "mt_id (gauge_set_ttl A ttl g) = mt_id g" "gauge_ok g \<Longrightarrow> gauge_ok (gauge_set_ttl A ttl g)"
  by (simp_all add: gauge_set_ttl_def gauge_ok_def)

lemma registry_inv_get_gauge_ttl [spd_inv]:
  "registry_inv R \<Longrightarrow> wf_id i \<Longrightarrow> registry_inv (snd (get_gauge_ttl A now i ttl R))"
  using fresh_ok(2) [of i A now ttl]
  by (simp add: registry_inv_def all_inv_def get_gauge_ttl_def mm_inv_insert mm_inv_update
      gauge_set_ttl_ok split_beta)

lemma mm_size_insert: "mm_size (snd (mm_insert m s)) = (if mm_find s (mt_id m) = None then Suc (mm_size s) else mm_size s)"
  by (auto simp: mm_size_def mm_insert_def mm_find_def mm_alloc_def split: option.split)

lemma registry_inv_get_age_gauge [spd_inv]:
  assumes "registry_inv R" and "wf_id i"
  shows "registry_inv (snd (get_age_gauge now i R))"
proof -
  let ?s = "am_age_gauges (rg_meters R)" and ?m = "new_age_gauge now i"
  have s: "mm_inv age_gauge_ok ?s" using assms(1) by (simp add: registry_inv_def all_inv_def)
  have "mm_inv age_gauge_ok (snd (mm_insert ?m ?s))" "mm_inv age_gauge_ok (snd (mm_alloc ?m ?s))"
    using mm_inv_insert [OF s] mm_inv_alloc [OF s] fresh_ok(4) [OF assms(2)] by simp_all
  moreover have "mm_size (snd (mm_alloc ?m ?s)) = mm_size ?s" by (simp add: mm_alloc_def mm_size_def)
  ultimately show ?thesis
    using assms(1) mm_size_insert [of ?m ?s]
    by (auto simp: registry_inv_def all_inv_def get_age_gauge_def Let_def split_beta split: option.split)
qed

lemma registry_inv_remove_expired [spd_inv]: "registry_inv R \<Longrightarrow> registry_inv (remove_expired_meters now R)"
  by (simp add: registry_inv_def all_inv_def remove_expired_meters_def all_remove_expired_def
      mm_remove_expired_spec mm_inv_filter Let_def)

lemma mm_size_removed: "mm_size (snd (mm_remove_one i s)) \<le> mm_size s" "mm_size (mm_remove_all s) \<le> mm_size s"
  by (simp_all add: mm_remove_one_def mm_remove_all_def mm_size_def)

lemma registry_inv_delete [spd_inv]:
  assumes "registry_inv R"
  shows "registry_inv (snd (delete_meter type i R))" and "registry_inv (delete_all_meters type R)"
  using assms mm_size_removed(1) [of i "am_age_gauges (rg_meters R)"]
    mm_size_removed(2) [of "am_age_gauges (rg_meters R)"]
  by (simp_all add: registry_inv_def all_inv_def delete_meter_def delete_all_meters_def split_beta
      mm_inv_remove_one mm_inv_remove_all)

lemma registry_inv_new [spd_inv]: "registry_inv (new_registry A now cfg)"
  using fresh_ok(9) [OF wf_id_of]
  by (simp add: registry_inv_def all_inv_def new_registry_def no_meters_def Let_def split_beta
      mm_inv_insert mm_inv_empty mm_size_def) (simp add: empty_map_def)

section \<open>What a poll reports\<close>

definition age_gauge_report :: "int \<Rightarrow> age_gauge \<Rightarrow> age_gauge \<times> measurement list" where
  "age_gauge_report now g = (case age_gauge_measure now g of None \<Rightarrow> (g, []) | Some x \<Rightarrow> x)"

definition ages_defined :: "int \<Rightarrow> all_meters \<Rightarrow> bool" where
  "ages_defined now a \<longleftrightarrow> (\<forall>g \<in> set (mm_get_values (am_age_gauges a)). age_gauge_value now g \<noteq> None)"

definition all_reports :: "int \<Rightarrow> int \<Rightarrow> all_meters \<Rightarrow> measurement list" where
  \<comment> \<open>the reference: kind by kind, each live meter of the kinds that are measured once, from its state before the poll; the
    sampled counters (\<open>am_mono_sampled\<close>) are not among them\<close>
  "all_reports now ttl a =
     live_reports (age_gauge_expired now ttl) (age_gauge_report now) (am_age_gauges a) @
     live_reports (is_meter_expired now ttl) counter_measure (am_counters a) @
     live_reports (is_meter_expired now ttl) dist_summary_measure (am_dist_sums a) @
     live_reports (gauge_expired now ttl) (gauge_measure now) (am_gauges a) @
     live_reports (is_meter_expired now ttl) max_gauge_measure (am_max_gauges a) @
     live_reports (is_meter_expired now ttl) mono_measure (am_mono_counters a) @
     live_reports (is_meter_expired now ttl) mono_uint_measure (am_mono_counters_uint a) @
     live_reports (is_meter_expired now ttl) timer_measure (am_timers a)"

lemma mm_measure_total:
  assumes "mm_inv fit s" and "\<forall>m \<in> set (mm_get_values s). \<not> expired m \<longrightarrow> g m = Some (f m)"
    and "\<And>m. mt_id (fst (f m)) = mt_id m" and "\<And>m. fit m \<Longrightarrow> fit (fst (f m))"
  obtains s' where "mm_measure expired g s = Some (s', live_reports expired f s)" "mm_inv fit s'"
    "mm_table s' = mm_table s"
proof -
  from mm_measure_spec [OF assms(1,2)] obtain s' where s':
    "mm_measure expired g s = Some (s', live_reports expired f s)" "mm_table s' = mm_table s"
    "mm_objs s' = map (\<lambda>k. let m = mm_objs s ! k in
      if k \<in> snd ` set (mm_table s) \<and> \<not> expired m then fst (f m) else m) [0..<length (mm_objs s)]"
    by (elim exE conjE)
  show thesis by (rule that [OF s'(1) mm_inv_measure [OF assms(1) s'(2,3) assms(3,4)] s'(2)])
qed

lemma age_gauge_report_keeps:
  "mt_id (fst (age_gauge_report now g)) = mt_id g"
  "age_gauge_ok g \<Longrightarrow> age_gauge_ok (fst (age_gauge_report now g))"
proof -
  have "mt_id (fst (age_gauge_report now g)) = mt_id g \<and>
      (age_gauge_ok g \<longrightarrow> age_gauge_ok (fst (age_gauge_report now g)))"
  proof (cases "age_gauge_measure now g")
    case None
    then show ?thesis by (simp add: age_gauge_report_def)
  next
    case (Some x)
    then show ?thesis
      using age_gauge_measure_ok [of now g "fst x" "snd x"] by (simp add: age_gauge_report_def)
  qed
  then show "mt_id (fst (age_gauge_report now g)) = mt_id g"
    "age_gauge_ok g \<Longrightarrow> age_gauge_ok (fst (age_gauge_report now g))" by blast+
qed

lemma all_measure_spec:
  assumes "all_inv a" and "ages_defined now a"
  obtains a' where "all_measure now ttl a = Some (a', all_reports now ttl a)" "all_inv a'"
    "mm_table (am_age_gauges a') = mm_table (am_age_gauges a)"
proof -
  note I = assms(1) [unfolded all_inv_def]
  have "\<forall>g \<in> set (mm_get_values (am_age_gauges a)).
      \<not> age_gauge_expired now ttl g \<longrightarrow> age_gauge_measure now g = Some (age_gauge_report now g)"
    using assms(2) by (auto simp: ages_defined_def age_gauge_report_def age_gauge_measure_def Let_def)
  note A = mm_measure_total [OF I [THEN conjunct1] this age_gauge_report_keeps]
  obtain s1 where 1: "mm_measure (age_gauge_expired now ttl) (age_gauge_measure now) (am_age_gauges a) =
      Some (s1, live_reports (age_gauge_expired now ttl) (age_gauge_report now) (am_age_gauges a))"
    "mm_inv age_gauge_ok s1" "mm_table s1 = mm_table (am_age_gauges a)" by (rule A)
  obtain s2 where 2: "mm_measure (is_meter_expired now ttl) (Some \<circ> counter_measure) (am_counters a) =
      Some (s2, live_reports (is_meter_expired now ttl) counter_measure (am_counters a))" "mm_inv counter_ok s2"
    by (rule mm_measure_total [of counter_ok "am_counters a" _ "Some \<circ> counter_measure" counter_measure])
      (use I counter.mid_measure counter.ok_measure in auto)
  obtain s3 where 3: "mm_measure (is_meter_expired now ttl) (Some \<circ> dist_summary_measure) (am_dist_sums a) =
      Some (s3, live_reports (is_meter_expired now ttl) dist_summary_measure (am_dist_sums a))"
      "mm_inv dist_summary_ok s3"
    by (rule mm_measure_total [of dist_summary_ok "am_dist_sums a" _ "Some \<circ> dist_summary_measure" dist_summary_measure])
      (use I dist_summary.mid_measure dist_summary.ok_measure in auto)
  obtain s4 where 4: "mm_measure (gauge_expired now ttl) (Some \<circ> gauge_measure now) (am_gauges a) =
      Some (s4, live_reports (gauge_expired now ttl) (gauge_measure now) (am_gauges a))" "mm_inv gauge_ok s4"
    by (rule mm_measure_total [of gauge_ok "am_gauges a" _ "Some \<circ> gauge_measure now" "gauge_measure now"])
      (use I gauge.mid_measure gauge.ok_measure in auto)
  obtain s5 where 5: "mm_measure (is_meter_expired now ttl) (Some \<circ> max_gauge_measure) (am_max_gauges a) =
      Some (s5, live_reports (is_meter_expired now ttl) max_gauge_measure (am_max_gauges a))" "mm_inv max_gauge_ok s5"
    by (rule mm_measure_total [of max_gauge_ok "am_max_gauges a" _ "Some \<circ> max_gauge_measure" max_gauge_measure])
      (use I max_gauge.mid_measure max_gauge.ok_measure in auto)
  obtain s6 where 6: "mm_measure (is_meter_expired now ttl) (Some \<circ> mono_measure) (am_mono_counters a) =
      Some (s6, live_reports (is_meter_expired now ttl) mono_measure (am_mono_counters a))" "mm_inv mono_ok s6"
    by (rule mm_measure_total [of mono_ok "am_mono_counters a" _ "Some \<circ> mono_measure" mono_measure])
      (use I mono.mid_measure mono.ok_measure in auto)
  obtain s7 where 7: "mm_measure (is_meter_expired now ttl) (Some \<circ> mono_uint_measure) (am_mono_counters_uint a) =
      Some (s7, live_reports (is_meter_expired now ttl) mono_uint_measure (am_mono_counters_uint a))"
      "mm_inv mono_uint_ok s7"
    by (rule mm_measure_total [of mono_uint_ok "am_mono_counters_uint a" _ "Some \<circ> mono_uint_measure" mono_uint_measure])
      (use I mono_uint.mid_measure mono_uint.ok_measure in auto)
  obtain s8 where 8: "mm_measure (is_meter_expired now ttl) (Some \<circ> timer_measure) (am_timers a) =
      Some (s8, live_reports (is_meter_expired now ttl) timer_measure (am_timers a))" "mm_inv timer_ok s8"
    by (rule mm_measure_total [of timer_ok "am_timers a" _ "Some \<circ> timer_measure" timer_measure])
      (use I timer.mid_measure timer.ok_measure in auto)
  let ?a = "a\<lparr>am_age_gauges := s1, am_counters := s2, am_dist_sums := s3, am_gauges := s4,
    am_max_gauges := s5, am_mono_counters := s6, am_mono_counters_uint := s7, am_timers := s8\<rparr>"
  have "all_measure now ttl a = Some (?a, all_reports now ttl a)"
    unfolding all_measure_def all_reports_def 1 2 3 4 5 6 7 8 by simp
  moreover have "all_inv ?a" using I 1 2 3 4 5 6 7 8 by (simp add: all_inv_def)
  ultimately show thesis using 1(3) by (intro that [of ?a]) simp_all
qed

lemma dist_summary_record_keeps: "mt_id (dist_summary_record now x d) = mt_id d"
  "dist_summary_ok d \<Longrightarrow> dist_summary_ok (dist_summary_record now x d)"
  by (simp_all add: dist_summary_record_def Let_def touch_def dist_summary_ok_def)

definition same_tables :: "all_meters \<Rightarrow> all_meters \<Rightarrow> bool" where
  \<comment> \<open>the same meters are registered, under the same handles, and no object was added\<close>
  "same_tables a b \<longleftrightarrow>
     mm_table (am_age_gauges b) = mm_table (am_age_gauges a) \<and> mm_table (am_counters b) = mm_table (am_counters a) \<and>
     length (mm_objs (am_counters b)) = length (mm_objs (am_counters a)) \<and>
     mm_table (am_dist_sums b) = mm_table (am_dist_sums a) \<and> mm_table (am_gauges b) = mm_table (am_gauges a) \<and>
     mm_table (am_max_gauges b) = mm_table (am_max_gauges a) \<and> mm_table (am_mono_counters b) = mm_table (am_mono_counters a) \<and>
     mm_table (am_mono_counters_uint b) = mm_table (am_mono_counters_uint a) \<and>
     am_mono_sampled b = am_mono_sampled a \<and> mm_table (am_timers b) = mm_table (am_timers a)"

lemma mm_measure_table:
  assumes "mm_measure expired g s = Some (s', ms)"
  shows "mm_table s' = mm_table s \<and> length (mm_objs s') = length (mm_objs s)"
proof -
  have "length os' = length os" if "measure_refs expired g rs os = Some (os', ms')" for rs os os' ms'
    using that by (induction rs arbitrary: os os' ms') (auto split: if_splits option.splits)
  then show ?thesis using assms by (auto simp: mm_measure_def split: option.splits)
qed

lemma poll_tables:
  assumes "registry_measurements now R = Some (R', ms)"
  shows "same_tables (rg_meters R) (rg_meters R')"
proof -
  have "same_tables a b" if "all_measure now ttl a = Some (b, ms)" for a b ttl
    using that unfolding all_measure_def
    by (auto simp: same_tables_def split: option.splits prod.splits dest!: mm_measure_table)
  then show ?thesis
    using assms by (auto simp: registry_measurements_def Let_def same_tables_def mm_update_def split: option.splits)
qed

lemma registry_measurements_spec:
  assumes "registry_inv R" and "ages_defined now (rg_meters R)"
  obtains R' where "registry_measurements now R = Some (R', all_reports now (rg_meter_ttl R) (rg_meters R))"
    "registry_inv R'"
proof -
  have a: "all_inv (rg_meters R)" using assms(1) by (simp add: registry_inv_def)
  obtain a' where a': "all_measure now (rg_meter_ttl R) (rg_meters R) =
      Some (a', all_reports now (rg_meter_ttl R) (rg_meters R))" "all_inv a'"
    "mm_table (am_age_gauges a') = mm_table (am_age_gauges (rg_meters R))"
    by (rule all_measure_spec [OF a assms(2)])
  let ?res = "all_reports now (rg_meter_ttl R) (rg_meters R)"
  let ?a = "if cf_status_metrics_enabled (rg_config R)
    then a'\<lparr>am_dist_sums := mm_update (rg_registry_size R)
      (dist_summary_record now (dint (int (length ?res)))) (am_dist_sums a')\<rparr> else a'"
  have "registry_measurements now R = Some (R\<lparr>rg_meters := ?a\<rparr>, ?res)"
    by (simp add: registry_measurements_def a'(1) Let_def)
  moreover have "registry_inv (R\<lparr>rg_meters := ?a\<rparr>)"
    using a'(2,3) assms(1)
    by (simp add: registry_inv_def all_inv_def mm_size_def mm_inv_update dist_summary_record_keeps)
  ultimately show thesis by (rule that)
qed

lemma measure_refs_keeps:
  assumes "measure_refs expired g rs os = Some (os', ms)"
    and "\<And>m m' x. g m = Some (m', x) \<Longrightarrow> mt_id m' = mt_id m \<and> (fit m \<longrightarrow> fit m')"
  shows "map mt_id os' = map mt_id os \<and> (list_all fit os \<longrightarrow> list_all fit os')"
  using assms(1)
proof (induction rs arbitrary: os ms)
  case Nil
  then show ?case by simp
next
  case (Cons r rs)
  show ?case
  proof (cases "expired (os ! r)")
    case True
    then show ?thesis using Cons by simp
  next
    case False
    then obtain m x os2 ms2 where m: "g (os ! r) = Some (m, x)" "measure_refs expired g rs (os[r := m]) = Some (os2, ms2)"
      "os' = os2" using Cons.prems by (auto split: option.splits)
    have IH: "map mt_id os' = map mt_id (os[r := m]) \<and> (list_all fit (os[r := m]) \<longrightarrow> list_all fit os')"
      using Cons.IH [of "os[r := m]" ms2] m(2,3) by simp
    show ?thesis
    proof (cases "r < length os")
      case True
      then have "map mt_id (os[r := m]) = map mt_id os"
        using assms(2) [OF m(1)] by (metis list_update_id map_update nth_map)
      moreover have "list_all fit (os[r := m])" if "list_all fit os"
        using that assms(2) [OF m(1)] True by (auto simp: list_all_length nth_list_update)
      ultimately show ?thesis using IH by simp
    next
      case False
      then show ?thesis using IH by (simp add: list_update_beyond)
    qed
  qed
qed

lemma mm_measure_keeps:
  assumes "mm_inv fit s" and "mm_measure expired g s = Some (s', ms)"
    and "\<And>m m' x. g m = Some (m', x) \<Longrightarrow> mt_id m' = mt_id m \<and> (fit m \<longrightarrow> fit m')"
  shows "mm_inv fit s' \<and> mm_table s' = mm_table s"
proof -
  obtain os where os: "measure_refs expired g (map snd (mm_table s)) (mm_objs s) = Some (os, ms)"
    "s' = s\<lparr>mm_objs := os\<rparr>" using assms(2) by (auto simp: mm_measure_def split: option.splits)
  have ids: "map mt_id os = map mt_id (mm_objs s)" and fits: "list_all fit (mm_objs s) \<longrightarrow> list_all fit os"
    using measure_refs_keeps [OF os(1) assms(3)] by simp_all
  have len: "length os = length (mm_objs s)" using ids by (metis length_map)
  have "mt_id (os ! k) = mt_id (mm_objs s ! k)" if "k < length os" for k
    using that ids len by (metis nth_map)
  then show ?thesis using assms(1) fits by (simp add: mm_inv_def os(2) len list_all_iff)
qed

lemma measure_some_total: "\<exists>s' ms. mm_measure expired (Some \<circ> f) s = Some (s', ms)"
proof -
  have "\<exists>x. measure_refs expired (Some \<circ> f) rs os = Some x" for rs os
  proof (induction rs arbitrary: os)
    case Nil
    then show ?case by simp
  next
    case (Cons r rs)
    show ?case
      using Cons [of os] Cons [of "os[r := fst (f (os ! r))]"] by (auto simp: split_beta)
  qed
  then obtain x where "measure_refs expired (Some \<circ> f) (map snd (mm_table s)) (mm_objs s) = Some x" by blast
  then show ?thesis by (cases x) (simp add: mm_measure_def)
qed

lemma mm_measure_keeps_total:
  assumes "mm_inv fit s" and "mm_measure expired (Some \<circ> f) s = Some (s', ms)"
    and "\<And>m. mt_id (fst (f m)) = mt_id m" and "\<And>m. fit m \<Longrightarrow> fit (fst (f m))"
  shows "mm_inv fit s' \<and> mm_table s' = mm_table s"
proof (rule mm_measure_keeps [OF assms(1,2)])
  fix m m' x
  assume "(Some \<circ> f) m = Some (m', x)"
  then have "m' = fst (f m)" by auto
  then show "mt_id m' = mt_id m \<and> (fit m \<longrightarrow> fit m')" using assms(3,4) by simp
qed

lemma registry_inv_measurements [spd_inv]:
  assumes "registry_inv R" and "registry_measurements now R = Some (R', ms)"
  shows "registry_inv R'"
proof -
  let ?a = "rg_meters R" and ?ttl = "rg_meter_ttl R"
  note I = assms(1) [unfolded registry_inv_def all_inv_def]
  obtain a x where a: "all_measure now ?ttl ?a = Some (a, x)"
    and R': "R' = R\<lparr>rg_meters := (if cf_status_metrics_enabled (rg_config R)
       then a\<lparr>am_dist_sums := mm_update (rg_registry_size R)
                (dist_summary_record now (dint (int (length x)))) (am_dist_sums a)\<rparr> else a)\<rparr>"
    using assms(2) by (auto simp: registry_measurements_def Let_def split: option.splits)
  obtain ag m1 where 1: "mm_measure (age_gauge_expired now ?ttl) (age_gauge_measure now) (am_age_gauges ?a) = Some (ag, m1)"
    using a by (cases "mm_measure (age_gauge_expired now ?ttl) (age_gauge_measure now) (am_age_gauges ?a)")
      (auto simp: all_measure_def)
  obtain cs m2 where 2: "mm_measure (is_meter_expired now ?ttl) (Some \<circ> counter_measure) (am_counters ?a) = Some (cs, m2)"
    using measure_some_total [of "is_meter_expired now ?ttl" "counter_measure" "am_counters ?a"] by blast
  obtain ds m3 where 3: "mm_measure (is_meter_expired now ?ttl) (Some \<circ> dist_summary_measure) (am_dist_sums ?a) = Some (ds, m3)"
    using measure_some_total [of "is_meter_expired now ?ttl" "dist_summary_measure" "am_dist_sums ?a"] by blast
  obtain gs m4 where 4: "mm_measure (gauge_expired now ?ttl) (Some \<circ> gauge_measure now) (am_gauges ?a) = Some (gs, m4)"
    using measure_some_total [of "gauge_expired now ?ttl" "gauge_measure now" "am_gauges ?a"] by blast
  obtain mg m5 where 5: "mm_measure (is_meter_expired now ?ttl) (Some \<circ> max_gauge_measure) (am_max_gauges ?a) = Some (mg, m5)"
    using measure_some_total [of "is_meter_expired now ?ttl" "max_gauge_measure" "am_max_gauges ?a"] by blast
  obtain mc m6 where 6: "mm_measure (is_meter_expired now ?ttl) (Some \<circ> mono_measure) (am_mono_counters ?a) = Some (mc, m6)"
    using measure_some_total [of "is_meter_expired now ?ttl" "mono_measure" "am_mono_counters ?a"] by blast
  obtain mu m7 where 7: "mm_measure (is_meter_expired now ?ttl) (Some \<circ> mono_uint_measure) (am_mono_counters_uint ?a) = Some (mu, m7)"
    using measure_some_total [of "is_meter_expired now ?ttl" "mono_uint_measure" "am_mono_counters_uint ?a"] by blast
  obtain ts m8 where 8: "mm_measure (is_meter_expired now ?ttl) (Some \<circ> timer_measure) (am_timers ?a) = Some (ts, m8)"
    using measure_some_total [of "is_meter_expired now ?ttl" "timer_measure" "am_timers ?a"] by blast
  have a': "a = ?a\<lparr>am_age_gauges := ag, am_counters := cs, am_dist_sums := ds, am_gauges := gs,
      am_max_gauges := mg, am_mono_counters := mc, am_mono_counters_uint := mu, am_timers := ts\<rparr>"
    using a unfolding all_measure_def 1 2 3 4 5 6 7 8 by simp
  have K1: "mm_inv age_gauge_ok ag \<and> mm_table ag = mm_table (am_age_gauges ?a)"
    by (rule mm_measure_keeps [OF _ 1]) (use I age_gauge_measure_ok in \<open>auto dest: age_gauge_measure_ok\<close>)
  have K2: "mm_inv counter_ok cs \<and> mm_table cs = mm_table (am_counters ?a)"
    by (rule mm_measure_keeps_total [OF _ 2]) (use I counter.mid_measure counter.ok_measure in auto)
  have K3: "mm_inv dist_summary_ok ds \<and> mm_table ds = mm_table (am_dist_sums ?a)"
    by (rule mm_measure_keeps_total [OF _ 3]) (use I dist_summary.mid_measure dist_summary.ok_measure in auto)
  have K4: "mm_inv gauge_ok gs \<and> mm_table gs = mm_table (am_gauges ?a)"
    by (rule mm_measure_keeps_total [OF _ 4]) (use I gauge.mid_measure gauge.ok_measure in auto)
  have K5: "mm_inv max_gauge_ok mg \<and> mm_table mg = mm_table (am_max_gauges ?a)"
    by (rule mm_measure_keeps_total [OF _ 5]) (use I max_gauge.mid_measure max_gauge.ok_measure in auto)
  have K6: "mm_inv mono_ok mc \<and> mm_table mc = mm_table (am_mono_counters ?a)"
    by (rule mm_measure_keeps_total [OF _ 6]) (use I mono.mid_measure mono.ok_measure in auto)
  have K7: "mm_inv mono_uint_ok mu \<and> mm_table mu = mm_table (am_mono_counters_uint ?a)"
    by (rule mm_measure_keeps_total [OF _ 7]) (use I mono_uint.mid_measure mono_uint.ok_measure in auto)
  have K8: "mm_inv timer_ok ts \<and> mm_table ts = mm_table (am_timers ?a)"
    by (rule mm_measure_keeps_total [OF _ 8]) (use I timer.mid_measure timer.ok_measure in auto)
  have "all_inv a \<and> mm_table (am_age_gauges a) = mm_table (am_age_gauges ?a)"
    using K1 K2 K3 K4 K5 K6 K7 K8 I by (simp add: a' all_inv_def)
  then show ?thesis using I by (auto simp: R' registry_inv_def all_inv_def mm_size_def mm_inv_update dist_summary_record_keeps)
qed

definition update_counter :: "nat \<Rightarrow> (counter \<Rightarrow> counter) \<Rightarrow> 'd registry \<Rightarrow> 'd registry" where
  \<comment> \<open>a client calls an operation of a counter through its handle\<close>
  "update_counter r f R = R\<lparr>rg_meters := (rg_meters R)\<lparr>am_counters := mm_update r f (am_counters (rg_meters R))\<rparr>\<rparr>"

lemma update_counter_inv:
  assumes "registry_inv R" and "\<And>c. mt_id (f c) = mt_id c" and "\<And>c. counter_ok c \<Longrightarrow> counter_ok (f c)"
  shows "registry_inv (update_counter r f R)"
  using assms by (simp add: registry_inv_def all_inv_def update_counter_def mm_inv_update)

lemma counter_add_keeps: "mt_id (counter_add now d c) = mt_id c"
  "counter_ok c \<Longrightarrow> counter_ok (counter_add now d c)"
  by (simp_all add: counter_add_def Let_def touch_def counter_ok_def)

section \<open>Properties\<close>

text \<open>What a client of the counters does, between the polls and the sweeps of the registry's own threads.\<close>

datatype registry_use = Request int meter_id | Add nat int double | Poll int | Sweep int

fun use_registry :: "registry_use \<Rightarrow> 'd registry \<Rightarrow> (nat option \<times> 'd registry) option" where
  "use_registry (Request now i) R = (let (r, R1) = get_counter now i R in Some (Some r, R1))"
| "use_registry (Add r now x) R = Some (None, update_counter r (counter_add now x) R)"
| "use_registry (Poll now) R = map_option (\<lambda>(R1, ms). (None, R1)) (registry_measurements now R)"
| "use_registry (Sweep now) R = Some (None, remove_expired_meters now R)"

primrec history :: "registry_use list \<Rightarrow> 'd registry \<Rightarrow> (nat option \<times> 'd registry) list option" where
  \<comment> \<open>the handle that is returned, if any, and the registry after every use\<close>
  "history [] R = Some []"
| "history (u # us) R = (case use_registry u R of None \<Rightarrow> None
     | Some (h, R1) \<Rightarrow> map_option (Cons (h, R1)) (history us R1))"

abbreviation found :: "'d registry \<Rightarrow> meter_id \<Rightarrow> nat option" where
  "found R i \<equiv> mm_find (am_counters (rg_meters R)) i"

definition counter_step :: "'d registry \<Rightarrow> 'd registry \<Rightarrow> bool" where
  \<comment> \<open>what every use respects: a handle is not given to another identity, and new handles are new\<close>
  "counter_step R R1 \<longleftrightarrow> length (mm_objs (am_counters (rg_meters R))) \<le> length (mm_objs (am_counters (rg_meters R1))) \<and>
     (\<forall>i r. found R i = Some r \<longrightarrow> found R1 i = Some r \<or> found R1 i = None) \<and>
     (\<forall>i r. found R1 i = Some r \<longrightarrow> found R i = Some r \<or> length (mm_objs (am_counters (rg_meters R))) \<le> r)"

lemma counter_step_same:
  "mm_table (am_counters (rg_meters R1)) = mm_table (am_counters (rg_meters R)) \<Longrightarrow>
   length (mm_objs (am_counters (rg_meters R1))) = length (mm_objs (am_counters (rg_meters R))) \<Longrightarrow> counter_step R R1"
  by (simp add: counter_step_def mm_find_def)

lemma counter_step_get: "counter_step R (snd (get_counter now i R))"
  by (auto simp: counter_step_def get_counter_def mm_insert_def mm_alloc_def mm_find_def new_counter_def map_add_Some_iff
      split: option.split)

lemma measured_keeps:
  assumes "registry_measurements now R = Some (R1, ms)"
  shows "counter_step R R1"
proof (rule counter_step_same)
  show "mm_table (am_counters (rg_meters R1)) = mm_table (am_counters (rg_meters R))"
    using poll_tables [OF assms] by (simp add: same_tables_def)
  show "length (mm_objs (am_counters (rg_meters R1))) = length (mm_objs (am_counters (rg_meters R)))"
    using poll_tables [OF assms] by (simp add: same_tables_def)
qed

lemma counter_step_sweep: "registry_inv R \<Longrightarrow> counter_step R (remove_expired_meters now R)"
proof -
  assume R: "registry_inv R"
  have d: "distinct (map fst (mm_table (am_counters (rg_meters R))))" using R by (simp add: registry_inv_def all_inv_def mm_inv_def)
  have sub: "map_of (filter P es) i = Some r \<Longrightarrow> map_of es i = Some r" if "distinct (map fst es)" for P es i and r :: nat
    using that by (metis (mono_tags, lifting) filter_is_subset map_of_SomeD map_of_is_SomeI subsetD)
  show ?thesis
    using sub [OF d]
    by (auto simp: counter_step_def remove_expired_meters_def all_remove_expired_def mm_remove_expired_spec mm_find_def Let_def)
qed

lemma use_steps:
  assumes "registry_inv R" and "use_registry u R = Some (h, R1)" and "\<forall>now i. u = Request now i \<longrightarrow> wf_id i"
  shows "registry_inv R1" and "counter_step R R1"
proof -
  have "registry_inv R1 \<and> counter_step R R1"
  proof (cases u)
    case (Request now i)
    then have "R1 = snd (get_counter now i R)" "wf_id i" using assms(2,3) by (auto simp: split_beta)
    then show ?thesis using registry_inv_get(1) [OF assms(1)] counter_step_get by blast
  next
    case (Add r now x)
    then have R1: "R1 = update_counter r (counter_add now x) R" using assms(2) by simp
    have "counter_step R R1" by (rule counter_step_same) (simp_all add: R1 update_counter_def mm_update_def)
    then show ?thesis using update_counter_inv [OF assms(1), of "counter_add now x" r] counter_add_keeps by (simp add: R1)
  next
    case (Poll now)
    then obtain ms where "registry_measurements now R = Some (R1, ms)" using assms(2) by auto
    then show ?thesis using registry_inv_measurements [OF assms(1)] measured_keeps by blast
  next
    case (Sweep now)
    then have "R1 = remove_expired_meters now R" using assms(2) by simp
    then show ?thesis using registry_inv_remove_expired [OF assms(1)] counter_step_sweep [OF assms(1)] by simp
  qed
  then show "registry_inv R1" "counter_step R R1" by simp_all
qed

definition after :: "'d registry \<Rightarrow> (nat option \<times> 'd registry) list \<Rightarrow> nat \<Rightarrow> 'd registry" where
  \<comment> \<open>the registry before the n-th use\<close>
  "after R hs n = (case n of 0 \<Rightarrow> R | Suc m \<Rightarrow> snd (hs ! m))"

lemma history_steps:
  assumes "registry_inv R" and "\<forall>u \<in> set us. \<forall>now i. u = Request now i \<longrightarrow> wf_id i" and "history us R = Some hs"
  shows "length hs = length us \<and> (\<forall>n < length us. registry_inv (after R hs n) \<and>
    use_registry (us ! n) (after R hs n) = Some (hs ! n) \<and> counter_step (after R hs n) (after R hs (Suc n)))"
  using assms
proof (induction us arbitrary: R hs)
  case Nil
  then show ?case by simp
next
  case (Cons u us)
  obtain h R1 hs1 where u: "use_registry u R = Some (h, R1)" "history us R1 = Some hs1" "hs = (h, R1) # hs1"
    using Cons.prems(3) by (auto split: option.splits)
  note one = use_steps [OF Cons.prems(1) u(1)]
  have R1: "registry_inv R1" "counter_step R R1" using one Cons.prems(2) by simp_all
  have IH: "length hs1 = length us \<and> (\<forall>n < length us. registry_inv (after R1 hs1 n) \<and>
    use_registry (us ! n) (after R1 hs1 n) = Some (hs1 ! n) \<and> counter_step (after R1 hs1 n) (after R1 hs1 (Suc n)))"
    using Cons.IH [OF R1(1) _ u(2)] Cons.prems(2) by simp
  have shift: "after R hs (Suc n) = after R1 hs1 n" for n by (cases n) (simp_all add: after_def u(3))
  show ?case
  proof (intro conjI allI impI)
    show "length hs = length (u # us)" using IH by (simp add: u(3))
    fix n
    assume n: "n < length (u # us)"
    show "registry_inv (after R hs n)" "use_registry ((u # us) ! n) (after R hs n) = Some (hs ! n)"
      "counter_step (after R hs n) (after R hs (Suc n))"
      using n IH R1 u(1) Cons.prems(1) shift by (cases n; simp add: after_def u(3); fail)+
  qed
qed

lemma other_uses_keep:
  assumes "registry_inv R" and "use_registry u R = Some (h, R1)" and "\<forall>now. u \<noteq> Sweep now" and "found R i = Some r"
  shows "found R1 i = Some r"
proof (cases u)
  case (Request now j)
  have "mm_inv counter_ok (am_counters (rg_meters R))" using assms(1) by (simp add: registry_inv_def all_inv_def)
  then show ?thesis
    using assms(2,4) meters.look_put_keeps [of counter_ok "am_counters (rg_meters R)" i r "new_counter now j"] Request
    by (auto simp: get_counter_def split_beta)
next
  case (Poll now)
  then show ?thesis using assms(2,4) poll_tables by (fastforce simp: same_tables_def mm_find_def)
qed (use assms in \<open>auto simp: update_counter_def mm_update_def mm_find_def\<close>)

lemma request_result:
  assumes "registry_inv R" and "use_registry (Request now i) R = Some (h, R1)"
  obtains r where "h = Some r" "found R1 i = Some r" "r < length (mm_objs (am_counters (rg_meters R1)))"
    "found R i = Some r \<or> found R i = None \<and> length (mm_objs (am_counters (rg_meters R))) \<le> r"
proof -
  have inv: "mm_inv counter_ok (am_counters (rg_meters R))" using assms(1) by (simp add: registry_inv_def all_inv_def)
  let ?r = "fst (get_counter now i R)"
  have h: "h = Some ?r" "R1 = snd (get_counter now i R)" using assms(2) by (auto simp: split_beta)
  note h(1)
  moreover have "found R1 i = Some ?r"
    using meters.look_put [OF inv, of "new_counter now i" i] by (simp add: h get_counter_def split_beta new_counter_def)
  moreover have "?r < length (mm_objs (am_counters (rg_meters R1)))"
  proof (cases "found R i")
    case None
    then show ?thesis by (simp add: h get_counter_def mm_insert_def mm_alloc_def mm_find_def new_counter_def)
  next
    case (Some q)
    then have "(i, q) \<in> set (mm_table (am_counters (rg_meters R)))" by (auto simp: mm_find_def dest: map_of_SomeD)
    then have "q < length (mm_objs (am_counters (rg_meters R)))" using inv by (auto simp: mm_inv_def)
    then show ?thesis using Some by (simp add: h get_counter_def mm_insert_def mm_find_def new_counter_def)
  qed
  moreover have "found R i = Some ?r \<or> found R i = None \<and> length (mm_objs (am_counters (rg_meters R))) \<le> ?r"
    by (cases "found R i") (simp_all add: get_counter_def mm_insert_def mm_alloc_def mm_find_def new_counter_def)
  ultimately show thesis by (rule that)
qed

lemma counter_steps:
  assumes "\<forall>n. a \<le> n \<and> n < b \<longrightarrow> counter_step (S n) (S (Suc n))" and "a \<le> n" and "n \<le> b"
  shows "length (mm_objs (am_counters (rg_meters (S a)))) \<le> length (mm_objs (am_counters (rg_meters (S n))))" (is "?len a \<le> ?len n")
    and "found (S a) i = Some r \<Longrightarrow> \<forall>m. a < m \<and> m \<le> n \<longrightarrow> found (S m) i \<noteq> None \<Longrightarrow> found (S n) i = Some r"
    and "r < length (mm_objs (am_counters (rg_meters (S a)))) \<Longrightarrow> found (S b) i = Some r \<Longrightarrow> found (S n) i = Some r"
proof -
  have grow: "?len a \<le> ?len m" if "a \<le> m" "m \<le> b" for m
    using that
  proof (induction m rule: dec_induct)
    case (step m)
    then have "counter_step (S m) (S (Suc m))" using assms(1) by simp
    then show ?case using step by (simp add: counter_step_def)
  qed simp
  then show "?len a \<le> ?len n" using assms(2,3) by blast
  show "found (S n) i = Some r" if "found (S a) i = Some r" "\<forall>m. a < m \<and> m \<le> n \<longrightarrow> found (S m) i \<noteq> None"
    using assms(2,3) that(2)
  proof (induction n rule: dec_induct)
    case (step m)
    then have "found (S m) i = Some r" "counter_step (S m) (S (Suc m))" "found (S (Suc m)) i \<noteq> None" using assms(1) by simp_all
    then show ?case unfolding counter_step_def by metis
  qed (use that(1) in simp)
  show "found (S n) i = Some r" if "r < ?len a" "found (S b) i = Some r"
    using assms(3,2)
  proof (induction n rule: inc_induct)
    case (step m)
    then have "found (S (Suc m)) i = Some r" "r < ?len m" using that(1) grow [of m] by simp_all
    moreover have "counter_step (S m) (S (Suc m))" using assms(1) step by simp
    ultimately show ?case unfolding counter_step_def by (metis linorder_not_less)
  qed (use that(2) in simp)
qed

lemma unswept_steps:
  assumes "\<And>n. a \<le> n \<Longrightarrow> n < b \<Longrightarrow> registry_inv (S n) \<and> use_registry (us ! n) (S n) = Some (h n, S (Suc n)) \<and> (\<forall>s. us ! n \<noteq> Sweep s)"
    and "found (S a) i = Some r" and "a \<le> n" and "n \<le> b"
  shows "found (S n) i = Some r"
  using assms(3,4)
proof (induction n rule: dec_induct)
  case (step m)
  then show ?case using other_uses_keep assms(1) [of m] by (metis Suc_le_lessD less_imp_le_nat)
qed (use assms(2) in simp)

text \<open>
  C25. A handle stands for an identity as long as its meter is registered: among any uses of the counters of a registry
  (requests, additions through any handle, polls and sweeps, at whatever times), two requests return the same meter
  exactly when they name the same identity and no sweep has removed the meter in between; without a sweep between them, exactly when
  they name the same identity. After a sweep that removed the meter a request makes a new one.
\<close>

theorem handles_identify_meters:
  assumes "registry_inv R" and "\<forall>u \<in> set us. \<forall>now i. u = Request now i \<longrightarrow> wf_id i" and "history us R = Some hs"
    and "j < k" and "k < length us" and "us ! j = Request t i" and "us ! k = Request t' i'"
  shows "(fst (hs ! j) = fst (hs ! k) \<longleftrightarrow> i = i' \<and> (\<forall>n. j \<le> n \<and> n < k \<longrightarrow> found (snd (hs ! n)) i \<noteq> None)) \<and>
    ((\<forall>n s. j < n \<and> n < k \<longrightarrow> us ! n \<noteq> Sweep s) \<longrightarrow> (fst (hs ! j) = fst (hs ! k) \<longleftrightarrow> i = i'))"
proof -
  let ?S = "after R hs" and ?len = "\<lambda>n. length (mm_objs (am_counters (rg_meters (after R hs n))))"
  note steps = history_steps [OF assms(1-3), THEN conjunct2, rule_format]
  have snd: "snd (hs ! n) = ?S (Suc n)" for n by (simp add: after_def)
  have use: "use_registry (us ! n) (?S n) = Some (fst (hs ! n), ?S (Suc n))" if "n < length us" for n
    using steps [OF that] by (simp add: after_def)
  have inv: "registry_inv (?S n)" if "n < length us" for n using steps [OF that] by simp
  have jk: "j < length us" "k < length us" "Suc j \<le> k" using assms(4,5) by simp_all
  obtain r where r: "fst (hs ! j) = Some r" "found (?S (Suc j)) i = Some r" "r < ?len (Suc j)"
    using request_result [OF inv [OF jk(1)]] use [OF jk(1)] assms(6) by metis
  obtain q where q: "fst (hs ! k) = Some q" "found (?S k) i' = Some q \<or> found (?S k) i' = None \<and> ?len k \<le> q"
    using request_result [OF inv [OF jk(2)]] use [OF jk(2)] assms(7) by metis
  have run: "\<forall>n. Suc j \<le> n \<and> n < k \<longrightarrow> counter_step (?S n) (?S (Suc n))" using steps jk(2) by simp
  note grow = counter_steps(1) [of "Suc j" k ?S, OF run] and kept = counter_steps(2) [of "Suc j" k ?S k, OF run jk(3) order_refl r(2)]
    and earlier = counter_steps(3) [of "Suc j" k ?S, OF run _ _ r(3)]
  have main: "fst (hs ! j) = fst (hs ! k) \<longleftrightarrow> i = i' \<and> (\<forall>n. j \<le> n \<and> n < k \<longrightarrow> found (snd (hs ! n)) i \<noteq> None)"
  proof
    assume "fst (hs ! j) = fst (hs ! k)"
    then have "q = r" using r(1) q(1) by simp
    then have f: "found (?S k) i' = Some r" using q(2) grow [OF jk(3)] r(3) by auto
    have "mm_inv counter_ok (am_counters (rg_meters (?S (Suc j))))"
      using steps [OF jk(1)] use_steps(1) [OF inv [OF jk(1)] use [OF jk(1)]] assms(2,6) jk(1)
      by (simp add: registry_inv_def all_inv_def) (metis nth_mem)
    then have "i = i'" using meters.look_inj r(2) earlier [OF order_refl jk(3) f] by blast
    then show "i = i' \<and> (\<forall>n. j \<le> n \<and> n < k \<longrightarrow> found (snd (hs ! n)) i \<noteq> None)"
      using earlier [OF _ _ f] by (auto simp: snd)
  next
    assume a: "i = i' \<and> (\<forall>n. j \<le> n \<and> n < k \<longrightarrow> found (snd (hs ! n)) i \<noteq> None)"
    have "found (?S m) i \<noteq> None" if "Suc j < m" "m \<le> k" for m
      using that a [THEN conjunct2, rule_format, of "m - 1"] by (cases m) (simp_all add: snd)
    then have "found (?S k) i = Some r" using kept by blast
    then have "found (?S k) i' = Some r" using a by simp
    then show "fst (hs ! j) = fst (hs ! k)" using q r(1) by auto
  qed
  have "found (?S (Suc n)) i = Some r" if "\<forall>n s. j < n \<and> n < k \<longrightarrow> us ! n \<noteq> Sweep s" "j \<le> n" "n < k" for n
    using unswept_steps [of "Suc j" k ?S us "\<lambda>n. fst (hs ! n)", OF _ r(2), of "Suc n"] inv use jk(2) that by simp
  then show ?thesis using main by (auto simp: snd)
qed

definition sample_config :: "nat \<Rightarrow> int config" where
  \<comment> \<open>a configuration for the examples\<close>
  "sample_config limit = \<lparr>cf_common_tags = [], cf_read_timeout = 0, cf_connect_timeout = 0, cf_batch_size = 10000,
     cf_frequency = 5000000000, cf_expiration_frequency = 0, cf_meter_ttl = 900000000000,
     cf_age_gauge_limit = limit, cf_uri = [], cf_external_uri = [], cf_metatron_dir = [], cf_process_name = ''spectatord'',
     cf_external_enabled = False, cf_status_metrics_enabled = True, cf_verbose_http = False\<rparr>"

abbreviation sample_registry :: "nat \<Rightarrow> int registry" where
  "sample_registry limit \<equiv> new_registry ns_durations 0 (sample_config limit)"

text \<open>A counter that is requested again while it is registered, and once more after it has expired.\<close>

theorem handles_identify_meters_witness:
  "let i = id_of ''a'' []; us = [Request 1 i, Request 2 (id_of ''b'' []), Request 3 i, Sweep 1000000000000, Request 1000000000000 i];
       hs = the (history us (sample_registry 1))
   in fst (hs ! 0) = fst (hs ! 2) \<and> fst (hs ! 0) \<noteq> fst (hs ! 1) \<and> fst (hs ! 2) \<noteq> fst (hs ! 4)"
proof -
  let ?i = "id_of ''a'' []" and ?R = "sample_registry 1"
  let ?us = "[Request 1 ?i, Request 2 (id_of ''b'' []), Request 3 ?i, Sweep 1000000000000, Request 1000000000000 ?i]"
  have ids: "?i = \<lparr>id_name = ''a'', id_tags = []\<rparr>" "id_of ''b'' [] = \<lparr>id_name = ''b'', id_tags = []\<rparr>" by code_simp+
  have wf: "\<forall>u \<in> set ?us. \<forall>now i. u = Request now i \<longrightarrow> wf_id i"
    using wf_id_of [of "''a''" "[]"] wf_id_of [of "''b''" "[]"] by (auto simp: intern_tags_def tag_put_all_def)
  have R: "rg_meter_ttl (sample_registry n) = 900000000000" "am_counters (rg_meters (sample_registry n)) = empty_map" for n
    by (simp_all add: new_registry_def no_meters_def sample_config_def ns_durations_def Let_def split_beta
        int64_min_def int64_max_def)
  obtain hs where hs: "history ?us ?R = Some hs" by (simp add: split_beta)
  let ?S = "snd (get_counter 3 ?i (snd (get_counter 2 (id_of ''b'' []) (snd (get_counter 1 ?i ?R)))))"
  have c: "am_counters (rg_meters (snd (get_counter now i S))) = snd (mm_insert (new_counter now i) (am_counters (rg_meters S)))"
    "rg_meter_ttl (snd (get_counter now i S)) = rg_meter_ttl S" for now i and S :: "int registry"
    by (simp_all add: get_counter_def split_beta)
  have "mm_table (am_counters (rg_meters (remove_expired_meters 1000000000000 ?S))) = []"
    by (simp add: remove_expired_meters_def all_remove_expired_def mm_remove_expired_spec Let_def c R)
      (simp add: mm_insert_def mm_alloc_def empty_map_def ids new_counter_def is_meter_expired_def)
  moreover have "snd (hs ! 3) = remove_expired_meters 1000000000000 ?S" using hs by (simp add: split_beta) (auto simp: split_beta)
  ultimately have "found (snd (hs ! 3)) ?i = None" by (simp add: mm_find_def)
  then have gone: "\<not> (\<forall>n. 2 \<le> n \<and> n < 4 \<longrightarrow> found (snd (hs ! n)) ?i \<noteq> None)"
    by (intro notI) (drule spec [of _ 3], simp)
  note run = handles_identify_meters [OF registry_inv_new wf hs]
  have "fst (hs ! 0) = fst (hs ! 1) \<longleftrightarrow> ?i = id_of ''b'' []" using run [of 0 1 1 ?i 2 "id_of ''b'' []"] by auto
  moreover have "us ! n \<noteq> Sweep s" if "us = ?us" "0 < n" "n < 2" for us n s using that by (cases n) auto
  then have "fst (hs ! 0) = fst (hs ! 2)" using run [of 0 2 1 ?i 3 ?i] by simp
  moreover have "fst (hs ! 2) \<noteq> fst (hs ! 4)" using run [of 2 4 3 ?i 1000000000000 ?i] gone by simp
  ultimately show ?thesis unfolding Let_def hs option.sel by (simp add: ids)
qed

text \<open>
  C7. A poll is complete and reports nothing twice, for the eight kinds of meters that it covers: as long as the ages of the
  age gauges are representable, its result is, kind by kind, what every registered meter of these kinds that has not expired
  reports from its state before the poll, each exactly once; no meter is registered or unregistered by it and the invariant
  of the registry is kept. The ninth kind, the sampled monotonic counters, is left out of the poll: whatever meters of that
  kind are registered, the result is the same, and they keep their state.
\<close>

theorem poll_reports_each_measured_meter_once:
  assumes "registry_inv R" and "ages_defined now (rg_meters R)"
  shows "\<exists>R'. registry_measurements now R = Some (R', all_reports now (rg_meter_ttl R) (rg_meters R)) \<and>
    registry_inv R' \<and> same_tables (rg_meters R) (rg_meters R') \<and>
    (\<forall>s. map_option snd (registry_measurements now (R\<lparr>rg_meters := (rg_meters R)\<lparr>am_mono_sampled := s\<rparr>\<rparr>)) =
      Some (all_reports now (rg_meter_ttl R) (rg_meters R)))"
proof -
  obtain R' where R': "registry_measurements now R = Some (R', all_reports now (rg_meter_ttl R) (rg_meters R))" "registry_inv R'"
    by (rule registry_measurements_spec [OF assms])
  have "map_option snd (registry_measurements now (R\<lparr>rg_meters := (rg_meters R)\<lparr>am_mono_sampled := s\<rparr>\<rparr>)) =
      map_option snd (registry_measurements now R)" for s
    by (simp add: registry_measurements_def all_measure_def Let_def split_beta split: option.split)
  then show ?thesis using R' poll_tables [OF R'(1)] by simp
qed

theorem poll_reports_each_measured_meter_once_witness:
  "\<exists>R'. registry_measurements 5 (sample_registry 1) =
     Some (R', all_reports 5 (rg_meter_ttl (sample_registry 1)) (rg_meters (sample_registry 1)))"
proof -
  have "ages_defined 5 (rg_meters (sample_registry 1))"
    by (simp add: ages_defined_def new_registry_def no_meters_def mm_get_values_def empty_map_def split_beta Let_def)
  from poll_reports_each_measured_meter_once [OF registry_inv_new this] show ?thesis by blast
qed

text \<open>
  C26. Expiry removes exactly the expired meters: what stays registered is what has not
  expired, in the same order and under the same handles, the objects themselves (to which
  clients may hold handles) are untouched, age gauges and sampled counters never expire, and the two
  numbers that are logged count the expired meters and all meters that \<open>Size\<close> counts.
\<close>

theorem expiry_removes_exactly_the_expired:
  "let (b, expired, tot) = all_remove_expired now ttl a; late = is_meter_expired now ttl in
    am_age_gauges b = am_age_gauges a \<and> am_mono_sampled b = am_mono_sampled a \<and>
    mm_objs (am_counters b) = mm_objs (am_counters a) \<and>
    mm_table (am_counters b) = filter (\<lambda>e. \<not> late (mm_objs (am_counters a) ! snd e)) (mm_table (am_counters a)) \<and>
    mm_get_values (am_dist_sums b) = filter (\<lambda>m. \<not> is_meter_expired now ttl m) (mm_get_values (am_dist_sums a)) \<and>
    mm_get_values (am_gauges b) = filter (\<lambda>m. \<not> gauge_has_expired now m) (mm_get_values (am_gauges a)) \<and>
    mm_get_values (am_max_gauges b) = filter (\<lambda>m. \<not> is_meter_expired now ttl m) (mm_get_values (am_max_gauges a)) \<and>
    mm_get_values (am_mono_counters b) = filter (\<lambda>m. \<not> is_meter_expired now ttl m) (mm_get_values (am_mono_counters a)) \<and>
    mm_get_values (am_mono_counters_uint b) =
      filter (\<lambda>m. \<not> is_meter_expired now ttl m) (mm_get_values (am_mono_counters_uint a)) \<and>
    mm_get_values (am_timers b) = filter (\<lambda>m. \<not> is_meter_expired now ttl m) (mm_get_values (am_timers a)) \<and>
    tot = all_size a \<and> expired + all_size b = all_size a"
proof -
  have v: "mm_get_values (s\<lparr>mm_table := filter (\<lambda>e. \<not> P (mm_objs s ! snd e)) (mm_table s)\<rparr>) =
      filter (\<lambda>m. \<not> P m) (mm_get_values s)" for P and s :: "'m meter_map"
    by (simp add: mm_get_values_def filter_map comp_def)
  have n: "length (filter P (mm_get_values s)) +
      mm_size (s\<lparr>mm_table := filter (\<lambda>e. \<not> P (mm_objs s ! snd e)) (mm_table s)\<rparr>) = mm_size s"
    for P and s :: "'m meter_map"
    using sum_length_filter_compl [of "\<lambda>e. P (mm_objs s ! snd e)" "mm_table s"]
    by (simp add: mm_size_def mm_get_values_def filter_map comp_def)
  show ?thesis
    using n [of "is_meter_expired now ttl" "am_counters a"] n [of "is_meter_expired now ttl" "am_dist_sums a"]
      n [of "gauge_expired now ttl" "am_gauges a"] n [of "is_meter_expired now ttl" "am_max_gauges a"]
      n [of "is_meter_expired now ttl" "am_mono_counters a"] n [of "is_meter_expired now ttl" "am_mono_counters_uint a"]
      n [of "is_meter_expired now ttl" "am_timers a"]
    by (simp add: all_remove_expired_def mm_remove_expired_spec v all_size_def Let_def gauge_expired_def)
qed

primrec get_age_gauges :: "(int \<times> meter_id) list \<Rightarrow> 'd registry \<Rightarrow> nat list \<times> 'd registry" where
  "get_age_gauges [] R = ([], R)"
| "get_age_gauges (p # ps) R = (let (r, R1) = get_age_gauge (fst p) (snd p) R; (rs, R2) = get_age_gauges ps R1
     in (r # rs, R2))"

lemma get_age_gauge_cases:
  assumes "registry_inv R"
  obtains (known) r where "mm_find (am_age_gauges (rg_meters R)) i = Some r" "get_age_gauge now i R = (r, R)"
  | (added) "mm_find (am_age_gauges (rg_meters R)) i = None"
      "mm_size (am_age_gauges (rg_meters R)) < cf_age_gauge_limit (rg_config R)"
      "rg_config (snd (get_age_gauge now i R)) = rg_config R"
      "mm_find (am_age_gauges (rg_meters (snd (get_age_gauge now i R)))) =
        (mm_find (am_age_gauges (rg_meters R)))(i \<mapsto> fst (get_age_gauge now i R))"
      "mm_size (am_age_gauges (rg_meters (snd (get_age_gauge now i R)))) = Suc (mm_size (am_age_gauges (rg_meters R)))"
  | (dropped) "mm_find (am_age_gauges (rg_meters R)) i = None"
      "mm_size (am_age_gauges (rg_meters R)) = cf_age_gauge_limit (rg_config R)"
      "rg_config (snd (get_age_gauge now i R)) = rg_config R"
      "mm_table (am_age_gauges (rg_meters (snd (get_age_gauge now i R)))) = mm_table (am_age_gauges (rg_meters R))"
      "fst (get_age_gauge now i R) = length (mm_objs (am_age_gauges (rg_meters R)))"
proof (cases "mm_find (am_age_gauges (rg_meters R)) i")
  case (Some r)
  then show thesis by (intro known) (simp_all add: get_age_gauge_def mm_find_def Let_def)
next
  case None
  let ?s = "am_age_gauges (rg_meters R)" and ?m = "new_age_gauge now i"
  have le: "mm_size ?s \<le> cf_age_gauge_limit (rg_config R)" and inv: "mm_inv age_gauge_ok ?s"
    using assms by (simp_all add: registry_inv_def all_inv_def)
  show thesis
  proof (cases "mm_size ?s < cf_age_gauge_limit (rg_config R)")
    case True
    have g: "get_age_gauge now i R = (fst (mm_insert ?m ?s),
        R\<lparr>rg_meters := (rg_meters R)\<lparr>am_age_gauges := snd (mm_insert ?m ?s)\<rparr>\<rparr>)"
      using None True by (simp add: get_age_gauge_def mm_find_def Let_def split_beta)
    show thesis
      by (rule added) (use None True meters.look_put [OF inv, of ?m] in \<open>auto simp: g mm_size_insert\<close>)
  next
    case False
    with None le show thesis
      by (intro dropped) (simp_all add: get_age_gauge_def mm_find_def Let_def mm_alloc_def split_beta)
  qed
qed

text \<open>
  The number of age gauges, which never expire, is bounded by the configured limit whatever
  is requested; an age gauge that is registered stays registered under its handle; and a request
  beyond the limit gives the client a meter of its own that is not registered, so that it is
  never reported.
\<close>

theorem age_gauges_bounded:
  assumes "registry_inv R" and "\<forall>p \<in> set ps. wf_id (snd p)"
  shows "let R' = snd (get_age_gauges ps R); s' = am_age_gauges (rg_meters R') in
    registry_inv R' \<and> mm_size s' \<le> cf_age_gauge_limit (rg_config R) \<and>
    (\<forall>i r. mm_find (am_age_gauges (rg_meters R)) i = Some r \<longrightarrow> mm_find s' i = Some r) \<and>
    (\<forall>p \<in> set ps. mm_find s' (snd p) = None \<longrightarrow> mm_size s' = cf_age_gauge_limit (rg_config R))"
  using assms
proof (induction ps arbitrary: R)
  case Nil
  then show ?case by (simp add: registry_inv_def)
next
  case (Cons p ps)
  obtain now i where p: "p = (now, i)" by fastforce
  let ?R = "snd (get_age_gauge now i R)" and ?F = "\<lambda>R. mm_find (am_age_gauges (rg_meters R))"
  let ?Z = "snd (get_age_gauges ps ?R)" and ?lim = "cf_age_gauge_limit (rg_config R)"
  have inv: "registry_inv ?R" by (rule registry_inv_get_age_gauge) (use Cons.prems p in simp_all)
  have step: "snd (get_age_gauges (p # ps) R) = ?Z" by (simp add: p split_beta)
  have facts: "rg_config ?R = rg_config R \<and> (\<forall>j r. ?F R j = Some r \<longrightarrow> ?F ?R j = Some r) \<and>
    ((\<exists>r. ?F ?R i = Some r) \<or> mm_size (am_age_gauges (rg_meters ?R)) = ?lim)"
    by (rule get_age_gauge_cases [OF Cons.prems(1), of i now]) (auto simp: mm_find_def mm_size_def)
  from Cons.IH [OF inv] Cons.prems(2) facts
  have IH: "registry_inv ?Z" "mm_size (am_age_gauges (rg_meters ?Z)) \<le> ?lim"
    "\<And>j r. ?F ?R j = Some r \<Longrightarrow> ?F ?Z j = Some r"
    "\<And>q. q \<in> set ps \<Longrightarrow> ?F ?Z (snd q) = None \<Longrightarrow> mm_size (am_age_gauges (rg_meters ?Z)) = ?lim"
    by (auto simp: Let_def)
  have "mm_size (am_age_gauges (rg_meters ?Z)) = ?lim" if none: "?F ?Z i = None"
  proof -
    have full: "mm_size (am_age_gauges (rg_meters ?R)) = ?lim" using facts IH(3) none by fastforce
    have "set (map fst (mm_table (am_age_gauges (rg_meters ?R)))) \<subseteq> set (map fst (mm_table (am_age_gauges (rg_meters ?Z))))"
      using IH(3) unfolding mm_find_def by (metis (no_types, lifting) list.set_map map_of_eq_None_iff not_None_eq subsetI)
    moreover have "distinct (map fst (mm_table (am_age_gauges (rg_meters ?R))))"
      using inv by (simp add: registry_inv_def all_inv_def mm_inv_def)
    ultimately have "?lim \<le> mm_size (am_age_gauges (rg_meters ?Z))"
      using full unfolding mm_size_def
      by (metis (no_types, lifting) List.finite_set card_length card_mono distinct_card le_trans length_map)
    with IH(2) show ?thesis by simp
  qed
  with IH facts show ?case unfolding step by (auto simp: Let_def p)
qed

theorem age_gauges_bounded_witness:
  "mm_size (am_age_gauges (rg_meters (snd (get_age_gauges [(1, id_of ''a'' []), (2, id_of ''b'' [])] (sample_registry 1))))) \<le> 1"
proof -
  have "cf_age_gauge_limit (rg_config (sample_registry 1)) = 1"
    by (simp add: new_registry_def sample_config_def Let_def split_beta)
  with age_gauges_bounded [OF registry_inv_new [of ns_durations 0 "sample_config 1"],
      of "[(1, id_of ''a'' []), (2, id_of ''b'' [])]"]
  show ?thesis by (simp add: Let_def del: get_age_gauges.simps)
qed

text \<open>
  Meters of \<open>MonotonicSampled\<close> are never reported, expired or counted: no poll, no
  expiry and no size depends on what their map holds, and none changes it.
\<close>

theorem sampled_counters_are_never_reported:
  "map_option snd (registry_measurements now (R\<lparr>rg_meters := (rg_meters R)\<lparr>am_mono_sampled := s\<rparr>\<rparr>)) =
     map_option snd (registry_measurements now R) \<and>
   all_size (a\<lparr>am_mono_sampled := s\<rparr>) = all_size a \<and>
   am_mono_sampled (fst (all_remove_expired now ttl a)) = am_mono_sampled a \<and>
   snd (all_remove_expired now ttl (a\<lparr>am_mono_sampled := s\<rparr>)) = snd (all_remove_expired now ttl a)"
  by (simp add: registry_measurements_def all_measure_def all_size_def all_remove_expired_def Let_def
      split_beta split: option.split)

lemma live_reports_unregistered:
  "r \<notin> snd ` set (mm_table s) \<Longrightarrow> live_reports expired f (mm_update r g s) = live_reports expired f s"
proof -
  assume r: "r \<notin> snd ` set (mm_table s)"
  then have "mm_get_values (mm_update r g s) = mm_get_values s"
    unfolding mm_get_values_def mm_update_def
    by (auto intro!: map_cong) (metis imageI nth_list_update_neq snd_conv)
  then show ?thesis by (simp add: live_reports_def)
qed

text \<open>
  A handle outlives the registration of its meter, silently: once a counter has not been
  updated for longer than the time to live and the expirer has run, everything added through
  the handle that its owner still holds is lost; polls report as if nothing had been added.
  The publisher and the server keep such handles for their status metrics.
\<close>

theorem expired_handles_lose_updates:
  assumes "registry_inv R" and "wf_id i" and "mm_find (am_counters (rg_meters R)) i = None"
    and "get_counter t i R = (r, R1)" and "rg_meter_ttl R < now - t"
    and "ages_defined later (rg_meters (remove_expired_meters now R1))"
  shows "let R2 = remove_expired_meters now R1 in
    mm_find (am_counters (rg_meters R2)) i = None \<and>
    map_option snd (registry_measurements later (update_counter r (counter_add later d) R2)) =
    map_option snd (registry_measurements later R2)"
proof -
  let ?s = "am_counters (rg_meters R)" and ?R2 = "remove_expired_meters now R1"
  let ?R3 = "update_counter r (counter_add later d) ?R2"
  have inv: "mm_inv counter_ok ?s" using assms(1) by (simp add: registry_inv_def all_inv_def)
  have none: "map_of (mm_table ?s) i = None" using assms(3) by (simp add: mm_find_def)
  have r: "r = length (mm_objs ?s)"
    and R1: "R1 = R\<lparr>rg_meters := (rg_meters R)\<lparr>am_counters :=
      ?s\<lparr>mm_objs := mm_objs ?s @ [new_counter t i], mm_table := mm_table ?s @ [(i, length (mm_objs ?s))]\<rparr>\<rparr>\<rparr>"
    using assms(4) none by (auto simp: get_counter_def mm_insert_def mm_alloc_def)
  have "is_meter_expired now (rg_meter_ttl R) (new_counter t i)"
    using assms(5) by (simp add: is_meter_expired_def new_counter_def)
  then have tab: "mm_table (am_counters (rg_meters ?R2)) = filter (\<lambda>e. \<not> is_meter_expired now (rg_meter_ttl R)
      (mm_objs (am_counters (rg_meters R1)) ! snd e)) (mm_table ?s)"
    by (simp add: remove_expired_meters_def all_remove_expired_def mm_remove_expired_spec Let_def R1)
  then have sub: "set (mm_table (am_counters (rg_meters ?R2))) \<subseteq> set (mm_table ?s)" by auto
  then have gone: "r \<notin> snd ` set (mm_table (am_counters (rg_meters ?R2)))"
    using inv unfolding r mm_inv_def by fastforce
  have i: "mm_find (am_counters (rg_meters ?R2)) i = None"
    using sub none by (auto simp: mm_find_def map_of_eq_None_iff)
  have inv2: "registry_inv ?R2"
    using registry_inv_get(1) [OF assms(1,2), of t] assms(4)
    by (intro registry_inv_remove_expired) simp
  have inv3: "registry_inv ?R3"
    by (rule update_counter_inv [OF inv2]) (simp_all add: counter_add_keeps)
  have "all_reports later (rg_meter_ttl ?R3) (rg_meters ?R3) = all_reports later (rg_meter_ttl ?R2) (rg_meters ?R2)"
    by (simp add: all_reports_def update_counter_def live_reports_unregistered [OF gone])
  moreover have "ages_defined later (rg_meters ?R3)"
    using assms(6) by (simp add: update_counter_def ages_defined_def)
  ultimately have "map_option snd (registry_measurements later ?R3) = map_option snd (registry_measurements later ?R2)"
    using registry_measurements_spec [OF inv2 assms(6)] registry_measurements_spec [OF inv3]
    by (metis option.simps(9) snd_conv)
  with i show ?thesis by (simp add: Let_def)
qed

theorem expired_handles_lose_updates_witness:
  "map_option snd (registry_measurements 2000000000000
     (update_counter 0 (counter_add 2000000000000 (dint 1))
       (remove_expired_meters 1000000000000 (snd (get_counter 7 (id_of ''c'' []) (sample_registry 1)))))) =
   map_option snd (registry_measurements 2000000000000
       (remove_expired_meters 1000000000000 (snd (get_counter 7 (id_of ''c'' []) (sample_registry 1)))))"
proof -
  let ?R = "sample_registry 1" and ?i = "id_of ''c'' []"
  have R: "rg_meter_ttl (sample_registry n) = 900000000000" "am_counters (rg_meters (sample_registry n)) = empty_map"
      "am_age_gauges (rg_meters (sample_registry n)) = empty_map" for n
    by (simp_all add: new_registry_def no_meters_def sample_config_def ns_durations_def Let_def split_beta
        int64_min_def int64_max_def)
  have g: "get_counter 7 ?i ?R = (0, snd (get_counter 7 ?i ?R))"
    by (simp add: get_counter_def mm_insert_def mm_alloc_def R empty_map_def split_beta)
  have "ages_defined 2000000000000 (rg_meters (remove_expired_meters 1000000000000 (snd (get_counter 7 ?i ?R))))"
    by (simp add: ages_defined_def remove_expired_meters_def all_remove_expired_def mm_remove_expired_spec
        get_counter_def split_beta Let_def R mm_get_values_def empty_map_def)
  from expired_handles_lose_updates [OF registry_inv_new wf_id_plain _ g _ this, of "dint 1"]
  show ?thesis by (simp add: R mm_find_def empty_map_def Let_def)
qed

end
