(* ===== verification/PercBuckets.thy ===== *)
theory PercBuckets
  imports Prelude Doubles
begin

text \<open>
  The percentile buckets: the table that \<open>tools/gen_perc_bucket_values.cc\<close> generates, the
  tags of \<open>tools/gen_perc_bucket_tags.cc\<close>, and the index computation of
  \<open>spectator/percentile_buckets.cc\<close>, which finds the bucket of a value without a search.
\<close>

section \<open>The generated tables\<close>

definition kDigits :: nat where
  "kDigits = 2"

function fill_group :: "int \<Rightarrow> int \<Rightarrow> int \<Rightarrow> int list" where
  \<comment> \<open>\<open>while (current < next) { push_back(current); current += delta; }\<close>, for a positive delta\<close>
  "fill_group current next delta =
     (if 0 < delta \<and> current < next then current # fill_group (current + delta) next delta else [])"
  by auto
termination
  by (relation "measure (\<lambda>(current, next, delta). nat (next - current))") auto

declare fill_group.simps [simp del]

definition gen_step :: "nat \<Rightarrow> int list \<times> nat list \<Rightarrow> int list \<times> nat list" where
  \<comment> \<open>one round of the loop over \<open>exp\<close>; the shift of the last round wraps around to zero\<close>
  "gen_step ex st =
     (let (bucketValues, powerOf4Index) = st;
          current = (2 ^ ex :: int); delta = current div 3;
          next = wrap64 (wrap64 (current * 2 ^ kDigits) - delta)
      in (bucketValues @ fill_group current next delta, powerOf4Index @ [length bucketValues]))"

definition gen_tables :: "int list \<times> nat list" where
  "gen_tables = (let (bv, p4) = fold gen_step (map (\<lambda>k. k * kDigits) [1..<32]) ([1, 2, 3], [0])
     in (bv @ [int64_max], p4))"

definition kBucketValues :: "int list" where
  "kBucketValues = fst gen_tables"

definition kPowerOf4Index :: "nat list" where
  "kPowerOf4Index = snd gen_tables"

definition hex_digit :: "nat \<Rightarrow> char" where
  "hex_digit d = ''0123456789ABCDEF'' ! d"

definition perc_tag :: "char \<Rightarrow> nat \<Rightarrow> string" where
  \<comment> \<open>\<open>"%c%04zX"\<close>, for indices of at most four hexadecimal digits\<close>
  "perc_tag prefix i = [prefix, hex_digit (i div 4096 mod 16), hex_digit (i div 256 mod 16),
     hex_digit (i div 16 mod 16), hex_digit (i mod 16)]"

definition kTimerTags :: "string list" where
  "kTimerTags = map (perc_tag (CHR ''T'')) [0..<276]"

definition kDistTags :: "string list" where
  "kDistTags = map (perc_tag (CHR ''D'')) [0..<276]"

section \<open>The index of a value\<close>

definition PercentileBucketIndexOf :: "int \<Rightarrow> nat" where
  "PercentileBucketIndexOf v =
     (if v \<le> 0 then 0
      else if v \<le> 4 then nat v
      else let shift = ilog2_nat (nat v);  \<comment> \<open>\<open>64 - __builtin_clzll(v) - 1\<close>\<close>
               prevPowerOf2 = v div 2 ^ shift * 2 ^ shift;
               (shift, prevPowerOf4) =
                 (if shift mod 2 \<noteq> 0 then (shift - 1, prevPowerOf2 div 2) else (shift, prevPowerOf2));
               base = prevPowerOf4; delta = base div 3;
               offset = nat ((v - base) div delta);
               pos = offset + kPowerOf4Index ! (shift div 2)
           in if length kBucketValues - 1 \<le> pos then length kBucketValues - 1 else pos + 1)"

definition PercentileBucket :: "int \<Rightarrow> int" where
  "PercentileBucket v = kBucketValues ! PercentileBucketIndexOf v"

section \<open>The tables in closed form\<close>

definition bucket_value :: "nat \<Rightarrow> int" where
  "bucket_value i =
     (if i < 14 then int i + 1
      else if i < 275 then (let k = (i - 14) div 9 + 2; j = (i - 14) mod 9 in 4 ^ k + int j * (4 ^ k div 3))
      else int64_max)"

definition power4_index :: "nat \<Rightarrow> nat" where
  "power4_index k = (if k = 0 then 0 else if k = 1 then 3 else 14 + 9 * (k - 2))"

lemma kBucketValues_eq: "kBucketValues = map bucket_value [0..<276]"
  by code_simp

lemma kPowerOf4Index_eq: "kPowerOf4Index = map power4_index [0..<32]"
  by code_simp

lemma length_tables [simp]: "length kBucketValues = 276" "length kPowerOf4Index = 32"
  by (simp_all add: kBucketValues_eq kPowerOf4Index_eq)

lemma bucket_nth: "i < 276 \<Longrightarrow> kBucketValues ! i = bucket_value i"
  unfolding kBucketValues_eq by (subst nth_map) simp_all

lemma power4_nth: "k < 32 \<Longrightarrow> kPowerOf4Index ! k = power4_index k"
  unfolding kPowerOf4Index_eq by (subst nth_map) simp_all

abbreviation third :: "nat \<Rightarrow> int" where
  "third k \<equiv> 4 ^ k div 3"

lemma pow4_third: "(4::int) ^ k = 3 * third k + 1"
proof -
  have "(4 * x) mod 3 = x mod (3::int)" for x by presburger
  then have "(4::int) ^ k mod 3 = 1" by (induction k) simp_all
  then show ?thesis using div_mult_mod_eq [of "(4::int) ^ k" 3] by simp
qed

lemma bucket_value_group:
  assumes "2 \<le> k" and "k \<le> 30" and "j \<le> 8"
  shows "bucket_value (14 + 9 * (k - 2) + j) = 4 ^ k + int j * third k"
proof -
  define n where "n = k - 2"
  then have k: "k = n + 2" "n \<le> 28" using assms(1,2) by simp_all
  have "(14 + 9 * n + j - 14) div 9 = n" "(14 + 9 * n + j - 14) mod 9 = j" using assms(3) by auto
  then show ?thesis using k assms(3) by (simp add: bucket_value_def Let_def)
qed

lemma bucket_value_step: "i < 275 \<Longrightarrow> bucket_value i < bucket_value (Suc i)"
proof -
  assume i: "i < 275"
  show ?thesis
  proof (cases "14 \<le> i")
    case False
    then show ?thesis by (cases "i = 13") (simp_all add: bucket_value_def)
  next
    case True
    define n where "n = (i - 14) div 9"
    define j where "j = (i - 14) mod 9"
    have "i - 14 = 9 * n + j" by (simp add: n_def j_def)
    then have ij: "i = 14 + 9 * (n + 2 - 2) + j" "j \<le> 8" using True by (simp_all add: j_def)
    with i have n: "n \<le> 28" by linarith
    have v: "bucket_value i = 4 ^ (n + 2) + int j * third (n + 2)"
      unfolding ij(1) by (rule bucket_value_group) (use n ij(2) in simp_all)
    have "(4::int) ^ 1 \<le> 4 ^ (n + 2)" by (rule power_increasing) simp_all
    then have "(3::int) \<le> 4 ^ (n + 2)" by (simp only: power_one_right)
    then have t: "0 < third (n + 2)" using pos_imp_zdiv_pos_iff [of 3 "4 ^ (n + 2)"] by linarith
    show ?thesis
    proof (cases "j = 8")
      case False
      then have "bucket_value (14 + 9 * (n + 2 - 2) + Suc j) = 4 ^ (n + 2) + int (Suc j) * third (n + 2)"
        using n ij(2) by (intro bucket_value_group) simp_all
      moreover have "Suc i = 14 + 9 * (n + 2 - 2) + Suc j" using ij(1) by simp
      ultimately show ?thesis using t v by (simp add: algebra_simps)
    next
      case True
      note v8 = v [unfolded True]
      show ?thesis
      proof (cases "n = 28")
        case True
        then have "bucket_value (Suc i) = int64_max" using ij(1) \<open>j = 8\<close> by (simp add: bucket_value_def)
        then show ?thesis using v8 True by (simp add: int64_max_def)
      next
        case False
        then have "bucket_value (14 + 9 * (Suc n + 2 - 2) + 0) = 4 ^ (Suc n + 2) + int 0 * third (Suc n + 2)"
          using n by (intro bucket_value_group) simp_all
        moreover have "Suc i = 14 + 9 * (Suc n + 2 - 2) + 0" using ij(1) \<open>j = 8\<close> by simp
        ultimately have "bucket_value (Suc i) = 4 * 4 ^ (n + 2)" by simp
        then show ?thesis using v8 t pow4_third [of "n + 2"] by (simp del: power_Suc)
      qed
    qed
  qed
qed

text \<open>The group of a value: the power of four below it and its offset in the group.\<close>

lemma bucket_group:
  assumes "4 < v" and "v \<le> int64_max"
  obtains k where "1 \<le> k" "k \<le> 31" "4 ^ k \<le> v" "v < 4 ^ Suc k"
    "PercentileBucketIndexOf v = (let pos = nat ((v - 4 ^ k) div third k) + power4_index k
       in if 275 \<le> pos then 275 else pos + 1)"
proof -
  define s where "s = ilog2_nat (nat v)"
  have "2 ^ s \<le> nat v" "nat v < 2 ^ Suc s" using ilog2_nat_bounds [of "nat v"] assms(1) by (simp_all add: s_def)
  then have s: "2 ^ s \<le> v" "v < 2 * 2 ^ s" using assms(1) by (simp_all add: le_nat_iff nat_less_iff)
  have "(2::int) ^ s < 2 ^ 63" using s(1) assms(2) by (simp add: int64_max_def)
  then have s63: "s < 63" using power_less_imp_less_exp [of "2::int" s 63] by simp
  have s2: "2 \<le> s"
  proof (rule ccontr)
    assume "\<not> 2 \<le> s"
    then have "(2::int) ^ s \<le> 2 ^ 1" by (intro power_increasing) auto
    with s(2) assms(1) show False by simp
  qed
  have one: "v div 2 ^ s = 1" using s by (intro int_div_pos_eq [of _ _ 1 "v - 2 ^ s"]) auto
  define k where "k = s div 2"
  have sk: "s = 2 * k \<or> s = Suc (2 * k)" unfolding k_def by presburger
  have p4: "(2::int) ^ (2 * k) = 4 ^ k" by (simp add: power_mult)
  have base: "(if s mod 2 \<noteq> 0 then (s - 1, v div 2 ^ s * 2 ^ s div 2) else (s, v div 2 ^ s * 2 ^ s)) = (2 * k, 4 ^ k)"
    using sk by (auto simp: one p4)
  have idx: "PercentileBucketIndexOf v = (let pos = nat ((v - 4 ^ k) div third k) + kPowerOf4Index ! k
       in if 275 \<le> pos then 275 else pos + 1)"
    unfolding PercentileBucketIndexOf_def s_def [symmetric] Let_def base prod.case length_tables
    using assms(1) by simp
  have k: "1 \<le> k" "k \<le> 31" using s2 s63 by (auto simp: k_def)
  have "4 ^ k \<le> v" "v < 4 ^ Suc k" using sk s by (auto simp: p4)
  with k idx power4_nth [of k] show thesis by (intro that [of k]) simp_all
qed

lemma bucket_offset:
  fixes v :: int
  assumes "1 \<le> k" and "4 ^ k \<le> v" and "v < 4 ^ Suc k"
  defines "o4 \<equiv> nat ((v - 4 ^ k) div third k)"
  shows "4 ^ k + int o4 * third k \<le> v" and "v < 4 ^ k + (int o4 + 1) * third k"
    and "2 \<le> k \<Longrightarrow> o4 \<le> 9" and "o4 \<le> 11" and "0 < third k"
proof -
  have pos: "(4::int) ^ 1 \<le> 4 ^ k" using assms(1) by (intro power_increasing) auto
  then show d: "0 < third k" by simp
  have o: "int o4 = (v - 4 ^ k) div third k"
    unfolding o4_def using assms(2) d by (simp add: pos_imp_zdiv_nonneg_iff)
  define r where "r = (v - 4 ^ k) mod third k"
  have "v - 4 ^ k = (v - 4 ^ k) div third k * third k + r"
    unfolding r_def by (rule div_mult_mod_eq [symmetric])
  moreover have "0 \<le> r" "r < third k" using d by (simp_all add: r_def)
  ultimately have "(v - 4 ^ k) div third k * third k \<le> v - 4 ^ k" "v - 4 ^ k < ((v - 4 ^ k) div third k + 1) * third k"
    by (simp_all only: distrib_right mult_1)
  then show lo: "4 ^ k + int o4 * third k \<le> v" and "v < 4 ^ k + (int o4 + 1) * third k"
    by (simp_all add: o)
  have up: "int o4 * third k < 9 * third k + 3"
    using lo assms(3) pow4_third [of k] by (simp add: algebra_simps)
  show "o4 \<le> 9" if "2 \<le> k"
  proof -
    have "(4::int) ^ 2 \<le> 4 ^ k" using that by (intro power_increasing) auto
    then have "5 \<le> third k" by simp
    then show ?thesis using up mult_right_mono [of 10 "int o4" "third k"] by fastforce
  qed
  show "o4 \<le> 11" using up d mult_right_mono [of 12 "int o4" "third k"] by fastforce
qed

section \<open>Properties\<close>

text \<open>
  The generated tables have the sizes that the headers and the tag tables assume, the bounds of
  the buckets are strictly increasing from 1 to the largest 64-bit integer, and the second table
  holds the position of every power of four up to the last one that has a bucket.
\<close>

theorem bucket_tables_shape:
  "length kBucketValues = 276 \<and> length kTimerTags = 276 \<and> length kDistTags = 276 \<and>
   sorted_wrt (<) kBucketValues \<and> hd kBucketValues = 1 \<and> last kBucketValues = int64_max \<and>
   length kPowerOf4Index = 32 \<and> (\<forall>k \<in> set [0..<31]. kBucketValues ! (kPowerOf4Index ! k) = 4 ^ k)"
proof -
  have "sorted_wrt (<) (map bucket_value [0..<276])"
    by (subst sorted_wrt_iff_nth_Suc_transp) (auto simp: transp_def bucket_value_step)
  moreover have "kBucketValues ! (kPowerOf4Index ! k) = 4 ^ k" if k: "k < 31" for k
  proof -
    have "kBucketValues ! (kPowerOf4Index ! k) = bucket_value (power4_index k)"
      using k by (simp add: power4_nth bucket_nth power4_index_def)
    also have "\<dots> = 4 ^ k"
    proof (cases "2 \<le> k")
      case True
      then show ?thesis using bucket_value_group [of k 0] k by (simp add: power4_index_def)
    next
      case False
      then have "k = 0 \<or> k = 1" by linarith
      then show ?thesis by (auto simp: power4_index_def bucket_value_def)
    qed
    finally show ?thesis .
  qed
  moreover have "hd kBucketValues = 1" "last kBucketValues = int64_max"
    by (simp_all add: hd_conv_nth last_conv_nth bucket_nth bucket_value_def flip: length_0_conv)
  ultimately show ?thesis
    by (simp add: kBucketValues_eq [symmetric] kTimerTags_def kDistTags_def)
qed

theorem bucket_tables_shape_witness:
  "kBucketValues ! (kPowerOf4Index ! 2) = 16"
proof -
  have "(2::nat) \<in> set [0..<31]" by simp
  with bucket_tables_shape have "kBucketValues ! (kPowerOf4Index ! 2) = 4 ^ 2" by blast
  then show ?thesis by simp
qed

lemma bucket_upper:
  assumes "4 < v" and "v \<le> int64_max"
  shows "v \<le> PercentileBucket v"
proof -
  obtain k where k: "1 \<le> k" "k \<le> 31" "4 ^ k \<le> v" "v < 4 ^ Suc k"
    "PercentileBucketIndexOf v = (let pos = nat ((v - 4 ^ k) div third k) + power4_index k
       in if 275 \<le> pos then 275 else pos + 1)"
    by (rule bucket_group [OF assms])
  define o4 where "o4 = nat ((v - 4 ^ k) div third k)"
  note O = bucket_offset [OF k(1,3,4), folded o4_def]
  have idx: "PercentileBucketIndexOf v = (if 275 \<le> o4 + power4_index k then 275 else o4 + power4_index k + 1)"
    using k(5) by (simp add: o4_def Let_def)
  show ?thesis
  proof (cases "275 \<le> o4 + power4_index k")
    case True
    then show ?thesis using idx assms(2) by (simp add: PercentileBucket_def bucket_nth bucket_value_def)
  next
    case False
    then have b: "PercentileBucket v = bucket_value (o4 + power4_index k + 1)"
      by (simp add: PercentileBucket_def idx bucket_nth)
    show ?thesis
    proof (cases "k = 1")
      case True
      then have "v = int o4 + 4" using k(3) by (simp add: o4_def)
      moreover have "bucket_value 15 = 21" by code_simp
      moreover have "o4 = 11 \<or> o4 = 10 \<or> o4 < 10" using O(4) by linarith
      moreover have "bucket_value 14 = 16" by code_simp
      ultimately show ?thesis using True unfolding b
        by (auto simp: power4_index_def bucket_value_def)
    next
      case False
      then have k2: "2 \<le> k" using k(1) by simp
      have p: "power4_index k = 14 + 9 * (k - 2)" using k2 by (simp add: power4_index_def)
      have k30: "k \<le> 30" using \<open>\<not> 275 \<le> o4 + power4_index k\<close> p k(2) by linarith
      consider "o4 \<le> 7" | "o4 = 8" | "o4 = 9" using O(3) [OF k2] by linarith
      then show ?thesis
      proof cases
        case 1
        then have "bucket_value (o4 + power4_index k + 1) = 4 ^ k + int (o4 + 1) * third k"
          using bucket_value_group [OF k2 k30, of "o4 + 1"] by (simp add: p ac_simps)
        then show ?thesis using O(2) b by (simp add: algebra_simps)
      next
        case 2
        have "bucket_value (14 + 9 * (Suc k - 2)) = 4 ^ Suc k" if "Suc k \<le> 30"
          using bucket_value_group [of "Suc k" 0] that k2 by simp
        moreover have "bucket_value 275 = int64_max" by (simp add: bucket_value_def)
        moreover have "o4 + power4_index k + 1 = 14 + 9 * (Suc k - 2)" using 2 p k2 by simp
        moreover have "k = 30 \<or> Suc k \<le> 30" using k30 by linarith
        ultimately show ?thesis using b k(4) assms(2) by auto
      next
        case 3
        then have "Suc k \<le> 30" using \<open>\<not> 275 \<le> o4 + power4_index k\<close> p by linarith
        then have "bucket_value (14 + 9 * (Suc k - 2) + 1) = 4 ^ Suc k + third (Suc k)"
          using bucket_value_group [of "Suc k" 1] k2 by simp
        moreover have "o4 + power4_index k + 1 = 14 + 9 * (Suc k - 2) + 1" using 3 p k2 by simp
        moreover have "0 \<le> third (Suc k)" by (simp add: div_int_pos_iff)
        ultimately show ?thesis using b k(4) by simp
      qed
    qed
  qed
qed

lemma bucket_index_lt: "v \<le> int64_max \<Longrightarrow> PercentileBucketIndexOf v < 276"
proof (cases "4 < v")
  case True
  assume "v \<le> int64_max"
  with True obtain k where "PercentileBucketIndexOf v = (let pos = nat ((v - 4 ^ k) div third k) + power4_index k
       in if 275 \<le> pos then 275 else pos + 1)" by (rule bucket_group)
  then show ?thesis by (simp add: Let_def split: if_splits)
next
  case False
  then show ?thesis by (simp add: PercentileBucketIndexOf_def) linarith
qed

lemma bucket_upper_int64: "in_int64 v \<Longrightarrow> v \<le> PercentileBucket v"
proof (cases "4 < v")
  case True
  then show "in_int64 v \<Longrightarrow> ?thesis" using bucket_upper by (simp add: in_int64_def)
next
  case False
  then have "v \<le> 0 \<or> v = 1 \<or> v = 2 \<or> v = 3 \<or> v = 4" by linarith
  then show ?thesis
    by (elim disjE) (simp_all add: PercentileBucket_def PercentileBucketIndexOf_def bucket_nth bucket_value_def)
qed

text \<open>
  C29. The index computation never leaves the table, and the bucket it finds for a value, negative
  or not, is an upper bound of the value.
\<close>

theorem bucket_covers_value:
  assumes "in_int64 v"
  shows "PercentileBucketIndexOf v < length kBucketValues \<and> v \<le> PercentileBucket v"
  using bucket_upper_int64 [OF assms] bucket_index_lt [of v] assms by (simp add: in_int64_def)

theorem bucket_covers_value_witness:
  "int64_max \<le> PercentileBucket int64_max \<and> 87 \<le> PercentileBucket 87"
proof -
  have "in_int64 int64_max" "in_int64 87" by (simp_all add: in_int64_def int64_min_def int64_max_def)
  then show ?thesis using bucket_covers_value by blast
qed

lemma power4_index_mono: "1 \<le> k \<Longrightarrow> k < k' \<Longrightarrow> power4_index k + (if k = 1 then 11 else 9) \<le> power4_index k'"
  by (auto simp: power4_index_def)

lemma small_index: "x \<le> 4 \<Longrightarrow> PercentileBucketIndexOf x \<le> 4"
  by (simp add: PercentileBucketIndexOf_def nat_le_iff)

lemma grouped:
  assumes "4 < v" and "v \<le> int64_max"
  obtains k o' where "1 \<le> k" "k \<le> 31" "4 ^ k \<le> v" "v < 4 ^ Suc k" "o' = nat ((v - 4 ^ k) div third k)"
    "PercentileBucketIndexOf v = (if 275 \<le> o' + power4_index k then 275 else o' + power4_index k + 1)"
  by (rule bucket_group [OF assms]) (simp add: Let_def)

lemma bucket_index_mono:
  assumes "v \<le> w" and "w \<le> int64_max"
  shows "PercentileBucketIndexOf v \<le> PercentileBucketIndexOf w"
proof (cases "4 < w")
  case False
  then show ?thesis using assms(1) by (auto simp: PercentileBucketIndexOf_def)
next
  case True
  obtain k ow where k: "1 \<le> k" "k \<le> 31" "4 ^ k \<le> w" "w < 4 ^ Suc k" and ow: "ow = nat ((w - 4 ^ k) div third k)"
    and iw: "PercentileBucketIndexOf w = (if 275 \<le> ow + power4_index k then 275 else ow + power4_index k + 1)"
    by (rule grouped [OF True assms(2)])
  note W = bucket_offset [OF k(1,3,4), folded ow]
  show ?thesis
  proof (cases "4 < v")
    case False
    have "3 \<le> power4_index k" using k(1) by (simp add: power4_index_def)
    then show ?thesis using small_index [of v] False k(1) W(1) True iw
      by (cases "ow + power4_index k = 3") (auto simp: power4_index_def ow split: if_splits)
  next
    case True
    obtain k' ov where k': "1 \<le> k'" "k' \<le> 31" "4 ^ k' \<le> v" "v < 4 ^ Suc k'" and ov: "ov = nat ((v - 4 ^ k') div third k')"
      and iv: "PercentileBucketIndexOf v = (if 275 \<le> ov + power4_index k' then 275 else ov + power4_index k' + 1)"
      by (rule grouped [OF True]) (use assms in auto)
    note V = bucket_offset [OF k'(1,3,4), folded ov]
    have "(4::int) ^ k' < 4 ^ Suc k" using k'(3) k(4) assms(1) by linarith
    then have le: "k' \<le> k" by (metis less_Suc_eq_le one_less_numeral_iff power_less_imp_less_exp semiring_norm(76))
    have "ov + power4_index k' \<le> ow + power4_index k"
    proof (cases "k' = k")
      case True
      have "(v - 4 ^ k) div third k \<le> (w - 4 ^ k) div third k"
        using W(5) assms(1) by (intro zdiv_mono1) auto
      then show ?thesis using True by (simp add: ov ow nat_mono)
    next
      case False
      then have "power4_index k' + (if k' = 1 then 11 else 9) \<le> power4_index k"
        using le k'(1) by (intro power4_index_mono) simp_all
      moreover have "ov \<le> (if k' = 1 then 11 else 9)" using V(3,4) k'(1) by simp
      ultimately show ?thesis by linarith
    qed
    then show ?thesis using iv iw by simp
  qed
qed

lemma bucket_index_tight_small:
  assumes "w \<le> 4" and "0 < PercentileBucketIndexOf w"
  shows "kBucketValues ! (PercentileBucketIndexOf w - 1) \<le> w"
proof -
  have "w \<le> 0 \<or> w = 1 \<or> w = 2 \<or> w = 3 \<or> w = 4" using assms(1) by linarith
  then show ?thesis using assms(2)
    by (elim disjE) (simp_all add: PercentileBucketIndexOf_def bucket_nth bucket_value_def)
qed

lemma bucket_index_tight:
  assumes "4 < w" and "w \<le> int64_max"
  shows "kBucketValues ! (PercentileBucketIndexOf w - 1) \<le> w \<or> (\<exists>k. 2 \<le> k \<and> 4 ^ k - 3 \<le> w \<and> w < 4 ^ k)"
proof -
  obtain k ow where k: "1 \<le> k" "k \<le> 31" "4 ^ k \<le> w" "w < 4 ^ Suc k" and ow: "ow = nat ((w - 4 ^ k) div third k)"
    and iw: "PercentileBucketIndexOf w = (if 275 \<le> ow + power4_index k then 275 else ow + power4_index k + 1)"
    by (rule grouped [OF assms])
  note W = bucket_offset [OF k(1,3,4), folded ow]
  consider (first) "k = 1" | (last) "2 \<le> k" "ow = 9" | (top) "k = 31" "2 \<le> k" | (inside) "2 \<le> k" "k \<le> 30" "ow \<le> 8"
    using k(1,2) W(3) by fastforce
  then show ?thesis
  proof cases
    case first
    then have "w = int ow + 4" using k(3) by (simp add: ow)
    then show ?thesis using iw first W(4) k(4)
      by (cases "ow = 11") (auto simp: power4_index_def bucket_nth bucket_value_def intro: exI [of _ 2])
  next
    case last
    then have "4 ^ Suc k - 3 \<le> w" using W(1) pow4_third [of k] by simp
    then show ?thesis using last k(4) by (intro disjI2 exI [of _ "Suc k"]) simp
  next
    case top
    then have "PercentileBucketIndexOf w = 275" using iw by (simp add: power4_index_def)
    moreover have "bucket_value 274 \<le> 4 ^ 31" by code_simp
    ultimately show ?thesis using k(3) top by (simp add: bucket_nth)
  next
    case inside
    have p: "power4_index k = 14 + 9 * (k - 2)" using inside(1) by (simp add: power4_index_def)
    then have "ow + power4_index k < 275" using inside by simp
    then have "kBucketValues ! (PercentileBucketIndexOf w - 1) = 4 ^ k + int ow * third k"
      using bucket_value_group [OF inside] iw by (simp add: bucket_nth p ac_simps)
    then show ?thesis using W(1) by simp
  qed
qed

text \<open>
  The index computation is monotone, so that the order of the buckets is the order of the
  values, and it is tight: the bucket below the one it finds does not exceed the value, except
  for the at most three values just below a power of four (such as 15, which is put into the
  bucket of 21 although that of 16 would do).
\<close>

theorem bucket_index_monotone_and_tight:
  assumes "v \<le> w" and "w \<le> int64_max"
  shows "PercentileBucketIndexOf v \<le> PercentileBucketIndexOf w \<and>
    (0 < PercentileBucketIndexOf w \<longrightarrow> kBucketValues ! (PercentileBucketIndexOf w - 1) \<le> w \<or>
      (\<exists>k. 2 \<le> k \<and> 4 ^ k - 3 \<le> w \<and> w < 4 ^ k))"
  using bucket_index_mono [OF assms] bucket_index_tight [OF _ assms(2)] bucket_index_tight_small [of w]
  by (cases "4 < w") simp_all

theorem bucket_index_monotone_and_tight_witness:
  "PercentileBucketIndexOf 15 \<le> PercentileBucketIndexOf 1000"
proof -
  have "(1000::int) \<le> int64_max" by (simp add: int64_max_def)
  with bucket_index_monotone_and_tight [of 15 1000] show ?thesis by simp
qed

end
