(* ===== verification/PercMeters.thy ===== *)
theory PercMeters
  imports Registry PercBuckets
begin

text \<open>
  The percentile timer and the percentile distribution summary
  (\<open>spectator/percentile_timer.h\<close>, \<open>spectator/percentile_distribution_summary.h\<close>): a timer or
  summary of the registry together with one counter per bucket, requested from the registry
  at every recording.
\<close>

definition std_clamp :: "('a \<Rightarrow> 'a \<Rightarrow> bool) \<Rightarrow> 'a \<Rightarrow> 'a \<Rightarrow> 'a \<Rightarrow> 'a" where
  "std_clamp ls v lo hi = (if ls v lo then lo else if ls hi v then hi else v)"

definition update_timer :: "nat \<Rightarrow> (timer \<Rightarrow> timer) \<Rightarrow> 'd registry \<Rightarrow> 'd registry" where
  "update_timer r f R = R\<lparr>rg_meters := (rg_meters R)\<lparr>am_timers := mm_update r f (am_timers (rg_meters R))\<rparr>\<rparr>"

definition update_dist :: "nat \<Rightarrow> (dist_summary \<Rightarrow> dist_summary) \<Rightarrow> 'd registry \<Rightarrow> 'd registry" where
  "update_dist r f R = R\<lparr>rg_meters := (rg_meters R)\<lparr>am_dist_sums := mm_update r f (am_dist_sums (rg_meters R))\<rparr>\<rparr>"

definition perc_counter_id :: "string list \<Rightarrow> nat \<Rightarrow> meter_id \<Rightarrow> meter_id" where
  "perc_counter_id perc_tags index i =
     with_tags2 r_statistic r_percentile r_percentile (sanitize (perc_tags ! index)) i"

record 'd perc_timer =
  pt_id :: meter_id
  pt_min :: 'd
  pt_max :: 'd
  pt_timer :: nat

definition new_perc_timer :: "int \<Rightarrow> meter_id \<Rightarrow> 'd \<Rightarrow> 'd \<Rightarrow> 'd registry \<Rightarrow> 'd perc_timer \<times> 'd registry" where
  "new_perc_timer now i lo hi R = (let (r, R1) = get_timer now i R
     in (\<lparr>pt_id = i, pt_min = lo, pt_max = hi, pt_timer = r\<rparr>, R1))"

definition perc_timer_record :: "'d absl_time \<Rightarrow> int \<Rightarrow> 'd \<Rightarrow> 'd perc_timer \<Rightarrow> 'd registry \<Rightarrow> 'd registry" where
  "perc_timer_record A now amount p R =
     (let R1 = update_timer (pt_timer p) (timer_record A now amount) R;
          restricted = std_clamp (ab_less A) amount (pt_min p) (pt_max p);
          index = PercentileBucketIndexOf (ab_to_ns A restricted);
          (r, R2) = get_counter now (perc_counter_id kTimerTags index (pt_id p)) R1
      in update_counter r (counter_increment now) R2)"

record perc_dist =
  pd_id :: meter_id
  pd_min :: int
  pd_max :: int
  pd_dist :: nat

definition new_perc_dist :: "int \<Rightarrow> meter_id \<Rightarrow> int \<Rightarrow> int \<Rightarrow> 'd registry \<Rightarrow> perc_dist \<times> 'd registry" where
  "new_perc_dist now i lo hi R = (let (r, R1) = get_dist_summary now i R
     in (\<lparr>pd_id = i, pd_min = lo, pd_max = hi, pd_dist = r\<rparr>, R1))"

definition perc_dist_record :: "int \<Rightarrow> int \<Rightarrow> perc_dist \<Rightarrow> 'd registry \<Rightarrow> 'd registry" where
  "perc_dist_record now amount p R =
     (if amount < 0 then R
      else let R1 = update_dist (pd_dist p) (dist_summary_record now (dint amount)) R;
               restricted = std_clamp (<) amount (pd_min p) (pd_max p);
               index = PercentileBucketIndexOf restricted;
               (r, R2) = get_counter now (perc_counter_id kDistTags index (pd_id p)) R1
           in update_counter r (counter_increment now) R2)"

section \<open>The counters of the buckets\<close>

definition count_of :: "'d registry \<Rightarrow> meter_id \<Rightarrow> double" where
  \<comment> \<open>the pending count of the counter registered under an identity\<close>
  "count_of R i = (case mm_find (am_counters (rg_meters R)) i of None \<Rightarrow> dpos0
     | Some r \<Rightarrow> c_count (mm_objs (am_counters (rg_meters R)) ! r))"

lemma count_of_get_counter:
  assumes "registry_inv R"
  shows "count_of (snd (get_counter now i R)) j = count_of R j"
proof -
  let ?s = "am_counters (rg_meters R)"
  have inv: "mm_inv counter_ok ?s" using assms by (simp add: registry_inv_def all_inv_def)
  show ?thesis
  proof (cases "map_of (mm_table ?s) i")
    case (Some r)
    then have "snd (get_counter now i R) = R" by (simp add: get_counter_def mm_insert_def)
    then show ?thesis by simp
  next
    case None
    have lt: "r < length (mm_objs ?s)" if "map_of (mm_table ?s) k = Some r" for k r
      using inv map_of_SomeD [OF that] by (fastforce simp: mm_inv_def)
    show ?thesis
      using None by (auto simp: count_of_def get_counter_def mm_insert_def mm_alloc_def mm_find_def nth_append
          map_add_def new_counter_def dest: lt split: option.split)
  qed
qed

lemma count_of_increment:
  assumes "registry_inv R" and "mm_find (am_counters (rg_meters R)) i = Some r"
  shows "count_of (update_counter r (counter_increment now) R) j =
    (if j = i then dadd (count_of R i) (dint 1) else count_of R j)"
proof -
  let ?s = "am_counters (rg_meters R)"
  have inv: "mm_inv counter_ok ?s" using assms(1) by (simp add: registry_inv_def all_inv_def)
  have "(i, r) \<in> set (mm_table ?s)" using assms(2) by (auto simp: mm_find_def dest: map_of_SomeD)
  then have lt: "r < length (mm_objs ?s)" using inv by (fastforce simp: mm_inv_def)
  have inj: "mm_find ?s j = Some r \<Longrightarrow> j = i" using meters.look_inj [OF inv _ assms(2)] by blast
  have "\<not> dlt (dint 1) dpos0" by (simp add: dint_exact dpos0_def)
  then have add: "c_count (counter_increment now c) = dadd (c_count c) (dint 1)" for c
    by (simp add: counter_increment_def counter_add_def Let_def touch_def)
  have find: "mm_find (am_counters (rg_meters (update_counter r f R))) = mm_find ?s"
    and objs: "mm_objs (am_counters (rg_meters (update_counter r f R))) = (mm_objs ?s)[r := f (mm_objs ?s ! r)]" for f
    by (simp_all add: update_counter_def mm_update_def mm_find_def)
  show ?thesis
  proof (cases "j = i")
    case True
    then show ?thesis unfolding count_of_def find objs using assms(2) lt by (simp add: add)
  next
    case False
    then have "mm_find ?s j \<noteq> Some r" using inj by blast
    then show ?thesis unfolding count_of_def find objs using False
      by (cases "mm_find ?s j") simp_all
  qed
qed

lemma counters_update_other [simp]:
  "am_counters (rg_meters (update_dist r f R)) = am_counters (rg_meters R)"
  "am_counters (rg_meters (update_timer r g R)) = am_counters (rg_meters R)"
  by (simp_all add: update_dist_def update_timer_def)

lemma registry_inv_update_dist [spd_inv]: "registry_inv R \<Longrightarrow> registry_inv (update_dist r (dist_summary_record now x) R)"
  by (simp add: registry_inv_def all_inv_def update_dist_def mm_inv_update dist_summary_record_keeps)

lemma timer_record_keeps: "mt_id (timer_record A now x t) = mt_id t"
  "timer_ok t \<Longrightarrow> timer_ok (timer_record A now x t)"
  by (simp_all add: timer_record_def Let_def touch_def timer_ok_def)

lemma registry_inv_update_timer [spd_inv]: "registry_inv R \<Longrightarrow> registry_inv (update_timer r (timer_record A now x) R)"
  by (simp add: registry_inv_def all_inv_def update_timer_def mm_inv_update timer_record_keeps)

lemma bucket_counted:
  assumes "registry_inv R" and "wf_id c"
  shows "count_of (update_counter (fst (get_counter now c R)) (counter_increment now) (snd (get_counter now c R))) j =
      (if j = c then dadd (count_of R c) (dint 1) else count_of R j)"
proof -
  let ?R = "snd (get_counter now c R)"
  have inv: "mm_inv counter_ok (am_counters (rg_meters R))"
    using assms(1) by (simp add: registry_inv_def all_inv_def)
  have "mm_find (am_counters (rg_meters ?R)) c = Some (fst (get_counter now c R))"
    using meters.look_put [OF inv, of "new_counter now c" c] by (simp add: get_counter_def split_beta)
  from count_of_increment [OF registry_inv_get(1) [OF assms] this, of now j]
  show ?thesis by (simp add: count_of_get_counter [OF assms(1)])
qed

lemma perc_tag_sane: "i < 276 \<Longrightarrow> sanitize (kDistTags ! i) = kDistTags ! i \<and> sanitize (kTimerTags ! i) = kTimerTags ! i"
proof -
  assume i: "i < 276"
  have hex: "atlas_char (hex_digit d) = hex_digit d" if "d < 16" for d
  proof -
    have "list_all (\<lambda>d. atlas_char (hex_digit d) = hex_digit d) [0..<16]" by code_simp
    then show ?thesis using that by (auto simp: list_all_iff)
  qed
  have "atlas_char (CHR ''D'') = CHR ''D''" "atlas_char (CHR ''T'') = CHR ''T''" by code_simp+
  then show ?thesis using i by (simp add: kDistTags_def kTimerTags_def perc_tag_def sanitize_def hex)
qed

lemma wf_perc_counter_id: "wf_id i \<Longrightarrow> wf_id (perc_counter_id tags k i)"
  unfolding perc_counter_id_def with_tags2_eq by (intro wf_with_tag) simp_all

text \<open>
  C38. A percentile summary counts every recorded amount in exactly one bucket: the counter of the
  bucket that covers the amount, clamped to the configured range, goes up by one, no other
  counter changes, and a negative amount changes nothing at all.
\<close>

theorem perc_dist_counts_one_bucket:
  assumes "registry_inv R" and "wf_id (pd_id p)" and "in_int64 (pd_min p)" and "in_int64 (pd_max p)"
    and "in_int64 amount"
  shows "let restricted = std_clamp (<) amount (pd_min p) (pd_max p); k = PercentileBucketIndexOf restricted;
      c = perc_counter_id kDistTags k (pd_id p); R' = perc_dist_record now amount p R in
    (amount < 0 \<longrightarrow> R' = R) \<and>
    (0 \<le> amount \<longrightarrow> k < 276 \<and> restricted \<le> kBucketValues ! k \<and>
      (\<forall>j. count_of R' j = (if j = c then dadd (count_of R c) (dint 1) else count_of R j)))"
proof -
  let ?x = "std_clamp (<) amount (pd_min p) (pd_max p)"
  let ?k = "PercentileBucketIndexOf ?x"
  let ?c = "perc_counter_id kDistTags ?k (pd_id p)"
  let ?R = "update_dist (pd_dist p) (dist_summary_record now (dint amount)) R"
  have x: "in_int64 ?x" using assms(3-5) by (simp add: std_clamp_def)
  have k: "?k < 276" using bucket_index_lt x by (simp add: in_int64_def)
  have up: "?x \<le> kBucketValues ! ?k"
    using bucket_upper_int64 [OF x] by (simp add: PercentileBucket_def)
  have same: "count_of ?R j = count_of R j" for j by (simp add: count_of_def split: option.split)
  have "count_of (perc_dist_record now amount p R) j =
      (if j = ?c then dadd (count_of R ?c) (dint 1) else count_of R j)" if "0 \<le> amount" for j
    using that bucket_counted [OF registry_inv_update_dist [OF assms(1)] wf_perc_counter_id [OF assms(2)],
      of now kDistTags ?k "pd_dist p" now "dint amount" j]
    by (simp add: perc_dist_record_def Let_def split_beta same)
  with k up show ?thesis by (simp add: Let_def perc_dist_record_def)
qed

theorem perc_dist_counts_one_bucket_witness:
  "let p = \<lparr>pd_id = id_of ''d'' [], pd_min = 0, pd_max = 1000, pd_dist = 0\<rparr>;
       c = perc_counter_id kDistTags (PercentileBucketIndexOf 87) (id_of ''d'' [])
   in count_of (perc_dist_record 9 87 p (sample_registry 1)) c = dadd (count_of (sample_registry 1) c) (dint 1)"
proof -
  let ?p = "\<lparr>pd_id = id_of ''d'' [], pd_min = 0, pd_max = 1000, pd_dist = 0\<rparr>"
  have b: "in_int64 0" "in_int64 1000" "in_int64 87" by (simp_all add: in_int64_def int64_min_def int64_max_def)
  show ?thesis
    using perc_dist_counts_one_bucket [OF registry_inv_new [of ns_durations 0 "sample_config 1"], of ?p 87 9] b
    by (simp add: Let_def std_clamp_def)
qed

end
