(* ===== verification/ExpiringCache.thy ===== *)
theory ExpiringCache
  imports Ids
begin

text \<open>
  \<open>server/expiring_cache.h\<close>: the cache of percentile meters of the server, whose entries are
  dropped when they have not been asked for in two minutes. The supplier is the function
  that creates a value in the registry, a parameter with its own state. Times are readings of
  the steady clock in nanoseconds.
\<close>

record 'v cache_entry =
  ce_updated :: int
  ce_v :: 'v

type_synonym 'v cache = "(meter_id \<times> 'v cache_entry) list"

definition kExpireAfter :: int where
  "kExpireAfter = 120 * 1000000000"

definition touch_entry :: "int \<Rightarrow> meter_id \<Rightarrow> 'v cache \<Rightarrow> 'v cache" where
  "touch_entry now k = map (\<lambda>(i, e). if i = k then (i, e\<lparr>ce_updated := now\<rparr>) else (i, e))"

definition get_or_create ::
  "(meter_id \<Rightarrow> 's \<Rightarrow> 'v \<times> 's) \<Rightarrow> int \<Rightarrow> meter_id \<Rightarrow> 'v cache \<Rightarrow> 's \<Rightarrow> 'v \<times> 'v cache \<times> 's" where
  "get_or_create supplier now k c R =
     (case map_of c k of
        Some e \<Rightarrow> (ce_v e, touch_entry now k c, R)
      | None \<Rightarrow> (let (v, R1) = supplier k R in (v, c @ [(k, \<lparr>ce_updated = now, ce_v = v\<rparr>)], R1)))"

definition cache_expire :: "int \<Rightarrow> 'v cache \<Rightarrow> 'v cache \<times> nat \<times> nat" where
  \<comment> \<open>what stays, the size before and the number of entries erased\<close>
  "cache_expire now c =
     (let late = (\<lambda>(k, e). kExpireAfter < now - ce_updated e)
      in (filter (\<lambda>x. \<not> late x) c, length c, length (filter late c)))"

definition cache_inv :: "'v cache \<Rightarrow> bool" where
  "cache_inv c \<longleftrightarrow> distinct (keys c)"

lemma keys_touch [simp]: "keys (touch_entry now k c) = keys c"
  by (induction c) (auto simp: touch_entry_def)

lemma map_of_touch: "map_of (touch_entry now k c) j =
   (if j = k then map_option (\<lambda>e. e\<lparr>ce_updated := now\<rparr>) (map_of c k) else map_of c j)"
  by (induction c) (auto simp: touch_entry_def)

lemma cache_inv_get [spd_inv]:
  "cache_inv c \<Longrightarrow> get_or_create supplier now k c R = (v, c', R') \<Longrightarrow> cache_inv c'"
  by (auto simp: cache_inv_def get_or_create_def map_of_None_keys split: option.splits prod.splits)

lemma cache_inv_expire [spd_inv]: "cache_inv c \<Longrightarrow> cache_inv (fst (cache_expire now c))"
  by (simp add: cache_inv_def cache_expire_def distinct_keys_filter Let_def)

section \<open>The interface of a cache\<close>

text \<open>
  What the server relies on: after a request the value is cached with the time of the request, and
  a second request finds it without calling the supplier unless it has been expired.
\<close>

locale value_cache =
  fixes request :: "(meter_id \<Rightarrow> 's \<Rightarrow> 'v \<times> 's) \<Rightarrow> int \<Rightarrow> meter_id \<Rightarrow> 'c \<Rightarrow> 's \<Rightarrow> 'v \<times> 'c \<times> 's"
    and prune :: "int \<Rightarrow> 'c \<Rightarrow> 'c"
    and peek :: "'c \<Rightarrow> meter_id \<Rightarrow> (int \<times> 'v) option"
    and lifetime :: int
    and ok :: "'c \<Rightarrow> bool"
  assumes request_hit: "peek c k = Some (t, v) \<Longrightarrow> \<exists>c'. request f now k c R = (v, c', R)"
    and request_miss: "peek c k = None \<Longrightarrow> f k R = (v, R') \<Longrightarrow> \<exists>c'. request f now k c R = (v, c', R')"
    and peek_request: "request f now k c R = (v, c', R') \<Longrightarrow>
      peek c' j = (if j = k then Some (now, v) else peek c j)"
    and peek_prune: "ok c \<Longrightarrow> peek (prune now c) k =
      (case peek c k of Some (t, v) \<Rightarrow> if lifetime < now - t then None else Some (t, v) | None \<Rightarrow> None)"
    and ok_request: "ok c \<Longrightarrow> request f now k c R = (v, c', R') \<Longrightarrow> ok c'"
    and ok_prune: "ok c \<Longrightarrow> ok (prune now c)"
begin

lemma stays_cached:
  assumes "ok c" and "request f t k c R = (v, c1, R1)" and "\<forall>now \<in> set ns. now - t \<le> lifetime"
  shows "peek (fold prune ns c1) k = Some (t, v) \<and> ok (fold prune ns c1)"
proof -
  have "peek c1 k = Some (t, v)" "ok c1"
    using peek_request [OF assms(2), of k] ok_request [OF assms(1,2)] by simp_all
  then show ?thesis using assms(3)
  proof (induction ns arbitrary: c1)
    case Nil
    then show ?case by simp
  next
    case (Cons n ns)
    then show ?case using peek_prune [OF Cons.prems(2), of n k] ok_prune [OF Cons.prems(2), of n] by simp
  qed
qed

lemma same_value_again:
  assumes "ok c" and "request f t k c R = (v, c1, R1)" and "\<forall>now \<in> set ns. now - t \<le> lifetime"
  shows "\<exists>c3. request f t' k (fold prune ns c1) R2 = (v, c3, R2)"
  using request_hit stays_cached [OF assms] by blast

lemma created_anew:
  assumes "ok c" and "request f t k c R = (v, c1, R1)" and "lifetime < now - t" and "f k R2 = (w, R3)"
  shows "\<exists>c3. request f t' k (prune now c1) R2 = (w, c3, R3)"
proof -
  have "peek (prune now c1) k = None"
    using peek_prune [OF ok_request [OF assms(1,2)], of now k] peek_request [OF assms(2), of k] assms(3) by simp
  then show ?thesis using request_miss assms(4) by blast
qed

end

definition cache_peek :: "'v cache \<Rightarrow> meter_id \<Rightarrow> (int \<times> 'v) option" where
  "cache_peek c k = map_option (\<lambda>e. (ce_updated e, ce_v e)) (map_of c k)"

interpretation cache: value_cache get_or_create "\<lambda>now c. fst (cache_expire now c)" cache_peek kExpireAfter cache_inv
proof unfold_locales
  fix c :: "'b cache" and k j t v f now R c' R'
  show "cache_peek c k = Some (t, v) \<Longrightarrow> \<exists>c'. get_or_create f now k c R = (v, c', R)"
    by (auto simp: cache_peek_def get_or_create_def)
  show "cache_peek c k = None \<Longrightarrow> f k R = (v, R') \<Longrightarrow> \<exists>c'. get_or_create f now k c R = (v, c', R')"
    by (auto simp: cache_peek_def get_or_create_def)
  show "get_or_create f now k c R = (v, c', R') \<Longrightarrow>
      cache_peek c' j = (if j = k then Some (now, v) else cache_peek c j)"
    by (auto simp: cache_peek_def get_or_create_def map_of_touch map_add_def split: option.splits prod.splits)
  show "cache_inv c \<Longrightarrow> cache_peek (fst (cache_expire now c)) k =
      (case cache_peek c k of Some (t, v) \<Rightarrow> if kExpireAfter < now - t then None else Some (t, v) | None \<Rightarrow> None)"
    by (auto simp: cache_inv_def cache_peek_def cache_expire_def map_of_filter_distinct Let_def split: option.splits)
  show "cache_inv c \<Longrightarrow> get_or_create f now k c R = (v, c', R') \<Longrightarrow> cache_inv c'" by (rule cache_inv_get)
  show "cache_inv c \<Longrightarrow> cache_inv (fst (cache_expire now c))" by (rule cache_inv_expire)
qed

text \<open>
  C39. A percentile meter is created once and kept while it is in use: after a request at time t, a
  request for the same identity returns the same value without creating anything, however
  many sweeps have run, as long as none ran later than t + 120 s; after a later sweep the value
  is created anew; and a sweep reports the size before it and the number it erased.
\<close>

theorem cache_keeps_values_in_use:
  assumes "cache_inv c" and "get_or_create f t k c R = (v, c1, R1)"
  shows "((\<forall>now \<in> set ns. now - t \<le> kExpireAfter) \<longrightarrow>
      (\<exists>c3. get_or_create f t' k (fold (\<lambda>now c. fst (cache_expire now c)) ns c1) R2 = (v, c3, R2))) \<and>
    (kExpireAfter < now - t \<and> f k R2 = (w, R3) \<longrightarrow>
      (\<exists>c3. get_or_create f t' k (fst (cache_expire now c1)) R2 = (w, c3, R3))) \<and>
    (case cache_expire now c1 of (c2, size_before, erased) \<Rightarrow>
      size_before = length c1 \<and> length c2 + erased = length c1)"
  using cache.same_value_again [OF assms, of ns t' R2] cache.created_anew [OF assms, of now R2 w R3 t']
    sum_length_filter_compl [of "\<lambda>(k, e). kExpireAfter < now - ce_updated e" c1]
  by (auto simp: cache_expire_def Let_def case_prod_unfold)

theorem cache_keeps_values_in_use_witness:
  "fst (get_or_create (\<lambda>i n. (n, Suc n)) 119000000000 (id_of ''t'' [])
     (fst (cache_expire 120000000000 (fst (snd (get_or_create (\<lambda>i n. (n, Suc n)) 0 (id_of ''t'' []) [] 7))))) 8) = (7::nat)"
proof -
  let ?f = "\<lambda>(i::meter_id) n. (n, Suc n)" and ?k = "id_of ''t'' []"
  have g: "get_or_create ?f 0 ?k [] 7 = (7, [(?k, \<lparr>ce_updated = 0, ce_v = 7\<rparr>)], 8)"
    by (simp add: get_or_create_def)
  have "cache_inv ([] :: nat cache)" by (simp add: cache_inv_def)
  from cache_keeps_values_in_use [OF this g, of "[120000000000]" 119000000000 8 0 0 0]
  show ?thesis by (auto simp: g kExpireAfter_def)
qed

end
