(* ===== verification/CLib.thy ===== *)
theory CLib
  imports Prelude Doubles
begin

text \<open>
  The functions of the C library that the parsers call, in the C locale, on memory that starts
  at the pointer they are given (see \<open>cmem\<close>). A conversion returns the value and the number
  of characters consumed, which is 0 when nothing could be converted.
\<close>

section \<open>Characters\<close>

definition code :: "char \<Rightarrow> nat" where
  "code c = of_char c"

definition isspace :: "char \<Rightarrow> bool" where
  "isspace c \<longleftrightarrow> code c = 32 \<or> 9 \<le> code c \<and> code c \<le> 13"

definition isdigit :: "char \<Rightarrow> bool" where
  "isdigit c \<longleftrightarrow> 48 \<le> code c \<and> code c \<le> 57"

definition tolower :: "char \<Rightarrow> char" where
  "tolower c = (if 65 \<le> code c \<and> code c \<le> 90 then char_of (code c + 32) else c)"

definition isxdigit :: "char \<Rightarrow> bool" where
  "isxdigit c \<longleftrightarrow> isdigit c \<or> 97 \<le> code c \<and> code c \<le> 102 \<or> 65 \<le> code c \<and> code c \<le> 70"

definition digit_val :: "char \<Rightarrow> int" where
  "digit_val c = (let n = int (code c) in
     if n \<le> 57 then n - 48 else if n \<le> 70 then n - 55 else n - 87)"

definition strchr :: "cmem \<Rightarrow> char \<Rightarrow> nat option" where
  "strchr m c = (let s = cstr m in if c \<in> set s then Some (length (takeWhile (\<lambda>x. x \<noteq> c) s)) else None)"

section \<open>Conversions\<close>

definition number :: "int \<Rightarrow> char list \<Rightarrow> int" where
  "number base ds = foldl (\<lambda>n d. n * base + digit_val d) 0 ds"

definition sign_of :: "char list \<Rightarrow> bool \<times> nat" where
  \<comment> \<open>an optional sign: negative or not, and its length\<close>
  "sign_of s = (case s of c # _ \<Rightarrow> if c = CHR ''-'' then (True, 1) else if c = CHR ''+'' then (False, 1)
      else (False, 0) | [] \<Rightarrow> (False, 0))"

definition skip_space :: "char list \<Rightarrow> nat" where
  "skip_space s = length (takeWhile isspace s)"

definition strto_digits :: "char list \<Rightarrow> bool \<times> char list \<times> nat" where
  \<comment> \<open>common to the integer conversions: sign, decimal digits, characters consumed\<close>
  "strto_digits s =
     (let w = skip_space s; (neg, sg) = sign_of (drop w s); ds = takeWhile isdigit (drop (w + sg) s)
      in (neg, ds, if ds = [] then 0 else w + sg + length ds))"

definition strtoll :: "cmem \<Rightarrow> int \<times> nat" where
  "strtoll m = (let (neg, ds, n) = strto_digits m; v = (if neg then - number 10 ds else number 10 ds)
     in (max int64_min (min int64_max v), n))"

definition strtoull :: "cmem \<Rightarrow> 64 word \<times> nat" where
  "strtoull m = (let (neg, ds, n) = strto_digits m; v = number 10 ds
     in (if 2 ^ 64 \<le> v then - 1 else if neg then - of_int v else of_int v, n))"

definition mantissa :: "(char \<Rightarrow> bool) \<Rightarrow> char list \<Rightarrow> char list \<times> char list \<times> nat" where
  \<comment> \<open>digits before and after an optional point, and the length of the whole\<close>
  "mantissa isd s = (let i = takeWhile isd s; r = drop (length i) s in
     case r of
       c # r' \<Rightarrow> if c = CHR ''.'' then let f = takeWhile isd r' in (i, f, length i + 1 + length f)
                 else (i, [], length i)
     | [] \<Rightarrow> (i, [], length i))"

definition exponent :: "char \<Rightarrow> char list \<Rightarrow> int \<times> nat" where
  "exponent e s = (case s of
     c # r \<Rightarrow>
       if tolower c = e
       then let (neg, sg) = sign_of r; ds = takeWhile isdigit (drop sg r)
            in if ds = [] then (0, 0)
               else (if neg then - number 10 ds else number 10 ds, 1 + sg + length ds)
       else (0, 0)
   | [] \<Rightarrow> (0, 0))"

definition pow_rat :: "rat \<Rightarrow> int \<Rightarrow> rat" where
  "pow_rat b e = (if 0 \<le> e then b ^ nat e else 1 / b ^ nat (- e))"

definition signed_double :: "bool \<Rightarrow> rat \<Rightarrow> double" where
  "signed_double neg q = to_double neg (if neg then - q else q)"

definition has_prefix :: "string \<Rightarrow> char list \<Rightarrow> bool" where
  \<comment> \<open>the text, given in lower case, is a prefix up to case\<close>
  "has_prefix t s \<longleftrightarrow> map tolower (take (length t) s) = t"

definition n_char :: "char \<Rightarrow> bool" where
  "n_char x \<longleftrightarrow> isdigit x \<or> 97 \<le> code (tolower x) \<and> code (tolower x) \<le> 122 \<or> x = CHR ''_''"

definition nan_suffix :: "char list \<Rightarrow> nat" where
  \<comment> \<open>the optional \<open>(n-char-sequence)\<close> after \<open>nan\<close>\<close>
  "nan_suffix s = (case s of
     c # r \<Rightarrow>
       if c = CHR ''('' then
         (let ns = takeWhile n_char r
          in case drop (length ns) r of x # _ \<Rightarrow> if x = CHR '')'' then length ns + 2 else 0 | [] \<Rightarrow> 0)
       else 0
   | [] \<Rightarrow> 0)"

definition strtod_decimal :: "bool \<Rightarrow> char list \<Rightarrow> (double \<times> nat) option" where
  "strtod_decimal neg s =
     (let (i, f, n) = mantissa isdigit s in
      if i @ f = [] then None
      else let (e, k) = exponent (CHR ''e'') (drop n s)
           in Some (signed_double neg (of_int (number 10 (i @ f)) * pow_rat 10 (e - int (length f))), n + k))"

definition strtod_hex :: "bool \<Rightarrow> char list \<Rightarrow> (double \<times> nat) option" where
  \<comment> \<open>the part after \<open>0x\<close>\<close>
  "strtod_hex neg s =
     (let (i, f, n) = mantissa isxdigit s in
      if i @ f = [] then None
      else let (e, k) = exponent (CHR ''p'') (drop n s)
           in Some (signed_double neg (of_int (number 16 (i @ f)) * pow_rat 2 (e - 4 * int (length f))), n + k))"

definition strtod_abs :: "bool \<Rightarrow> char list \<Rightarrow> (double \<times> nat) option" where
  \<comment> \<open>after white space and sign\<close>
  "strtod_abs neg s =
     (if has_prefix ''infinity'' s then Some (Inf neg, 8)
      else if has_prefix ''inf'' s then Some (Inf neg, 3)
      else if has_prefix ''nan'' s then Some (NaN, 3 + nan_suffix (drop 3 s))
      else if has_prefix ''0x'' s \<and> strtod_hex neg (drop 2 s) \<noteq> None
      then map_option (\<lambda>(v, n). (v, n + 2)) (strtod_hex neg (drop 2 s))
      else strtod_decimal neg s)"

definition strtod :: "cmem \<Rightarrow> double \<times> nat" where
  "strtod m = (let w = skip_space m; (neg, sg) = sign_of (drop w m) in
     case strtod_abs neg (drop (w + sg) m) of None \<Rightarrow> (Zero False, 0) | Some (v, n) \<Rightarrow> (v, w + sg + n))"

definition dbl_lround :: "double \<Rightarrow> int option" where
  \<comment> \<open>\<open>std::lround\<close>: half away from zero; \<open>None\<close> where the result is unspecified\<close>
  "dbl_lround x = (case x of NaN \<Rightarrow> None | Inf _ \<Rightarrow> None | Zero _ \<Rightarrow> Some 0
     | Fin q \<Rightarrow> (let n = (if q < 0 then - \<lfloor>- q + 1 / 2\<rfloor> else \<lfloor>q + 1 / 2\<rfloor>) in if in_int64 n then Some n else None))"

fun show_nat :: "nat \<Rightarrow> string" where
  \<comment> \<open>how the formatting library prints a number\<close>
  "show_nat n = (if n < 10 then [''0123456789'' ! n] else show_nat (n div 10) @ [''0123456789'' ! (n mod 10)])"

declare show_nat.simps [simp del]

section \<open>The conversions stop at the terminator\<close>

lemma takeWhile_stop: "\<not> P c \<Longrightarrow> takeWhile P (s @ c # r) = takeWhile P s"
  by (induction s) simp_all

lemma NUL_neq: "NUL \<noteq> CHR ''.''" "NUL \<noteq> CHR ''_''" "NUL \<noteq> CHR '')''" "NUL \<noteq> CHR '':''" "NUL \<noteq> CHR '',''"
  "NUL \<noteq> CHR ''=''" "NUL \<noteq> CHR 0x0A"
  by (simp_all add: NUL_def)

lemma code_NUL [simp]: "code NUL = 0"
  by (simp add: code_def NUL_def)

lemma class_NUL [simp]: "\<not> isspace NUL" "\<not> isdigit NUL" "\<not> isxdigit NUL" "tolower NUL = NUL"
  by (simp_all add: isspace_def isdigit_def isxdigit_def tolower_def)

lemma length_takeWhile_bound: "length (takeWhile P (drop k s)) + k \<le> length s" if "k \<le> length s"
  using length_takeWhile_le [of P "drop k s"] that by simp

definition ends_number :: "char \<Rightarrow> bool" where
  \<comment> \<open>what ends a number in a line of statsd\<close>
  "ends_number z \<longleftrightarrow> z = NUL \<or> z = CHR ''|''"

lemma ends_number_facts:
  assumes "ends_number z"
  shows "\<not> isspace z" "\<not> isdigit z" "\<not> isxdigit z" "\<not> n_char z" "tolower z = z"
    "z \<notin> set ''.+-_()=infityax0ep''"
proof -
  have bar: "\<not> isspace (CHR ''|'')" "\<not> isdigit (CHR ''|'')" "\<not> isxdigit (CHR ''|'')" "\<not> n_char (CHR ''|'')"
    "tolower (CHR ''|'') = CHR ''|''" by code_simp+
  have nul: "\<not> n_char NUL" by (simp add: n_char_def NUL_neq)
  show "\<not> isspace z" "\<not> isdigit z" "\<not> isxdigit z" "\<not> n_char z" "tolower z = z"
    using assms bar nul by (auto simp: ends_number_def)
  show "z \<notin> set ''.+-_()=infityax0ep''" using assms by (auto simp: ends_number_def NUL_def)
qed

lemma ends_number_NUL [simp]: "ends_number NUL"
  by (simp add: ends_number_def)

lemma skip_space_stop: "ends_number z \<Longrightarrow> skip_space (s @ z # r) = skip_space s" "skip_space s \<le> length s"
  by (simp_all add: skip_space_def takeWhile_stop ends_number_facts(1) length_takeWhile_le)

lemma sign_of_stop: "ends_number z \<Longrightarrow> sign_of (s @ z # r) = sign_of s" "snd (sign_of s) \<le> length s"
proof -
  show "ends_number z \<Longrightarrow> sign_of (s @ z # r) = sign_of s"
    using ends_number_facts(6) [of z] by (cases s) (simp_all add: sign_of_def)
  show "snd (sign_of s) \<le> length s" by (cases s) (simp_all add: sign_of_def)
qed

lemma strto_digits_stop: "strto_digits (s @ NUL # r) = strto_digits s" "snd (snd (strto_digits s)) \<le> length s"
proof -
  let ?w = "skip_space s"
  have w: "?w \<le> length s" by (rule skip_space_stop)
  have d: "drop k (s @ NUL # r) = drop k s @ NUL # r" if "k \<le> length s" for k using that by simp
  obtain neg sg where sg: "sign_of (drop ?w s) = (neg, sg)" by fastforce
  have b: "?w + sg \<le> length s" using sign_of_stop(2) [of "drop ?w s"] w sg by simp
  show "strto_digits (s @ NUL # r) = strto_digits s"
    unfolding strto_digits_def skip_space_stop(1) [OF ends_number_NUL] Let_def d [OF w] sign_of_stop(1) [OF ends_number_NUL]
      sg prod.case d [OF b]
    by (simp add: takeWhile_stop)
  show "snd (snd (strto_digits s)) \<le> length s"
    using b length_takeWhile_bound [OF b, of isdigit] by (simp add: strto_digits_def sg Let_def)
qed

lemma strtoll_stop: "strtoll (s @ NUL # r) = strtoll s" "snd (strtoll s) \<le> length s"
  using strto_digits_stop(2) [of s] by (simp_all add: strtoll_def strto_digits_stop split_beta Let_def)

lemma strtoull_stop: "strtoull (s @ NUL # r) = strtoull s" "snd (strtoull s) \<le> length s"
  using strto_digits_stop(2) [of s] by (simp_all add: strtoull_def strto_digits_stop split_beta Let_def)

lemma mantissa_stop:
  assumes "\<not> isd z" and "ends_number z"
  shows "mantissa isd (s @ z # r) = mantissa isd s" and "snd (snd (mantissa isd s)) \<le> length s"
proof -
  have z: "z \<noteq> CHR ''.''" using ends_number_facts(6) [OF assms(2)] by auto
  let ?i = "takeWhile isd s" and ?t = "drop (length (takeWhile isd s)) s"
  have l: "length ?i \<le> length s" by (rule length_takeWhile_le)
  have "mantissa isd (s @ z # r) = mantissa isd s \<and> snd (snd (mantissa isd s)) \<le> length s"
  proof (cases ?t)
    case Nil
    then show ?thesis using l by (simp add: mantissa_def takeWhile_stop [of isd, OF assms(1)] Let_def z)
  next
    case (Cons c u)
    have "length (takeWhile isd u) \<le> length u" by (rule length_takeWhile_le)
    moreover have "length ?i + Suc (length u) = length s"
      using l Cons by (metis length_drop length_Cons le_add_diff_inverse)
    ultimately show ?thesis
      using l Cons by (simp add: mantissa_def takeWhile_stop [of isd, OF assms(1)] Let_def)
  qed
  then show "mantissa isd (s @ z # r) = mantissa isd s" "snd (snd (mantissa isd s)) \<le> length s" by simp_all
qed

lemma exponent_stop:
  assumes "e \<noteq> z" and "ends_number z"
  shows "exponent e (s @ z # r) = exponent e s" and "snd (exponent e s) \<le> length s"
proof -
  have "exponent e (s @ z # r) = exponent e s \<and> snd (exponent e s) \<le> length s"
  proof (cases s)
    case Nil
    then show ?thesis using assms ends_number_facts(5) [OF assms(2)] by (simp add: exponent_def)
  next
    case (Cons c u)
    obtain neg sg where sg: "sign_of u = (neg, sg)" by fastforce
    have b: "sg \<le> length u" using sign_of_stop(2) [of u] sg by simp
    then have "drop sg (u @ z # r) = drop sg u @ z # r" by simp
    then show ?thesis
      using length_takeWhile_bound [OF b, of isdigit] b
      by (simp add: Cons exponent_def sign_of_stop(1) [OF assms(2)] sg takeWhile_stop ends_number_facts(2) [OF assms(2)] Let_def del: drop_append)
  qed
  then show "exponent e (s @ z # r) = exponent e s" "snd (exponent e s) \<le> length s" by simp_all
qed

lemma has_prefix_length: "has_prefix t s \<Longrightarrow> length t \<le> length s"
  unfolding has_prefix_def by (metis length_map length_take min.absorb_iff2 min.commute)

lemma has_prefix_stop: "ends_number z \<Longrightarrow> z \<notin> set t \<Longrightarrow> has_prefix t (s @ z # r) = has_prefix t s"
proof (cases "length t \<le> length s")
  case True
  then show ?thesis by (simp add: has_prefix_def)
next
  case False
  assume z: "ends_number z" and t: "z \<notin> set t"
  have "z \<in> set (map tolower (take (length t) (s @ z # r)))"
    using False ends_number_facts(5) [OF z] by (auto simp: take_Cons' intro!: image_eqI [of _ _ z])
  with t have "\<not> has_prefix t (s @ z # r)" unfolding has_prefix_def by metis
  moreover have "\<not> has_prefix t s" using False has_prefix_length by blast
  ultimately show ?thesis by simp
qed

lemma nan_suffix_stop: "ends_number z \<Longrightarrow> nan_suffix (s @ z # r) = nan_suffix s" "nan_suffix s \<le> length s"
proof -
  have "nan_suffix (s @ z # r) = nan_suffix s \<and> nan_suffix s \<le> length s" if z: "ends_number z" for z
  proof (cases s)
    case Nil
    then show ?thesis using ends_number_facts(6) [OF z] by (simp add: nan_suffix_def)
  next
    case (Cons c u)
    let ?P = n_char
    have tw: "takeWhile ?P (u @ z # r) = takeWhile ?P u" by (rule takeWhile_stop) (rule ends_number_facts(4) [OF z])
    have l: "length (takeWhile ?P u) \<le> length u" by (rule length_takeWhile_le)
    let ?k = "length (takeWhile ?P u)"
    have d: "drop ?k (u @ z # r) = drop ?k u @ z # r" using l by simp
    show ?thesis
    proof (cases "drop ?k u")
      case Nil
      then show ?thesis using l ends_number_facts(6) [OF z] by (simp add: Cons nan_suffix_def tw d Let_def del: drop_append)
    next
      case (Cons x v)
      then have "?k < length u" by (metis drop_all leI list.distinct(1))
      with Cons show ?thesis by (simp add: \<open>s = c # u\<close> nan_suffix_def tw d Let_def del: drop_append)
    qed
  qed
  then show "ends_number z \<Longrightarrow> nan_suffix (s @ z # r) = nan_suffix s" "nan_suffix s \<le> length s"
    using ends_number_NUL by blast+
qed

lemma strtod_decimal_stop: "ends_number z \<Longrightarrow> strtod_decimal neg (s @ z # r) = strtod_decimal neg s"
  "strtod_decimal neg s = Some (v, n) \<Longrightarrow> n \<le> length s"
proof -
  obtain i f k where m: "mantissa isdigit s = (i, f, k)" by (metis prod_cases3)
  have k: "k \<le> length s" using mantissa_stop(2) [of isdigit NUL s] m by simp
  then have d: "drop k (s @ z # r) = drop k s @ z # r" by simp
  have e: "CHR ''e'' \<noteq> z" if "ends_number z" for z using ends_number_facts(6) [OF that] by auto
  show "strtod_decimal neg (s @ z # r) = strtod_decimal neg s" if z: "ends_number z"
    unfolding strtod_decimal_def Let_def mantissa_stop(1) [of isdigit, OF ends_number_facts(2) [OF z] z] m prod.case d
      exponent_stop(1) [OF e [OF z] z] ..
  show "strtod_decimal neg s = Some (v, n) \<Longrightarrow> n \<le> length s"
    using k exponent_stop(2) [OF e [OF ends_number_NUL] ends_number_NUL, of "drop k s"]
    by (auto simp: strtod_decimal_def m Let_def split_beta split: if_splits)
qed

lemma strtod_hex_stop: "ends_number z \<Longrightarrow> strtod_hex neg (s @ z # r) = strtod_hex neg s"
  "strtod_hex neg s = Some (v, n) \<Longrightarrow> n \<le> length s"
proof -
  obtain i f k where m: "mantissa isxdigit s = (i, f, k)" by (metis prod_cases3)
  have k: "k \<le> length s" using mantissa_stop(2) [of isxdigit NUL s] m by simp
  then have d: "drop k (s @ z # r) = drop k s @ z # r" by simp
  have e: "CHR ''p'' \<noteq> z" if "ends_number z" for z using ends_number_facts(6) [OF that] by auto
  show "strtod_hex neg (s @ z # r) = strtod_hex neg s" if z: "ends_number z"
    unfolding strtod_hex_def Let_def mantissa_stop(1) [of isxdigit, OF ends_number_facts(3) [OF z] z] m prod.case d
      exponent_stop(1) [OF e [OF z] z] ..
  show "strtod_hex neg s = Some (v, n) \<Longrightarrow> n \<le> length s"
    using k exponent_stop(2) [OF e [OF ends_number_NUL] ends_number_NUL, of "drop k s"]
    by (auto simp: strtod_hex_def m Let_def split_beta split: if_splits)
qed

lemma strtod_abs_stop: "ends_number z \<Longrightarrow> strtod_abs neg (s @ z # r) = strtod_abs neg s"
  "strtod_abs neg s = Some (v, n) \<Longrightarrow> n \<le> length s"
proof -
  show "strtod_abs neg (s @ z # r) = strtod_abs neg s" if z: "ends_number z"
  proof -
    have ps: "has_prefix ''infinity'' (s @ z # r) = has_prefix ''infinity'' s"
      "has_prefix ''inf'' (s @ z # r) = has_prefix ''inf'' s"
      "has_prefix ''nan'' (s @ z # r) = has_prefix ''nan'' s"
      "has_prefix ''0x'' (s @ z # r) = has_prefix ''0x'' s"
      using ends_number_facts(6) [OF z] by (intro has_prefix_stop [OF z]; simp)+
    have d3: "has_prefix ''nan'' s \<Longrightarrow> nan_suffix (drop 3 (s @ z # r)) = nan_suffix (drop 3 s)"
      using has_prefix_length [of "''nan''" s] nan_suffix_stop(1) [OF z, of "drop 3 s"] by simp
    have d2: "has_prefix ''0x'' s \<Longrightarrow> strtod_hex neg (drop 2 (s @ z # r)) = strtod_hex neg (drop 2 s)"
      using has_prefix_length [of "''0x''" s] strtod_hex_stop(1) [OF z, of neg "drop 2 s"] by simp
    show ?thesis
      unfolding strtod_abs_def ps strtod_decimal_stop(1) [OF z] using d3 d2 by (simp cong: conj_cong)
  qed
  show "strtod_abs neg s = Some (v, n) \<Longrightarrow> n \<le> length s"
    using has_prefix_length [of "''infinity''" s] has_prefix_length [of "''inf''" s]
      has_prefix_length [of "''nan''" s] has_prefix_length [of "''0x''" s] nan_suffix_stop(2) [of "drop 3 s"]
      strtod_hex_stop(2) [of neg "drop 2 s"] strtod_decimal_stop(2) [of neg s v n]
    by (force simp: strtod_abs_def split: if_splits)
qed

lemma strtod_stop: "ends_number z \<Longrightarrow> strtod (s @ z # r) = strtod s" "snd (strtod s) \<le> length s"
proof -
  let ?w = "skip_space s"
  have w: "?w \<le> length s" by (rule skip_space_stop)
  have d: "drop k (s @ z # r) = drop k s @ z # r" if "k \<le> length s" for k using that by simp
  obtain neg sg where sg: "sign_of (drop ?w s) = (neg, sg)" by fastforce
  have b: "?w + sg \<le> length s" using sign_of_stop(2) [of "drop ?w s"] w sg by simp
  show "strtod (s @ z # r) = strtod s" if z: "ends_number z"
    unfolding strtod_def skip_space_stop(1) [OF z] Let_def d [OF w] sign_of_stop(1) [OF z] sg prod.case d [OF b]
      strtod_abs_stop(1) [OF z] ..
  show "snd (strtod s) \<le> length s"
    using b strtod_abs_stop(2) [of neg "drop (?w + sg) s"]
    by (force simp: strtod_def sg Let_def split: option.split)
qed

section \<open>Printing and parsing whole numbers\<close>

lemma digit_char: "d < 10 \<Longrightarrow> isdigit (''0123456789'' ! d) \<and> digit_val (''0123456789'' ! d) = int d"
proof -
  assume "d < 10"
  moreover have "list_all (\<lambda>d. isdigit (''0123456789'' ! d) \<and> digit_val (''0123456789'' ! d) = int d) [0..<10]"
    by code_simp
  ultimately show ?thesis by (auto simp: list_all_iff)
qed

lemma number_snoc: "number b (ds @ [d]) = number b ds * b + digit_val d"
  by (simp add: number_def)

lemma show_nat_digits: "show_nat n \<noteq> [] \<and> list_all isdigit (show_nat n) \<and> number 10 (show_nat n) = int n"
proof (induction n rule: show_nat.induct)
  case (1 n)
  show ?case
  proof (cases "n < 10")
    case True
    then show ?thesis using digit_char [OF True] by (simp add: show_nat.simps [of n] number_def)
  next
    case False
    have m: "n mod 10 < 10" by simp
    have "int (n div 10) * 10 + int (n mod 10) = int n" by presburger
    then show ?thesis
      using 1 False digit_char [OF m] unfolding show_nat.simps [of n] by (simp add: number_snoc)
  qed
qed

lemma isdigit_facts: "isdigit c \<Longrightarrow> \<not> isspace c \<and> c \<noteq> CHR ''-'' \<and> c \<noteq> CHR ''+'' \<and> c \<noteq> CHR ''.'' \<and>
   tolower c = c \<and> c \<noteq> NUL \<and> c \<noteq> CHR ''x'' \<and> c \<noteq> CHR ''i'' \<and> c \<noteq> CHR ''n''"
proof -
  assume c: "isdigit c"
  have "code (CHR ''-'') = 45" "code (CHR ''+'') = 43" "code (CHR ''.'') = 46" "code (CHR ''x'') = 120"
    "code (CHR ''i'') = 105" "code (CHR ''n'') = 110" by code_simp+
  with c show ?thesis by (auto simp: isdigit_def isspace_def tolower_def)
qed

lemma strtod_digits:
  assumes "ds \<noteq> []" and "list_all isdigit ds"
  shows "strtod ds = (dint (number 10 ds), length ds)"
proof -
  obtain c r where ds: "ds = c # r" using assms(1) by (cases ds) auto
  have c: "isdigit c" and r: "list_all isdigit r" using assms(2) by (simp_all add: ds)
  note C = isdigit_facts [OF c]
  have no: "\<not> has_prefix (x # t) ds" if "x = CHR ''i'' \<or> x = CHR ''n''" for x t
    using that C by (auto simp: has_prefix_def ds)
  have "\<not> has_prefix ''0x'' ds"
  proof
    assume "has_prefix ''0x'' ds"
    then obtain d u where "r = d # u" "tolower d = CHR ''x''" by (cases r) (auto simp: has_prefix_def ds)
    with r isdigit_facts [of d] show False by auto
  qed
  moreover have tw: "takeWhile isdigit ds = ds" using assms(2) by (simp add: takeWhile_eq_all_conv list_all_iff)
  moreover have "strtod_decimal False ds = Some (dint (number 10 ds), length ds)"
    using assms(1) by (simp add: strtod_decimal_def mantissa_def tw exponent_def signed_double_def pow_rat_def dint_def)
  ultimately have "strtod_abs False ds = Some (dint (number 10 ds), length ds)"
    by (simp add: strtod_abs_def no)
  moreover have "skip_space ds = 0" "sign_of ds = (False, 0)"
    using C by (simp_all add: skip_space_def sign_of_def ds)
  ultimately show ?thesis by (simp add: strtod_def)
qed

lemma strtod_show_nat: "strtod (show_nat n) = (dint (int n), length (show_nat n))"
  using strtod_digits [of "show_nat n"] show_nat_digits [of n] by simp

text \<open>Conversions of concrete texts.\<close>

lemma char_facts:
  "isspace (CHR ''n'') = False" "isspace (CHR ''x'') = False" "isspace (CHR ''1'') = False"
  "tolower (CHR ''n'') = CHR ''n''" "tolower (CHR ''a'') = CHR ''a''" "tolower (CHR ''x'') = CHR ''x''"
  "tolower (CHR ''1'') = CHR ''1''" "tolower (CHR ''|'') = CHR ''|''" "tolower (CHR ''c'') = CHR ''c''"
  "isdigit (CHR ''1'') = True" "isdigit (CHR ''x'') = False" "isdigit (CHR ''|'') = False"
  "isdigit (CHR ''2'') = True" "isdigit (CHR ''4'') = True" "isdigit (CHR ''5'') = True"
  "code (CHR ''1'') = 49" "code (CHR ''2'') = 50" "code (CHR ''4'') = 52" "code (CHR ''5'') = 53"
  by (simp_all add: isspace_def tolower_def isdigit_def code_def)

lemmas strtod_defs = strtod_def skip_space_def sign_of_def strtod_abs_def has_prefix_def strtod_decimal_def
  mantissa_def exponent_def number_def digit_val_def signed_double_def pow_rat_def nan_suffix_def char_facts

end
