(* ===== verification/DoubleBits.thy ===== *)
theory DoubleBits
  imports Doubles
begin

text \<open>
  The object representation of a \<open>double\<close>: IEEE 754 binary64, as it is read through a union
  or copied byte by byte. All NaNs are represented by the quiet NaN that
  \<open>std::numeric_limits<double>::quiet_NaN()\<close> yields.
\<close>

definition sign_bit :: "bool \<Rightarrow> int" where
  "sign_bit s = (if s then 2 ^ 63 else 0)"

definition significand :: "rat \<Rightarrow> int" where
  \<comment> \<open>in units of the last place\<close>
  "significand q = \<lfloor>\<bar>q\<bar> / 2 powi ulp_exp q\<rfloor>"

definition bits_of_double :: "double \<Rightarrow> 64 word" where
  "bits_of_double x = (case x of
     NaN \<Rightarrow> 0x7FF8000000000000
   | Inf s \<Rightarrow> word_of_int (sign_bit s + 0x7FF0000000000000)
   | Zero s \<Rightarrow> word_of_int (sign_bit s)
   | Fin q \<Rightarrow>
       let m = significand q
       in word_of_int (sign_bit (q < 0) +
            (if m < 2 ^ 52 then m  \<comment> \<open>subnormal\<close>
             else (ulp_exp q + 1075) * 2 ^ 52 + (m - 2 ^ 52))))"

definition double_of_bits :: "64 word \<Rightarrow> double" where
  "double_of_bits w =
     (let n = uint w; s = (2 ^ 63 \<le> n); e = n div 2 ^ 52 mod 2 ^ 11; m = n mod 2 ^ 52;
          sg = (if s then - 1 else 1)
      in if e = 2047 then (if m = 0 then Inf s else NaN)
         else if e = 0 then (if m = 0 then Zero s else Fin (sg * of_int m * 2 powi (- 1074)))
         else Fin (sg * of_int (m + 2 ^ 52) * 2 powi (e - 1075)))"

lemma fields:
  fixes s :: bool
  assumes "0 \<le> ex" and "ex < 2 ^ 11" and "0 \<le> f" and "f < 2 ^ 52"
  defines "n \<equiv> sign_bit s + ex * 2 ^ 52 + f"
  shows "uint (word_of_int n :: 64 word) = n" and "(2 ^ 63 \<le> n) = s"
    and "n div 2 ^ 52 mod 2 ^ 11 = ex" and "n mod 2 ^ 52 = f"
proof -
  have b: "0 \<le> n" "n < 2 ^ 64" "(2 ^ 63 \<le> n) = s"
    using assms by (auto simp: sign_bit_def)
  then show "uint (word_of_int n :: 64 word) = n" by (simp add: uint_word_of_int)
  show "(2 ^ 63 \<le> n) = s" by (rule b(3))
  define k where "k = (if s then 2 ^ 11 else 0) + ex"
  have n: "n = f + k * 2 ^ 52" by (simp add: n_def sign_bit_def k_def)
  have "(f + k * 2 ^ 52) div 2 ^ 52 = k + f div 2 ^ 52" by (rule div_mult_self1) simp
  moreover have "(f + k * 2 ^ 52) mod 2 ^ 52 = f mod 2 ^ 52" by (rule mod_mult_self1)
  ultimately have "n div 2 ^ 52 = (if s then 2 ^ 11 else 0) + ex" "n mod 2 ^ 52 = f"
    using assms(3,4) by (simp_all add: n k_def)
  then show "n div 2 ^ 52 mod 2 ^ 11 = ex" "n mod 2 ^ 52 = f" using assms(1,2) by auto
qed

lemma significand_bounds:
  assumes "wf_double (Fin q)"
  shows "\<bar>q\<bar> = of_int (significand q) * 2 powi ulp_exp q" and "0 < significand q" and "significand q < 2 ^ 53"
    and "significand q < 2 ^ 52 \<Longrightarrow> ulp_exp q = - 1074" and "- 1074 \<le> ulp_exp q" and "ulp_exp q \<le> 971"
proof -
  let ?u = "ulp_exp q" and ?l = "ilog2 q" and ?m = "significand q"
  have q: "q \<noteq> 0" "rnd q = q" "\<bar>q\<bar> < 2 powi 1024" using assms by (simp_all add: huge_def)
  have p: "(0::rat) < 2 powi ?u" by simp
  define r where "r = round_even (q / 2 powi ?u)"
  have "of_int r * 2 powi ?u = q" using q(1,2) by (simp add: rnd_def r_def)
  then have "\<bar>q\<bar> = of_int \<bar>r\<bar> * 2 powi ?u" by (metis abs_mult abs_of_pos of_int_abs p)
  moreover from this have "?m = \<bar>r\<bar>" by (simp add: significand_def flip: of_int_abs)
  ultimately show m: "\<bar>q\<bar> = of_int ?m * 2 powi ?u" by simp
  have l: "2 powi ?l \<le> \<bar>q\<bar>" "\<bar>q\<bar> < 2 powi (?l + 1)" using ilog2_bounds [OF q(1)] by simp_all
  have "0 < \<bar>q\<bar>" using q(1) by simp
  then have "0 < (of_int ?m :: rat)" unfolding m using p by (simp add: zero_less_mult_iff)
  then show "0 < ?m" by simp
  show u: "- 1074 \<le> ?u" by (simp add: ulp_exp_def)
  have "2 powi ?l < (2 powi 1024 :: rat)" using l(1) q(3) by linarith
  then have "?l < 1024" by (simp only: powi_less_iff)
  then show "?u \<le> 971" by (simp add: ulp_exp_def)
  have shift: "of_int ?m < (2 powi k :: rat)" if "\<bar>q\<bar> < 2 powi (k + ?u)" for k
    using that p unfolding m by (simp add: power_int_add)
  have "\<bar>q\<bar> < 2 powi (53 + ?u)"
  proof -
    have "?l + 1 \<le> 53 + ?u" by (simp add: ulp_exp_def)
    from powi_mono [OF this] l(2) show ?thesis by linarith
  qed
  from shift [OF this] have "(of_int ?m :: rat) < of_int (2 ^ 53)" by simp
  then show "?m < 2 ^ 53" by (simp only: of_int_less_iff)
  show "?u = - 1074" if "?m < 2 ^ 52"
  proof (rule ccontr)
    assume "?u \<noteq> - 1074"
    then have "?l = ?u + 52" by (simp add: ulp_exp_def max_def split: if_splits)
    then have "2 powi 52 * 2 powi ?u \<le> \<bar>q\<bar>" using l(1) by (simp add: power_int_add mult.commute)
    then have "(2 powi 52 :: rat) \<le> of_int ?m" unfolding m using p by simp
    then have "(of_int (2 ^ 52) :: rat) \<le> of_int ?m" by simp
    then have "2 ^ 52 \<le> ?m" by (simp only: of_int_le_iff)
    with that show False by simp
  qed
qed

lemma bits_roundtrip: "wf_double x \<Longrightarrow> double_of_bits (bits_of_double x) = x"
proof (cases x)
  case NaN
  then show ?thesis by (simp add: bits_of_double_def double_of_bits_def Let_def)
next
  case (Inf s)
  then show ?thesis
    using fields [of 2047 0 s] by (simp add: bits_of_double_def double_of_bits_def Let_def)
next
  case (Zero s)
  then show ?thesis
    using fields [of 0 0 s] by (simp add: bits_of_double_def double_of_bits_def Let_def)
next
  case (Fin q)
  assume "wf_double x"
  then have wf: "wf_double (Fin q)" by (simp add: Fin)
  note S = significand_bounds [OF wf]
  let ?m = "significand q" and ?u = "ulp_exp q"
  have sg: "(if q < 0 then - 1 else 1) * (of_int ?m * 2 powi ?u) = q"
    unfolding S(1) [symmetric] by simp
  show ?thesis
  proof (cases "?m < 2 ^ 52")
    case True
    then have b: "bits_of_double x = word_of_int (sign_bit (q < 0) + 0 * 2 ^ 52 + ?m)"
      by (simp add: Fin bits_of_double_def Let_def)
    show ?thesis
      unfolding b double_of_bits_def Let_def
      using fields [of 0 ?m "q < 0"] S(2) True sg S(4) [OF True] by (simp add: Fin mult.assoc)
  next
    case False
    let ?e = "?u + 1075" and ?f = "?m - 2 ^ 52"
    have b: "bits_of_double x = word_of_int (sign_bit (q < 0) + ?e * 2 ^ 52 + ?f)"
      using False by (simp add: Fin bits_of_double_def Let_def)
    have r: "0 \<le> ?e" "?e < 2 ^ 11" "0 \<le> ?f" "?f < 2 ^ 52" "?e \<noteq> 0" "?e \<noteq> 2047"
      using S(3,5,6) False by simp_all
    show ?thesis
      unfolding b double_of_bits_def Let_def
        fields(1) [OF r(1-4), of "q < 0"] fields(2) [OF r(1-4), of "q < 0"]
        fields(3) [OF r(1-4), of "q < 0"] fields(4) [OF r(1-4), of "q < 0"]
      using sg r(5,6) by (simp add: Fin mult.assoc)
  qed
qed

end
