(* ===== verification/Server.thy ===== *)
theory Server
  imports PercMeters ExpiringCache CLib DoubleBits
begin

text \<open>
  The parsers of \<open>server/spectatord.cc\<close>: from a received buffer to updates of the registry,
  for the daemon's own line protocol and for statsd. The parsers walk the buffer with
  pointers; a pointer is the rest of the memory from it on (\<open>cmem\<close>), which goes beyond the
  terminator of the line. \<open>None\<close> stands for undefined behaviour: a read outside the buffer, a
  conversion or an arithmetic operation whose result is not representable.
\<close>

section \<open>Errors\<close>

datatype parse_error =
    Expecting_separator nat | Invalid_ttl nat | Invalid_timestamp nat
  | Missing_name | Missing_value | Unable_to_parse_value | Unknown_type char
  | Name_required | Statsd_no_value string | Expected_bar string
  | Invalid_metric_type string | Invalid_type_for_name string string
  | Invalid_sampling_rate string | Invalid_tags string

fun render :: "parse_error \<Rightarrow> string" where
  "render (Expecting_separator i) = ''Expecting separator ':' at index '' @ show_nat i"
| "render (Invalid_ttl i) = ''Invalid ttl specified for gauge at index '' @ show_nat i"
| "render (Invalid_timestamp i) = ''Invalid timestamp specified for monotonic sampled source at index '' @ show_nat i"
| "render Missing_name = ''Missing name''"
| "render Missing_value = ''Missing value''"
| "render Unable_to_parse_value = ''Unable to parse value for measurement''"
| "render (Unknown_type c) = ''Unknown type: '' @ [c]"
| "render Name_required = ''Invalid format: name is required''"
| "render (Statsd_no_value s) = ''Unable to parse value starting at '' @ s"
| "render (Expected_bar s) = ''Invalid format. Expected | starting at '' @ s"
| "render (Invalid_metric_type s) = ''Invalid metric type for '' @ s"
| "render (Invalid_type_for_name n s) = ''Invalid type for name '' @ n @ '' ('' @ s @ '')''"
| "render (Invalid_sampling_rate n) = ''Invalid sampling rate for name='' @ n"
| "render (Invalid_tags n) = ''Invalid tags for name='' @ n"

section \<open>The server\<close>

record 'd server =
  sv_registry :: "'d registry"
  sv_parsed_count :: nat
  sv_parse_errors :: nat
  sv_perc_timers :: "'d perc_timer cache"
  sv_perc_ds :: "perc_dist cache"

definition new_server :: "int \<Rightarrow> 'd registry \<Rightarrow> 'd server" where
  "new_server now R =
     (let (pc, R1) = get_counter now (id_of ''spectatord.parsedCount'' []) R;
          (pe, R2) = get_counter now (id_of ''spectatord.parseErrors'' []) R1
      in \<lparr>sv_registry = R2, sv_parsed_count = pc, sv_parse_errors = pe, sv_perc_timers = [], sv_perc_ds = []\<rparr>)"

definition on_registry :: "('d registry \<Rightarrow> 'd registry) \<Rightarrow> 'd server \<Rightarrow> 'd server" where
  "on_registry f S = S\<lparr>sv_registry := f (sv_registry S)\<rparr>"

definition create_perc_timer :: "'d absl_time \<Rightarrow> int \<Rightarrow> meter_id \<Rightarrow> 'd registry \<Rightarrow> 'd perc_timer \<times> 'd registry" where
  "create_perc_timer A now i R = new_perc_timer now i (ab_nanos A 1) (ab_seconds A (24 * 3600)) R"

definition create_perc_ds :: "int \<Rightarrow> meter_id \<Rightarrow> 'd registry \<Rightarrow> perc_dist \<times> 'd registry" where
  "create_perc_ds now i R = new_perc_dist now i int64_min int64_max R"

section \<open>Feeding lines\<close>

definition join_error :: "string \<Rightarrow> string \<Rightarrow> string" where
  "join_error err_msg e = (if err_msg = [] then e else err_msg @ [CHR 0x0A] @ e)"

definition count_line :: "int \<Rightarrow> parse_error option \<Rightarrow> 'd server \<Rightarrow> 'd server" where
  "count_line now err S =
     (if cf_status_metrics_enabled (rg_config (sv_registry S))
      then on_registry (update_counter (case err of Some _ \<Rightarrow> sv_parse_errors S | None \<Rightarrow> sv_parsed_count S)
             (counter_increment now)) S
      else S)"

type_synonym 'd line_parser = "cmem \<Rightarrow> 'd server \<Rightarrow> ('d server \<times> parse_error option) option"

function parse_lines :: "'d line_parser \<Rightarrow> int \<Rightarrow> cmem \<Rightarrow> string \<Rightarrow> 'd server \<Rightarrow> ('d server \<times> string) option" where
  "parse_lines parser now p err_msg S =
     (if \<not> terminated p then None
      else if hd p = NUL then Some (S, err_msg)
      else
        let newline = strchr p (CHR 0x0A);
            line = (case newline of Some n \<Rightarrow> p[n := NUL] | None \<Rightarrow> p)
        in case parser line S of
             None \<Rightarrow> None
           | Some (S1, maybe_err) \<Rightarrow>
               let S2 = count_line now maybe_err S1;
                   err2 = (case maybe_err of Some e \<Rightarrow> join_error err_msg (render e) | None \<Rightarrow> err_msg)
               in case newline of
                    None \<Rightarrow> Some (S2, err2)
                  | Some n \<Rightarrow> parse_lines parser now (dropWhile (\<lambda>c. c = CHR 0x0A) (drop (Suc n) p)) err2 S2)"
  by pat_completeness auto
termination
proof (relation "measure (\<lambda>(parser, now, p, err_msg, S). length p)", goal_cases)
  case 1
  then show ?case by simp
next
  case (2 parser now p err_msg S newline line a S1 maybe_err S2 err2 n)
  have "length (dropWhile (\<lambda>c. c = CHR 0x0A) (drop (Suc n) p)) \<le> length p - Suc n"
    by (metis length_drop length_dropWhile_le)
  moreover have "0 < length p" using 2(1) by (auto simp: terminated_def)
  ultimately have "length (dropWhile (\<lambda>c. c = CHR 0x0A) (drop (Suc n) p)) < length p" by linarith
  then show ?case by simp
qed

declare parse_lines.simps [simp del]

section \<open>The line protocol\<close>

datatype union_val = VD double | VU "64 word"
  \<comment> \<open>\<open>valueT\<close>, with the member that was written last\<close>

definition read_u :: "union_val \<Rightarrow> 64 word" where
  \<comment> \<open>reading \<open>u\<close> after \<open>d\<close> was written yields the representation of the double\<close>
  "read_u v = (case v of VU u \<Rightarrow> u | VD d \<Rightarrow> bits_of_double d)"

definition read_d :: "union_val \<Rightarrow> double" where
  "read_d v = (case v of VD d \<Rightarrow> d | VU u \<Rightarrow> double_of_bits u)"

definition find_from :: "(char \<Rightarrow> bool) \<Rightarrow> string \<Rightarrow> nat \<Rightarrow> nat option" where
  \<comment> \<open>\<open>find\<close> and \<open>find_first_of\<close> of a \<open>string_view\<close>\<close>
  "find_from P s i = (let k = i + length (takeWhile (\<lambda>c. \<not> P c) (drop i s)) in
     if k < length s then Some k else None)"

definition substr :: "string \<Rightarrow> nat \<Rightarrow> nat \<Rightarrow> string" where
  "substr s i n = take n (drop i s)"

definition comma_or_colon :: "char \<Rightarrow> bool" where
  "comma_or_colon c \<longleftrightarrow> c = CHR '','' \<or> c = CHR '':''"

lemma find_from_Some: "find_from P s i = Some k \<Longrightarrow> i \<le> k \<and> k < length s \<and> P (s ! k)"
proof -
  assume f: "find_from P s i = Some k"
  let ?t = "takeWhile (\<lambda>c. \<not> P c) (drop i s)"
  have k: "k = i + length ?t" "k < length s" using f by (simp_all add: find_from_def Let_def split: if_splits)
  have "P (drop i s ! length ?t)" using k nth_length_takeWhile [of "\<lambda>c. \<not> P c" "drop i s"] by simp
  then show ?thesis using k by simp
qed

function tag_loop :: "string \<Rightarrow> nat \<Rightarrow> tag_list \<Rightarrow> parse_error + nat \<times> tag_list" where
  "tag_loop s pos tags =
     (if s ! pos = CHR '':'' then Inr (pos, tags)
      else case find_from (\<lambda>c. c = CHR ''='') s (Suc pos) of
        None \<Rightarrow> Inr (Suc pos, tags)
      | Some k_pos \<Rightarrow>
          (case find_from comma_or_colon s (Suc k_pos) of
             None \<Rightarrow> Inl Missing_value
           | Some v_pos \<Rightarrow>
               tag_loop s v_pos (tag_put (sanitize (substr s (Suc pos) (k_pos - Suc pos)))
                 (sanitize (substr s (Suc k_pos) (v_pos - Suc k_pos))) tags)))"
  by pat_completeness auto
termination
  by (relation "measure (\<lambda>(s, pos, tags). length s - pos)") (auto dest!: find_from_Some)

declare tag_loop.simps [simp del]

definition convert_value :: "char \<Rightarrow> cmem \<Rightarrow> union_val \<times> nat" where
  "convert_value type value_str =
     (if type = CHR ''U'' then (let (u, n) = strtoull value_str in (VU u, n))
      else (let (d, n) = strtod value_str in (VD d, n)))"

definition get_measurement :: "char \<Rightarrow> cmem \<Rightarrow> (parse_error + meter_id \<times> union_val) option" where
  \<comment> \<open>the warning about trailing characters is only logged\<close>
  "get_measurement type m =
     (let s = cstr m in
      case find_from comma_or_colon s 0 of
        None \<Rightarrow> Some (Inl Missing_name)
      | Some pos0 \<Rightarrow>
          if pos0 = 0 then Some (Inl Missing_name)
          else
            let name = substr s 0 pos0
            in case (if s ! pos0 = CHR '','' then tag_loop s pos0 [] else Inr (pos0, [])) of
                 Inl e \<Rightarrow> Some (Inl e)
               | Inr (pos, tags) \<Rightarrow>
                   let value_str = drop (Suc pos) m
                   in if \<not> terminated value_str then None
                      else
                        let (value, consumed) = convert_value type value_str
                        in if consumed = 0 then Some (Inl Unable_to_parse_value)
                           else Some (Inr (\<lparr>id_name = sanitize name, id_tags = tags\<rparr>, value)))"

definition update_age_gauge :: "nat \<Rightarrow> (age_gauge \<Rightarrow> age_gauge) \<Rightarrow> 'd registry \<Rightarrow> 'd registry" where
  "update_age_gauge r f R = R\<lparr>rg_meters := (rg_meters R)\<lparr>am_age_gauges := mm_update r f (am_age_gauges (rg_meters R))\<rparr>\<rparr>"

definition update_gauge :: "nat \<Rightarrow> (gauge \<Rightarrow> gauge) \<Rightarrow> 'd registry \<Rightarrow> 'd registry" where
  "update_gauge r f R = R\<lparr>rg_meters := (rg_meters R)\<lparr>am_gauges := mm_update r f (am_gauges (rg_meters R))\<rparr>\<rparr>"

definition update_max_gauge :: "nat \<Rightarrow> (max_gauge \<Rightarrow> max_gauge) \<Rightarrow> 'd registry \<Rightarrow> 'd registry" where
  "update_max_gauge r f R = R\<lparr>rg_meters := (rg_meters R)\<lparr>am_max_gauges := mm_update r f (am_max_gauges (rg_meters R))\<rparr>\<rparr>"

definition update_mono :: "nat \<Rightarrow> (mono_counter \<Rightarrow> mono_counter) \<Rightarrow> 'd registry \<Rightarrow> 'd registry" where
  "update_mono r f R = R\<lparr>rg_meters := (rg_meters R)\<lparr>am_mono_counters := mm_update r f (am_mono_counters (rg_meters R))\<rparr>\<rparr>"

definition update_mono_uint :: "nat \<Rightarrow> (mono_uint \<Rightarrow> mono_uint) \<Rightarrow> 'd registry \<Rightarrow> 'd registry" where
  "update_mono_uint r f R = R\<lparr>rg_meters := (rg_meters R)\<lparr>am_mono_counters_uint := mm_update r f (am_mono_counters_uint (rg_meters R))\<rparr>\<rparr>"

definition update_sampled :: "nat \<Rightarrow> (mono_sampled \<Rightarrow> mono_sampled) \<Rightarrow> 'd registry \<Rightarrow> 'd registry" where
  "update_sampled r f R = R\<lparr>rg_meters := (rg_meters R)\<lparr>am_mono_sampled := mm_update r f (am_mono_sampled (rg_meters R))\<rparr>\<rparr>"

definition to_nanos :: "double \<Rightarrow> int option" where
  \<comment> \<open>\<open>static_cast<int64_t>(d * 1e9)\<close>\<close>
  "to_nanos d = dbl_to_int64 (dmul d (dint 1000000000))"

definition apply_measurement ::
  "'d absl_time \<Rightarrow> int \<Rightarrow> int \<Rightarrow> char \<Rightarrow> int \<Rightarrow> meter_id \<Rightarrow> union_val \<Rightarrow> 'd server \<Rightarrow>
   ('d server \<times> parse_error option) option" where
  \<comment> \<open>the switch of \<open>parse_line\<close>; \<open>now\<close> is the wall clock, \<open>steady\<close> the clock of the caches\<close>
  "apply_measurement A now steady type extra i v S =
     (let R = sv_registry S; done = (\<lambda>R'. Some (S\<lparr>sv_registry := R'\<rparr>, None)) in
      if type = CHR ''A'' then
        (let (r, R1) = get_age_gauge now i R in
         if deq (read_d v) dpos0 then done (update_age_gauge r (update_last_success now) R1)
         else case to_nanos (read_d v) of None \<Rightarrow> None
              | Some n \<Rightarrow> done (update_age_gauge r (update_last_success n) R1))
      else if type = CHR ''c'' then
        (let (r, R1) = get_counter now i R in done (update_counter r (counter_add now (read_d v)) R1))
      else if type = CHR ''C'' then
        (let (r, R1) = get_mono_counter now i R in done (update_mono r (mono_set now (read_d v)) R1))
      else if type = CHR ''d'' then
        (let (r, R1) = get_dist_summary now i R in done (update_dist r (dist_summary_record now (read_d v)) R1))
      else if type = CHR ''D'' then
        (let (p, c, R1) = get_or_create (create_perc_ds now) steady i (sv_perc_ds S) R in
         case dbl_to_int64 (read_d v) of None \<Rightarrow> None
         | Some n \<Rightarrow> Some (S\<lparr>sv_registry := perc_dist_record now n p R1, sv_perc_ds := c\<rparr>, None))
      else if type = CHR ''g'' then
        (if 0 < extra
         then let (r, R1) = get_gauge_ttl A now i (ab_seconds A extra) R in done (update_gauge r (gauge_set now (read_d v)) R1)
         else let (r, R1) = get_gauge A now i R in done (update_gauge r (gauge_set now (read_d v)) R1))
      else if type = CHR ''m'' then
        (let (r, R1) = get_max_gauge now i R in done (update_max_gauge r (max_gauge_update now (read_d v)) R1))
      else if type = CHR ''t'' then
        (case to_nanos (read_d v) of None \<Rightarrow> None
         | Some n \<Rightarrow> let (r, R1) = get_timer now i R in done (update_timer r (timer_record A now (ab_nanos A n)) R1))
      else if type = CHR ''T'' then
        (case to_nanos (read_d v) of None \<Rightarrow> None
         | Some n \<Rightarrow>
             let (p, c, R1) = get_or_create (create_perc_timer A now) steady i (sv_perc_timers S) R
             in Some (S\<lparr>sv_registry := perc_timer_record A now (ab_nanos A n) p R1, sv_perc_timers := c\<rparr>, None))
      else if type = CHR ''U'' then
        (let (r, R1) = get_mono_uint now i R in done (update_mono_uint r (mono_uint_set now (read_u v)) R1))
      else if type = CHR ''X'' then
        (if 0 < extra
         then if in_int64 (extra * 1000 * 1000)
              then let (r, R1) = get_mono_sampled now i R
                   in done (update_sampled r (mono_sampled_set now (dint (uint (read_u v))) (extra * 1000 * 1000)) R1)
              else None
         else done R)
      else Some (S, Some (Unknown_type type)))"

definition parse_line :: "'d absl_time \<Rightarrow> int \<Rightarrow> int \<Rightarrow> 'd line_parser" where
  "parse_line A now steady buffer S =
     (case buffer of
        type # c # rest \<Rightarrow>
          (let ttl = (c = CHR '','') in
           if ttl \<and> \<not> terminated rest then None
           else
             let (extra, n) = (if ttl then strtoll rest else (0, 0));
                 idx = (if ttl then 2 + n else 1);
                 p = drop idx buffer
             in if ttl \<and> extra \<le> 0 \<and> type = CHR ''g'' then Some (S, Some (Invalid_ttl 2))
                else if ttl \<and> extra \<le> 0 \<and> type = CHR ''X'' then Some (S, Some (Invalid_timestamp 2))
                else case p of
                  [] \<Rightarrow> None
                | x # q \<Rightarrow>
                    if x \<noteq> CHR '':'' then Some (S, Some (Expecting_separator idx))
                    else if \<not> terminated q then None
                    else (case get_measurement type q of
                        None \<Rightarrow> None
                      | Some (Inl e) \<Rightarrow> Some (S, Some e)
                      | Some (Inr (i, v)) \<Rightarrow> apply_measurement A now steady type extra i v S))
      | _ \<Rightarrow> None)"

definition parse :: "'d absl_time \<Rightarrow> int \<Rightarrow> int \<Rightarrow> cmem \<Rightarrow> 'd server \<Rightarrow> ('d server \<times> string) option" where
  \<comment> \<open>the collected errors; the empty string is the result \<open>{}\<close>\<close>
  "parse A now steady buffer S = parse_lines (parse_line A now steady) now buffer [] S"

section \<open>The statsd protocol\<close>

datatype statsd_type = S_Counter | S_Timing | S_Gauge | S_Histogram | S_Set

definition add_tag :: "tag_list \<Rightarrow> string \<Rightarrow> string option \<Rightarrow> string \<Rightarrow> tag_list option" where
  \<comment> \<open>key and value when there is a value, otherwise the whole as the key; \<open>None\<close> is \<open>false\<close>\<close>
  "add_tag tags key maybe_value whole =
     (let (k, v) = (case maybe_value of Some v \<Rightarrow> (key, v) | None \<Rightarrow> (whole, ''1''))
      in if k = [] \<or> v = [] then None else Some (tag_put (sanitize k) (sanitize v) tags))"

definition deref :: "cmem \<Rightarrow> nat \<Rightarrow> char option" where
  "deref m i = (if i < length m then Some (m ! i) else None)"

definition tag_between :: "cmem \<Rightarrow> nat \<Rightarrow> nat \<Rightarrow> nat option \<Rightarrow> nat \<Rightarrow> tag_list \<Rightarrow> tag_list option" where
  \<comment> \<open>the call of \<open>add_tag\<close> with the pointers into the line\<close>
  "tag_between m begin_key end_key begin_value p tags =
     add_tag tags (substr m begin_key (end_key - begin_key))
       (map_option (\<lambda>b. substr m b (p - b)) begin_value) (substr m begin_key (p - begin_key))"

function statsd_tags :: "cmem \<Rightarrow> nat \<Rightarrow> nat \<Rightarrow> nat \<Rightarrow> nat option \<Rightarrow> tag_list \<Rightarrow> tag_list option option" where
  "statsd_tags m p begin_key end_key begin_value tags =
     (case deref m p of
        None \<Rightarrow> None
      | Some c0 \<Rightarrow>
          if c0 = NUL then Some (tag_between m begin_key end_key begin_value p tags)
          else case deref m (Suc p) of
            None \<Rightarrow> None
          | Some c1 \<Rightarrow>
              let (p2, end_key2, begin_value2) =
                (if c1 = CHR '':'' then (Suc (Suc p), Suc p, Some (Suc (Suc p))) else (Suc p, end_key, begin_value))
              in case deref m p2 of
                   None \<Rightarrow> None
                 | Some c2 \<Rightarrow>
                     if c2 = CHR '',''
                     then case tag_between m begin_key end_key2 begin_value2 p2 tags of
                            None \<Rightarrow> Some None
                          | Some tags2 \<Rightarrow> statsd_tags m (Suc p2) (Suc p2) end_key2 None tags2
                     else statsd_tags m p2 begin_key end_key2 begin_value2 tags)"
  by pat_completeness auto
termination
  by (relation "measure (\<lambda>(m, p, bk, ek, bv, tags). length m - p)") (auto simp: deref_def split: if_splits)

declare statsd_tags.simps [simp del]

definition int_max :: int where
  "int_max = 2 ^ 31 - 1"

definition update_statsd_metric ::
  "'d absl_time \<Rightarrow> int \<Rightarrow> statsd_type \<Rightarrow> meter_id \<Rightarrow> double \<Rightarrow> double \<Rightarrow> 'd registry \<Rightarrow> 'd registry option" where
  \<comment> \<open>\<open>None\<close>: the result of \<open>lround\<close> is unspecified, or the loop counter, an \<open>int\<close>, overflows\<close>
  "update_statsd_metric A now type i value sampling_rate R = (case type of
     S_Counter \<Rightarrow>
       let (r, R1) = get_counter now i R
       in Some (update_counter r (counter_add now (ddiv value sampling_rate)) R1)
   | S_Gauge \<Rightarrow> let (r, R1) = get_gauge A now i R in Some (update_gauge r (gauge_set now value) R1)
   | S_Histogram \<Rightarrow>
       (case dbl_lround (ddiv (dint 1) sampling_rate) of
          None \<Rightarrow> None
        | Some k \<Rightarrow>
            let (r, R1) = get_dist_summary now i R
            in if k \<le> int_max then Some (update_dist r (dist_summary_record now value ^^ nat k) R1) else None)
   | S_Timing \<Rightarrow>
       (case (dbl_lround (ddiv (dint 1) sampling_rate), dbl_lround (dmul value (dint 1000000))) of
          (Some k, Some ns) \<Rightarrow>
            let (r, R1) = get_timer now i R
            in if k \<le> int_max then Some (update_timer r (timer_record A now (ab_nanos A ns) ^^ nat k) R1) else None
        | _ \<Rightarrow> None)
   | S_Set \<Rightarrow> Some R)"

definition statsd_type_of :: "cmem \<Rightarrow> nat \<Rightarrow> string \<Rightarrow> (parse_error + statsd_type \<times> nat) option" where
  \<comment> \<open>the switch on the type character, and the position after it\<close>
  "statsd_type_of m p name = (case deref m p of
     None \<Rightarrow> None
   | Some c \<Rightarrow>
       if c = CHR ''c'' then Some (Inr (S_Counter, Suc p))
       else if c = CHR ''g'' then Some (Inr (S_Gauge, Suc p))
       else if c = CHR ''h'' then Some (Inr (S_Histogram, Suc p))
       else if c = CHR ''s'' then Some (Inr (S_Set, Suc p))
       else if c = CHR ''m'' then
         (case deref m (Suc p) of
            None \<Rightarrow> None
          | Some c2 \<Rightarrow> if c2 \<noteq> CHR ''s'' then Some (Inl (Invalid_metric_type (cstr m)))
                      else Some (Inr (S_Timing, Suc (Suc p))))
       else Some (Inl (Invalid_type_for_name name (cstr m))))"

definition statsd_rate :: "cmem \<Rightarrow> nat \<Rightarrow> string \<Rightarrow> (parse_error + double \<times> nat) option" where
  \<comment> \<open>after the bar: the optional sampling rate, and the position after it and its bar\<close>
  "statsd_rate m p name = (case deref m p of
     None \<Rightarrow> None
   | Some c \<Rightarrow>
       if c \<noteq> CHR ''@'' then Some (Inr (dint 1, p))
       else if \<not> terminated (drop (Suc p) m) then None
       else let (r, n) = strtod (drop (Suc p) m); p2 = Suc p + n
            in if n = 0 \<or> dle r dpos0 \<or> dlt (dint 1) r then Some (Inl (Invalid_sampling_rate name))
               else case deref m p2 of
                      None \<Rightarrow> None
                    | Some c2 \<Rightarrow> Some (Inr (r, if c2 = CHR ''|'' then Suc p2 else p2)))"

definition statsd_options :: "cmem \<Rightarrow> nat \<Rightarrow> string \<Rightarrow> (parse_error + double \<times> tag_list) option" where
  \<comment> \<open>sampling rate and tags, both optional\<close>
  "statsd_options m p name = (case deref m p of
     None \<Rightarrow> None
   | Some c \<Rightarrow>
       if c \<noteq> CHR ''|'' then Some (Inr (dint 1, []))
       else case statsd_rate m (Suc p) name of
         None \<Rightarrow> None
       | Some (Inl e) \<Rightarrow> Some (Inl e)
       | Some (Inr (r, p3)) \<Rightarrow>
           (case deref m p3 of
              None \<Rightarrow> None
            | Some c3 \<Rightarrow>
                if c3 \<noteq> CHR ''#'' then Some (Inr (r, []))
                else case statsd_tags m (Suc p3) (Suc p3) 0 None [] of
                  None \<Rightarrow> None
                | Some None \<Rightarrow> Some (Inl (Invalid_tags name))
                | Some (Some tags) \<Rightarrow> Some (Inr (r, tags))))"

definition statsd_parse :: "cmem \<Rightarrow> (parse_error + statsd_type \<times> meter_id \<times> double \<times> double) option" where
  \<comment> \<open>\<open>parse_statsd_line\<close> up to the update\<close>
  "statsd_parse m =
     (if \<not> terminated m then None
      else case strchr m (CHR '':'') of
        None \<Rightarrow> Some (Inl Name_required)
      | Some colon \<Rightarrow>
          if colon = 0 then Some (Inl Name_required)
          else
            let name = substr m 0 colon; p = Suc colon; (value, n) = strtod (drop p m)
            in if n = 0 then Some (Inl (Statsd_no_value (cstr (drop p m))))
               else case deref m (p + n) of
                 None \<Rightarrow> None
               | Some c \<Rightarrow>
                   if c \<noteq> CHR ''|'' then Some (Inl (Expected_bar (cstr (drop (p + n) m))))
                   else case statsd_type_of m (Suc (p + n)) name of
                     None \<Rightarrow> None
                   | Some (Inl e) \<Rightarrow> Some (Inl e)
                   | Some (Inr (type, p2)) \<Rightarrow>
                       (case statsd_options m p2 name of
                          None \<Rightarrow> None
                        | Some (Inl e) \<Rightarrow> Some (Inl e)
                        | Some (Inr (rate, tags)) \<Rightarrow>
                            Some (Inr (type, \<lparr>id_name = sanitize name, id_tags = tags\<rparr>, value, rate))))"

definition parse_statsd_line :: "'d absl_time \<Rightarrow> int \<Rightarrow> 'd line_parser" where
  "parse_statsd_line A now buffer S = (case statsd_parse buffer of
     None \<Rightarrow> None
   | Some (Inl e) \<Rightarrow> Some (S, Some e)
   | Some (Inr (type, i, value, rate)) \<Rightarrow>
       (case update_statsd_metric A now type i value rate (sv_registry S) of
          None \<Rightarrow> None
        | Some R \<Rightarrow> Some (S\<lparr>sv_registry := R\<rparr>, None)))"

definition parse_statsd :: "'d absl_time \<Rightarrow> int \<Rightarrow> cmem \<Rightarrow> 'd server \<Rightarrow> ('d server \<times> string) option" where
  "parse_statsd A now buffer S = parse_lines (parse_statsd_line A now) now buffer [] S"

end
