(* ===== verification/ParserBounds.thy ===== *)
theory ParserBounds
  imports Server
begin

text \<open>
  How far the parsers read: the statsd parser never looks beyond the terminator of its line; the
  parser of the daemon's own protocol does on lines that end in a comma, and on no other.
  A parser that stays within its lines parses a buffer line by line.
\<close>

section \<open>The statsd parser stays within its line\<close>

lemma takeWhile_less: "c \<in> set s \<Longrightarrow> length (takeWhile (\<lambda>x. x \<noteq> c) s) < length s"
  by (induction s) auto

definition char_at :: "string \<Rightarrow> nat \<Rightarrow> char" where
  "char_at l i = (if i < length l then l ! i else NUL)"

lemma deref_at: "i \<le> length l \<Longrightarrow> deref (l @ NUL # r) i = Some (char_at l i)"
  by (auto simp: deref_def char_at_def nth_append)

lemma char_at_inside: "char_at l i = c \<Longrightarrow> c \<noteq> NUL \<Longrightarrow> Suc i \<le> length l"
  by (auto simp: char_at_def split: if_splits)

lemma substr_local: "e \<le> length l \<Longrightarrow> substr (l @ x) b (e - b) = substr l b (e - b)"
  by (cases "b \<le> e") (simp_all add: substr_def)

lemma tag_between_local:
  "ek \<le> length l \<Longrightarrow> p \<le> length l \<Longrightarrow> tag_between (l @ x) bk ek bv p tags = tag_between l bk ek bv p tags"
  by (cases bv) (simp_all add: tag_between_def substr_local)

lemma statsd_tags_local:
  assumes "NUL \<notin> set l" and "p \<le> length l" and "ek \<le> length l"
  shows "\<exists>t. \<forall>r. statsd_tags (l @ NUL # r) p bk ek bv tags = Some t"
  using assms(2,3)
proof (induction "length l - p" arbitrary: p bk ek bv tags rule: less_induct)
  case less
  have d0: "deref (l @ NUL # r) p = Some (char_at l p)" for r by (rule deref_at [OF less.prems(1)])
  show ?case
  proof (cases "char_at l p = NUL")
    case True
    then have "statsd_tags (l @ NUL # r) p bk ek bv tags = Some (tag_between l bk ek bv p tags)" for r
      unfolding statsd_tags.simps [of _ p] d0 using tag_between_local [OF less.prems(2,1)] by simp
    then show ?thesis by blast
  next
    case False
    then have p1: "Suc p \<le> length l" by (rule char_at_inside [OF refl])
    have d1: "deref (l @ NUL # r) (Suc p) = Some (char_at l (Suc p))" for r by (rule deref_at [OF p1])
    define x where "x = (if char_at l (Suc p) = CHR '':'' then (Suc (Suc p), Suc p, Some (Suc (Suc p))) else (Suc p, ek, bv))"
    obtain p2 ek2 bv2 where x2: "x = (p2, ek2, bv2)" by (metis prod_cases3)
    have b: "p2 \<le> length l" "ek2 \<le> length l" "p < p2"
      using x2 p1 less.prems(2) char_at_inside [of l "Suc p" "CHR '':''"] NUL_neq(4)
      by (auto simp: x_def split: if_splits)
    have d2: "deref (l @ NUL # r) p2 = Some (char_at l p2)" for r by (rule deref_at [OF b(1)])
    have step: "statsd_tags (l @ NUL # r) p bk ek bv tags =
      (if char_at l p2 = CHR '',''
       then case tag_between l bk ek2 bv2 p2 tags of None \<Rightarrow> Some None
            | Some tags2 \<Rightarrow> statsd_tags (l @ NUL # r) (Suc p2) (Suc p2) ek2 None tags2
       else statsd_tags (l @ NUL # r) p2 bk ek2 bv2 tags)" for r
      unfolding statsd_tags.simps [of _ p] d0 d1 option.case Let_def x_def [symmetric] x2 prod.case d2
        tag_between_local [OF b(2,1)]
      using False by simp
    show ?thesis
    proof (cases "char_at l p2 = CHR '',''")
      case True
      then have "Suc p2 \<le> length l" using char_at_inside NUL_neq(5) by metis
      moreover from this have "length l - Suc p2 < length l - p" using b(3) by simp
      ultimately show ?thesis
        using less.hyps [of "Suc p2" ek2 "Suc p2" None] b(2) True unfolding step
        by (cases "tag_between l bk ek2 bv2 p2 tags") simp_all
    next
      case False
      have "length l - p2 < length l - p" using b(1,3) p1 by simp
      then show ?thesis using less.hyps [of p2 ek2 bk bv2 tags] b(1,2) False unfolding step by simp
    qed
  qed
qed

lemma strtod_within:
  assumes "p \<le> length l"
  shows "strtod (drop p (l @ NUL # r)) = strtod (drop p l)" and "p + snd (strtod (drop p l)) \<le> length l"
  using strtod_stop(2) [of "drop p l"] assms by (simp_all add: strtod_stop)

lemma statsd_type_local:
  assumes "NUL \<notin> set l" and "p \<le> length l"
  shows "\<exists>t. (\<forall>r. statsd_type_of (l @ NUL # r) p name = Some t) \<and>
    (\<forall>ty p2. t = Inr (ty, p2) \<longrightarrow> p2 \<le> length l)"
proof -
  note d = deref_at [OF assms(2)]
  show ?thesis
  proof (cases "char_at l p = CHR ''m''")
    case True
    then have "Suc p \<le> length l" using char_at_inside [of l p "CHR ''m''"] by (simp add: NUL_def)
    note d2 = deref_at [OF this]
    show ?thesis
    proof (cases "char_at l (Suc p) = CHR ''s''")
      case True
      then have "Suc (Suc p) \<le> length l" using char_at_inside [of l "Suc p" "CHR ''s''"] by (simp add: NUL_def)
      then show ?thesis using \<open>char_at l p = CHR ''m''\<close> True
        by (intro exI [of _ "Inr (S_Timing, Suc (Suc p))"]) (simp add: statsd_type_of_def d d2)
    next
      case False
      then show ?thesis using \<open>char_at l p = CHR ''m''\<close>
        by (intro exI [of _ "Inl (Invalid_metric_type l)"]) (simp add: statsd_type_of_def d d2 assms(1))
    qed
  next
    case False
    show ?thesis
    proof (cases "char_at l p = NUL")
      case True
      then show ?thesis
        by (intro exI [of _ "Inl (Invalid_type_for_name name l)"])
          (simp add: statsd_type_of_def d assms(1), simp add: NUL_def)
    next
      case False
      then have "Suc p \<le> length l" by (rule char_at_inside [OF refl])
      with \<open>char_at l p \<noteq> CHR ''m''\<close> show ?thesis
        by (cases "char_at l p = CHR ''c''"; cases "char_at l p = CHR ''g''"; cases "char_at l p = CHR ''h''";
            cases "char_at l p = CHR ''s''") (simp_all add: statsd_type_of_def d assms(1))
    qed
  qed
qed

lemma statsd_rate_local:
  assumes "NUL \<notin> set l" and "p \<le> length l"
  shows "\<exists>t. (\<forall>r. statsd_rate (l @ NUL # r) p name = Some t) \<and>
    (\<forall>q p2. t = Inr (q, p2) \<longrightarrow> p2 \<le> length l)"
proof -
  note d = deref_at [OF assms(2)]
  show ?thesis
  proof (cases "char_at l p = CHR ''@''")
    case False
    then show ?thesis using assms(2) by (simp add: statsd_rate_def d)
  next
    case True
    then have p1: "Suc p \<le> length l" using char_at_inside [of l p "CHR ''@''"] by (simp add: NUL_def)
    note sd = strtod_within(1) [OF p1]
    obtain q n where q: "strtod (drop (Suc p) l) = (q, n)" by fastforce
    have n: "Suc p + n \<le> length l" using strtod_within(2) [OF p1] q by simp
    note d2 = deref_at [OF n]
    have tm: "terminated (drop (Suc p) (l @ NUL # r))" for r using p1 by (simp add: terminated_def)
    define bad where "bad \<longleftrightarrow> n = 0 \<or> dle q dpos0 \<or> dlt (dint 1) q"
    define p3 where "p3 = (if char_at l (Suc p + n) = CHR ''|'' then Suc (Suc p + n) else Suc p + n)"
    have p3: "p3 \<le> length l"
      using n char_at_inside [of l "Suc p + n" "CHR ''|''"] by (auto simp: p3_def NUL_def)
    have "statsd_rate (l @ NUL # r) p name = Some (if bad then Inl (Invalid_sampling_rate name) else Inr (q, p3))" for r
      unfolding statsd_rate_def d option.case sd q prod.case Let_def d2 bad_def [symmetric] p3_def [symmetric]
      using tm True by simp
    with p3 show ?thesis
      by (intro exI [of _ "if bad then Inl (Invalid_sampling_rate name) else Inr (q, p3)"]) auto
  qed
qed

lemma statsd_options_local:
  assumes "NUL \<notin> set l" and "p \<le> length l"
  shows "\<exists>t. \<forall>r. statsd_options (l @ NUL # r) p name = Some t"
proof -
  note d = deref_at [OF assms(2)]
  show ?thesis
  proof (cases "char_at l p = CHR ''|''")
    case False
    then show ?thesis by (simp add: statsd_options_def d)
  next
    case True
    then have p1: "Suc p \<le> length l" using char_at_inside [of l p "CHR ''|''"] by (simp add: NUL_def)
    obtain t where t: "\<And>r. statsd_rate (l @ NUL # r) (Suc p) name = Some t"
      "\<And>q p2. t = Inr (q, p2) \<Longrightarrow> p2 \<le> length l"
      using statsd_rate_local [OF assms(1) p1, of name] by blast
    show ?thesis
    proof (cases t)
      case (Inl e)
      then show ?thesis using True by (simp add: statsd_options_def d t(1))
    next
      case (Inr qp)
      obtain q p3 where qp: "qp = (q, p3)" by fastforce
      then have p3: "p3 \<le> length l" using t(2) Inr by blast
      note d3 = deref_at [OF p3]
      show ?thesis
      proof (cases "char_at l p3 = CHR ''#''")
        case False
        then show ?thesis using True Inr qp by (simp add: statsd_options_def d t(1) d3)
      next
        case tag: True
        then have p4: "Suc p3 \<le> length l" using char_at_inside [of l p3 "CHR ''#''"] by (simp add: NUL_def)
        obtain ts where ts: "\<And>r. statsd_tags (l @ NUL # r) (Suc p3) (Suc p3) 0 None [] = Some ts"
          using statsd_tags_local [OF assms(1) p4, of 0 "Suc p3" None "[]"] by auto
        show ?thesis
          using True Inr qp tag by (cases ts) (simp_all add: statsd_options_def d t(1) d3 ts)
      qed
    qed
  qed
qed

lemma statsd_parse_local:
  assumes "NUL \<notin> set l"
  shows "\<exists>t. \<forall>r. statsd_parse (l @ NUL # r) = Some t"
proof -
  have tm: "terminated (l @ NUL # r)" for r by (simp add: terminated_def)
  have sc: "strchr (l @ NUL # r) c = strchr (l @ [NUL]) c" for r c
    using assms by (simp add: strchr_def)
  show ?thesis
  proof (cases "strchr (l @ [NUL]) (CHR '':'')")
    case None
    have "statsd_parse (l @ NUL # r) = Some (Inl Name_required)" for r
      unfolding statsd_parse_def sc [of r] None option.case using tm by simp
    then show ?thesis by blast
  next
    case (Some k)
    then have k: "k < length l" using assms
      using takeWhile_less [of "CHR '':''" l] by (auto simp: strchr_def Let_def split: if_splits)
    then have p: "Suc k \<le> length l" by simp
    have nm: "substr (l @ NUL # r) 0 k = substr l 0 k" for r using k by (simp add: substr_def)
    obtain v n where v: "strtod (drop (Suc k) l) = (v, n)" by fastforce
    have n: "Suc k + n \<le> length l" using strtod_within(2) [OF p] v by simp
    note d = deref_at [OF n]
    have c1: "cstr (drop q (l @ NUL # r)) = drop q l" if "q \<le> length l" for q r
      using that assms by (simp add: in_set_dropD) (metis cstr_append_nul in_set_dropD)
    have eq: "statsd_parse (l @ NUL # r) =
      (if k = 0 then Some (Inl Name_required)
       else if n = 0 then Some (Inl (Statsd_no_value (drop (Suc k) l)))
       else if char_at l (Suc k + n) \<noteq> CHR ''|'' then Some (Inl (Expected_bar (drop (Suc k + n) l)))
       else case statsd_type_of (l @ NUL # r) (Suc (Suc k + n)) (substr l 0 k) of
                     None \<Rightarrow> None
                   | Some (Inl e) \<Rightarrow> Some (Inl e)
                   | Some (Inr (type, p2)) \<Rightarrow>
                       (case statsd_options (l @ NUL # r) p2 (substr l 0 k) of
                          None \<Rightarrow> None
                        | Some (Inl e) \<Rightarrow> Some (Inl e)
                        | Some (Inr (rate, tags)) \<Rightarrow>
                            Some (Inr (type, \<lparr>id_name = sanitize (substr l 0 k), id_tags = tags\<rparr>, v, rate))))" for r
      unfolding statsd_parse_def sc [of r] Some option.case nm Let_def strtod_within(1) [OF p] v prod.case d
        c1 [OF p] c1 [OF n] using tm by simp
    show ?thesis
    proof (cases "char_at l (Suc k + n) = CHR ''|''")
      case False
      then show ?thesis unfolding eq by (cases "k = 0"; cases "n = 0") simp_all
    next
      case True
      then have q: "Suc (Suc k + n) \<le> length l" using char_at_inside [of l "Suc k + n" "CHR ''|''"] by (simp add: NUL_def)
      obtain t where t: "\<And>r. statsd_type_of (l @ NUL # r) (Suc (Suc k + n)) (substr l 0 k) = Some t"
        "\<And>ty p2. t = Inr (ty, p2) \<Longrightarrow> p2 \<le> length l"
        using statsd_type_local [OF assms q, of "substr l 0 k"] by blast
      show ?thesis
      proof (cases t)
        case (Inl e)
        then show ?thesis unfolding eq t(1) using True by (cases "k = 0"; cases "n = 0") simp_all
      next
        case (Inr x)
        obtain ty p2 where x: "x = (ty, p2)" by fastforce
        obtain o2 where o2: "\<And>r. statsd_options (l @ NUL # r) p2 (substr l 0 k) = Some o2"
          using statsd_options_local [OF assms t(2)] Inr x by blast
        show ?thesis unfolding eq t(1) Inr x option.case sum.case prod.case o2 using True by (cases "k = 0"; cases "n = 0"; cases o2) (simp_all add: split_beta)
      qed
    qed
  qed
qed

section \<open>The daemon's own parser\<close>

definition within_line :: "string \<Rightarrow> bool" where
  \<comment> \<open>the lines on which \<open>parse_line\<close> does not look beyond the terminator\<close>
  "within_line l \<longleftrightarrow> l \<noteq> [] \<and> last l \<noteq> CHR '',''"

lemma tag_loop_within:
  assumes "tag_loop s pos tags = Inr (p, ts)" and "pos < length s" and "comma_or_colon (s ! pos)"
    and "last s \<noteq> CHR '',''"
  shows "Suc p \<le> length s"
  using assms
proof (induction s pos tags rule: tag_loop.induct)
  case (1 s pos tags)
  note IH = 1(1) and found = 1(2) and inside = 1(3) and sep = 1(4) and last = 1(5)
  show ?case
  proof (cases "s ! pos = CHR '':''")
    case True
    then show ?thesis using found inside by (simp add: tag_loop.simps)
  next
    case False
    then have c: "s ! pos = CHR '',''" using sep by (simp add: comma_or_colon_def)
    have "last s = s ! (length s - 1)" using inside by (intro last_conv_nth) auto
    then have "pos \<noteq> length s - 1" using c last by auto
    then have next_inside: "Suc pos < length s" using inside by simp
    show ?thesis
    proof (cases "find_from (\<lambda>c. c = CHR ''='') s (Suc pos)")
      case None
      then show ?thesis using found False next_inside by (simp add: tag_loop.simps [of s pos])
    next
      case (Some k)
      show ?thesis
      proof (cases "find_from comma_or_colon s (Suc k)")
        case None
        then show ?thesis using found False Some by (simp add: tag_loop.simps [of s pos])
      next
        case (Some v)
        note v = find_from_Some [OF this]
        show ?thesis
          using IH [OF False \<open>find_from _ s (Suc pos) = Some k\<close> Some] v last found False Some
            \<open>find_from _ s (Suc pos) = Some k\<close>
          by (simp add: tag_loop.simps [of s pos])
      qed
    qed
  qed
qed

lemma conversion_local: "convert_value type (l @ NUL # r) = convert_value type l"
  by (simp add: convert_value_def strtod_stop strtoull_stop)

lemma drop_line: "p \<le> length l \<Longrightarrow> drop p (l @ NUL # r) = drop p l @ NUL # r"
  by simp

lemma terminated_line: "terminated (l @ NUL # r)"
  by (simp add: terminated_def)

lemma get_measurement_local:
  assumes "NUL \<notin> set l" and "l = [] \<or> last l \<noteq> CHR '',''"
  shows "get_measurement type (l @ NUL # r) = get_measurement type (l @ [NUL])"
proof (cases "find_from comma_or_colon l 0")
  case None
  then show ?thesis using assms(1) by (simp add: get_measurement_def)
next
  case (Some p0)
  note p0 = find_from_Some [OF this]
  have l: "last l \<noteq> CHR '',''" using p0 assms(2) by auto
  define t where "t = (if l ! p0 = CHR '','' then tag_loop l p0 [] else Inr (p0, []))"
  show ?thesis
  proof (cases t)
    case (Inl e)
    then show ?thesis using assms(1) Some by (simp add: get_measurement_def t_def)
  next
    case (Inr x)
    obtain p ts where x: "x = (p, ts)" by fastforce
    have p: "Suc p \<le> length l"
      using Inr x p0 l tag_loop_within [of l p0 "[]" p ts] by (auto simp: t_def split: if_splits)
    have "get_measurement type (l @ NUL # r) =
      (if p0 = 0 then Some (Inl Missing_name)
       else let (value, consumed) = convert_value type (drop (Suc p) l)
            in if consumed = 0 then Some (Inl Unable_to_parse_value)
               else Some (Inr (\<lparr>id_name = sanitize (substr l 0 p0), id_tags = ts\<rparr>, value)))" for r
      unfolding get_measurement_def cstr_append_nul [OF assms(1)] Let_def Some option.case t_def [symmetric] Inr x
        sum.case prod.case drop_line [OF p] conversion_local
      using terminated_line by simp
    then show ?thesis by simp
  qed
qed

lemma parse_line_local:
  assumes "NUL \<notin> set l" and "within_line l"
  shows "parse_line A now steady (l @ NUL # r) S = parse_line A now steady (l @ [NUL]) S"
proof -
  obtain ty l1 where l: "l = ty # l1" using assms(2) by (cases l) (auto simp: within_line_def)
  have l1: "l1 = [] \<or> last l1 \<noteq> CHR '',''" and n1: "NUL \<notin> set l1"
    using assms by (auto simp: within_line_def l split: if_splits)
  show ?thesis
  proof (cases l1)
    case Nil
    then show ?thesis by (simp add: l parse_line_def NUL_neq)
  next
    case (Cons c l2)
    have l2: "l2 = [] \<or> last l2 \<noteq> CHR '',''" and n2: "NUL \<notin> set l2"
      using l1 n1 by (auto simp: Cons split: if_splits)
    have gm: "get_measurement ty (u @ NUL # r) = get_measurement ty (u @ [NUL])"
      if "u = [] \<or> last u \<noteq> CHR '',''" "NUL \<notin> set u" for u
      \<comment> \<open>not a rule of the simplifier: it would match itself\<close>
      by (rule get_measurement_local [OF that(2,1)])
    show ?thesis
    proof (cases "c = CHR '',''")
      case False
      show ?thesis
        using False gm [OF l2 n2] by (simp add: l Cons parse_line_def terminated_line)
    next
      case True
      obtain x n where xn: "strtoll l2 = (x, n)" by fastforce
      have n: "n \<le> length l2" using strtoll_stop(2) [of l2] xn by simp
      have st: "strtoll (l2 @ NUL # r) = (x, n)" for r using xn by (simp add: strtoll_stop)
      show ?thesis
      proof (cases "drop n l2")
        case Nil
        then show ?thesis using True n st by (simp add: l Cons parse_line_def terminated_line NUL_neq)
      next
        case (Cons d u)
        then have "l2 = take n l2 @ d # u" by (metis append_take_drop_id)
        then have u: "u = [] \<or> last u \<noteq> CHR '',''" "NUL \<notin> set u"
          using l2 n2 by (metis last_appendR last_ConsR list.simps(3) append_is_Nil_conv, metis Un_iff list.set_intros(2) set_append)
        then show ?thesis
          using True n st Cons gm [OF u] \<open>l1 = c # l2\<close> by (simp add: l parse_line_def terminated_line)
      qed
    qed
  qed
qed

section \<open>A buffer, line by line\<close>

text \<open>
  The interface between \<open>parse_lines\<close> and a line parser: on the lines \<open>ok\<close> the parser depends
  on its line only, not on the memory after the terminator.
\<close>

locale local_parser =
  fixes parser :: "'d line_parser" and ok :: "string \<Rightarrow> bool"
  assumes parser_local: "ok l \<Longrightarrow> NUL \<notin> set l \<Longrightarrow> parser (l @ NUL # r) S = parser (l @ [NUL]) S"

primrec split_lines :: "string \<Rightarrow> string list" where
  \<comment> \<open>the pieces between the line feeds\<close>
  "split_lines [] = [[]]"
| "split_lines (c # s) = (if c = CHR 0x0A then [] # split_lines s else (c # hd (split_lines s)) # tl (split_lines s))"

definition text_lines :: "string \<Rightarrow> string list" where
  \<comment> \<open>the lines of a buffer: empty lines do not count, except that a buffer starting with a line feed has an empty first line\<close>
  "text_lines s = (if s \<noteq> [] \<and> hd s = CHR 0x0A then [[]] else []) @ filter (\<lambda>l. l \<noteq> []) (split_lines s)"

primrec run_lines :: "'d line_parser \<Rightarrow> int \<Rightarrow> string list \<Rightarrow> string \<Rightarrow> 'd server \<Rightarrow> ('d server \<times> string) option" where
  \<comment> \<open>the reference: one line after the other\<close>
  "run_lines parser now [] err S = Some (S, err)"
| "run_lines parser now (l # ls) err S = (case parser (l @ [NUL]) S of
     None \<Rightarrow> None
   | Some (S1, e) \<Rightarrow> run_lines parser now ls (case e of Some x \<Rightarrow> join_error err (render x) | None \<Rightarrow> err)
       (count_line now e S1))"

lemma split_text_line: "CHR 0x0A \<notin> set l \<Longrightarrow> split_lines l = [l]"
  by (induction l) auto

lemma split_lines_feed: "CHR 0x0A \<notin> set l \<Longrightarrow> split_lines (l @ CHR 0x0A # s) = l # split_lines s"
  by (induction l) auto

lemma split_lines_skip: "filter (\<lambda>l. l \<noteq> []) (split_lines (dropWhile (\<lambda>c. c = CHR 0x0A) s)) = filter (\<lambda>l. l \<noteq> []) (split_lines s)"
  by (induction s) auto

lemma text_lines_skip: "text_lines (dropWhile (\<lambda>c. c = CHR 0x0A) s) = filter (\<lambda>l. l \<noteq> []) (split_lines s)"
proof -
  have "dropWhile (\<lambda>c. c = CHR 0x0A) s \<noteq> [] \<Longrightarrow> hd (dropWhile (\<lambda>c. c = CHR 0x0A) s) \<noteq> CHR 0x0A" by (rule hd_dropWhile)
  then show ?thesis by (auto simp: text_lines_def split_lines_skip)
qed

lemma text_lines_simps:
  "text_lines [] = []"
  "CHR 0x0A \<notin> set l \<Longrightarrow> l \<noteq> [] \<Longrightarrow> text_lines l = [l]"
  "CHR 0x0A \<notin> set l \<Longrightarrow> text_lines (l @ CHR 0x0A # s) = l # text_lines (dropWhile (\<lambda>c. c = CHR 0x0A) s)"
proof -
  show "CHR 0x0A \<notin> set l \<Longrightarrow> l \<noteq> [] \<Longrightarrow> text_lines l = [l]"
    by (cases l) (auto simp: text_lines_def split_text_line)
  show "text_lines (l @ CHR 0x0A # s) = l # text_lines (dropWhile (\<lambda>c. c = CHR 0x0A) s)" if l: "CHR 0x0A \<notin> set l"
  proof -
    have "l @ CHR 0x0A # s \<noteq> [] \<and> hd (l @ CHR 0x0A # s) = CHR 0x0A \<longleftrightarrow> l = []" using l by (cases l) auto
    then show ?thesis unfolding text_lines_skip unfolding text_lines_def split_lines_feed [OF l] by simp
  qed
qed (simp add: text_lines_def)

lemma text_lines_set: "l \<in> set (text_lines s) \<Longrightarrow> set l \<subseteq> set s"
proof -
  have "\<Union> (set ` set (split_lines s)) \<subseteq> set s"
  proof (induction s)
    case (Cons c s)
    have "split_lines s \<noteq> []" by (cases s) auto
    with Cons show ?case by (cases "split_lines s") auto
  qed simp
  then show "l \<in> set (text_lines s) \<Longrightarrow> set l \<subseteq> set s" by (auto simp: text_lines_def split: if_splits)
qed

lemma strchr_line:
  assumes "CHR 0x0A \<notin> set l" and "NUL \<notin> set l"
  shows "strchr (l @ CHR 0x0A # r) (CHR 0x0A) = Some (length l)"
    and "strchr (l @ NUL # r) (CHR 0x0A) = None"
proof -
  have c: "cstr (l @ CHR 0x0A # r) = l @ CHR 0x0A # cstr r"
    using assms(2) by (induction l) (auto simp: cstr_Cons NUL_neq [symmetric])
  have "takeWhile (\<lambda>x. x \<noteq> CHR 0x0A) (l @ CHR 0x0A # cstr r) = l"
    using assms(1) by (simp add: takeWhile_stop takeWhile_eq_all_conv) (metis takeWhile_eq_all_conv)
  then show "strchr (l @ CHR 0x0A # r) (CHR 0x0A) = Some (length l)" by (simp add: strchr_def c Let_def)
  show "strchr (l @ NUL # r) (CHR 0x0A) = None" using assms by (simp add: strchr_def)
qed

lemma parse_lines_step:
  assumes "terminated p" and "hd p \<noteq> NUL" and "strchr p (CHR 0x0A) = Some n"
    and "dropWhile (\<lambda>c. c = CHR 0x0A) (drop (Suc n) p) = b"
  shows "parse_lines parser now p err S = (case parser (p[n := NUL]) S of
      None \<Rightarrow> None
    | Some (S1, e) \<Rightarrow> parse_lines parser now b (case e of Some x \<Rightarrow> join_error err (render x) | None \<Rightarrow> err)
        (count_line now e S1))"
  unfolding parse_lines.simps [of parser now p]
  using assms by (cases "parser (p[n := NUL]) S") (simp_all add: Let_def split_beta)

lemma parse_lines_last:
  assumes "terminated p" and "hd p \<noteq> NUL" and "strchr p (CHR 0x0A) = None"
  shows "parse_lines parser now p err S = (case parser p S of
      None \<Rightarrow> None
    | Some (S1, e) \<Rightarrow> Some (count_line now e S1, case e of Some x \<Rightarrow> join_error err (render x) | None \<Rightarrow> err))"
  unfolding parse_lines.simps [of parser now p]
  using assms by (cases "parser p S") (simp_all add: Let_def split_beta)

context local_parser begin

lemma parse_lines_run:
  "NUL \<notin> set s \<Longrightarrow> list_all ok (text_lines s) \<Longrightarrow>
   parse_lines parser now (s @ NUL # r) err S = run_lines parser now (text_lines s) err S"
proof (induction s arbitrary: err S rule: length_induct)
  case (1 s)
  note IH = "1.IH" [rule_format] and prems = "1.prems"
  consider (empty) "s = []" | (last) "s \<noteq> []" "CHR 0x0A \<notin> set s"
    | (line) l s' where "s = l @ CHR 0x0A # s'" "CHR 0x0A \<notin> set l"
    by (metis split_list_first)
  then show ?case
  proof cases
    case empty
    then show ?thesis by (simp add: parse_lines.simps terminated_def text_lines_simps)
  next
    case last
    then have hd: "hd (s @ NUL # r) \<noteq> NUL" using prems(1) by (cases s) auto
    have tm: "terminated (s @ NUL # r)" by (simp add: terminated_def)
    have lines: "text_lines s = [s]" by (rule text_lines_simps(2) [OF last(2,1)])
    then have oks: "ok s" using prems(2) by simp
    show ?thesis
      using parse_lines_last [OF tm hd strchr_line(2) [OF last(2) prems(1)], of parser now err S]
      by (simp add: lines parser_local [OF oks prems(1), of r] split: option.split)
  next
    case line
    let ?t = "dropWhile (\<lambda>c. c = CHR 0x0A) s'" and ?m = "s @ NUL # r"
    have lines: "text_lines s = l # text_lines ?t" unfolding line(1) by (rule text_lines_simps(3) [OF line(2)])
    have nul: "NUL \<notin> set l" "NUL \<notin> set s'" "NUL \<notin> set ?t"
      using prems(1) set_dropWhileD [of NUL "\<lambda>c. c = CHR 0x0A" s'] by (auto simp: line(1))
    have okl: "ok l" and okt: "list_all ok (text_lines ?t)" using prems(2) by (simp_all add: lines)
    have m: "?m = l @ CHR 0x0A # s' @ NUL # r" by (simp add: line(1))
    have hd: "hd ?m \<noteq> NUL" unfolding m using nul(1) by (cases l) (auto simp: NUL_def)
    have tm: "terminated ?m" by (simp add: terminated_def)
    have nl: "strchr ?m (CHR 0x0A) = Some (length l)" unfolding m by (rule strchr_line(1) [OF line(2) nul(1)])
    have cut: "?m[length l := NUL] = l @ NUL # s' @ NUL # r" unfolding m by simp
    have skip: "dropWhile (\<lambda>c. c = CHR 0x0A) (u @ NUL # r) = dropWhile (\<lambda>c. c = CHR 0x0A) u @ NUL # r" for u
      by (induction u) (auto simp: NUL_def)
    have next_line: "dropWhile (\<lambda>c. c = CHR 0x0A) (drop (Suc (length l)) ?m) = ?t @ NUL # r"
      unfolding m by (simp add: skip)
    have "length ?t \<le> length s'" by (rule length_dropWhile_le)
    then have "length ?t < length s" by (simp add: line(1))
    note rest = IH [OF this nul(3) okt]
    show ?thesis
      using parse_lines_step [OF tm hd nl next_line, of parser now err S]
      unfolding cut parser_local [OF okl nul(1), of "s' @ NUL # r"] rest by (simp add: lines)
  qed
qed

end

lemma parse_statsd_line_local:
  assumes "NUL \<notin> set l"
  shows "parse_statsd_line A now (l @ NUL # r) S = parse_statsd_line A now (l @ [NUL]) S"
proof -
  obtain t where "\<And>r. statsd_parse (l @ NUL # r) = Some t" using statsd_parse_local [OF assms] by blast
  then show ?thesis by (simp add: parse_statsd_line_def)
qed

interpretation statsd: local_parser "parse_statsd_line A now" "\<lambda>l. True" for A now
  by unfold_locales (rule parse_statsd_line_local)

interpretation daemon: local_parser "parse_line A now steady" within_line for A now steady
  by unfold_locales (rule parse_line_local)

section \<open>Properties\<close>

text \<open>
  C11. A buffer is parsed line by line: the text of a received buffer, up to its terminator, has the effect of its
  lines one after the other, every line counted once as parsed or as an error, and the result is the errors of the
  lines in order, one per line of text; what the buffer holds after the terminator is irrelevant. Empty lines do not
  count, but a buffer that starts with a line feed has an empty first line. For statsd this holds for every buffer;
  for the daemon's protocol for every buffer that does not start with a line feed and has no line that ends in a comma.
\<close>

theorem buffer_is_its_lines:
  assumes "NUL \<notin> set s"
  shows "parse_statsd A now (s @ NUL # r) S = run_lines (parse_statsd_line A now) now (text_lines s) [] S \<and>
    (list_all (\<lambda>l. l \<noteq> [] \<and> last l \<noteq> CHR '','') (text_lines s) \<longrightarrow>
      parse A now steady (s @ NUL # r) S = run_lines (parse_line A now steady) now (text_lines s) [] S)"
proof (intro conjI impI)
  show "parse_statsd A now (s @ NUL # r) S = run_lines (parse_statsd_line A now) now (text_lines s) [] S"
    unfolding parse_statsd_def by (rule statsd.parse_lines_run [OF assms]) (simp add: list_all_iff)
  assume "list_all (\<lambda>l. l \<noteq> [] \<and> last l \<noteq> CHR '','') (text_lines s)"
  then have "list_all within_line (text_lines s)" by (simp add: list_all_iff within_line_def)
  then show "parse A now steady (s @ NUL # r) S = run_lines (parse_line A now steady) now (text_lines s) [] S"
    unfolding parse_def by (rule daemon.parse_lines_run [OF assms])
qed

abbreviation sample_server :: "int server" where
  "sample_server \<equiv> new_server 0 (sample_registry 1)"

theorem buffer_is_its_lines_witness:
  "parse ns_durations 5 5 (''c:a:1'' @ [CHR 0x0A, CHR 0x0A] @ ''x:a:1'' @ [CHR 0x0A] @ ''c:b:2'' @ NUL # ''old'') sample_server =
   run_lines (parse_line ns_durations 5 5) 5 [''c:a:1'', ''x:a:1'', ''c:b:2''] [] sample_server \<and>
   parse_statsd ns_durations 5 (CHR 0x0A # ''a:1|c'' @ NUL # ''old'') sample_server =
   run_lines (parse_statsd_line ns_durations 5) 5 [[], ''a:1|c''] [] sample_server"
proof -
  let ?s = "''c:a:1'' @ [CHR 0x0A, CHR 0x0A] @ ''x:a:1'' @ [CHR 0x0A] @ ''c:b:2''" and ?t = "CHR 0x0A # ''a:1|c''"
  have lines: "text_lines ?s = [''c:a:1'', ''x:a:1'', ''c:b:2'']" "text_lines ?t = [[], ''a:1|c'']" by code_simp+
  have nul: "NUL \<notin> set ?s" "NUL \<notin> set ?t" by (simp_all add: NUL_def)
  show ?thesis
    using buffer_is_its_lines [OF nul(1), of ns_durations 5 "''old''" sample_server 5]
      buffer_is_its_lines [OF nul(2), of ns_durations 5 "''old''" sample_server]
    unfolding lines by simp
qed

text \<open>
  C10. Neither parser reads beyond the terminator of its line, as far as it can be promised: the statsd
  parser for every line whatsoever (it also never runs off the buffer: its result is always
  determined by the line), the parser of the daemon's protocol for every line but the empty
  one and those whose last character is a comma. The empty line it does read beyond: where the memory ends with the
  terminator its result is undefined.
\<close>

theorem parsers_stay_within_the_line:
  assumes "NUL \<notin> set l"
  shows "(\<exists>t. \<forall>r. statsd_parse (l @ NUL # r) = Some t) \<and>
    parse_statsd_line A now (l @ NUL # r) S = parse_statsd_line A now (l @ [NUL]) S \<and>
    (l \<noteq> [] \<and> last l \<noteq> CHR '','' \<longrightarrow>
      parse_line A now steady (l @ NUL # r) S = parse_line A now steady (l @ [NUL]) S) \<and>
    (l = [] \<longrightarrow> parse_line A now steady (l @ [NUL]) S = None)"
proof (intro conjI impI)
  show "\<exists>t. \<forall>r. statsd_parse (l @ NUL # r) = Some t" by (rule statsd_parse_local [OF assms])
  show "parse_statsd_line A now (l @ NUL # r) S = parse_statsd_line A now (l @ [NUL]) S"
    by (rule parse_statsd_line_local [OF assms])
  show "parse_line A now steady (l @ [NUL]) S = None" if "l = []" by (simp add: that parse_line_def)
  assume "l \<noteq> [] \<and> last l \<noteq> CHR '',''"
  then show "parse_line A now steady (l @ NUL # r) S = parse_line A now steady (l @ [NUL]) S"
    by (intro parse_line_local [OF assms]) (simp add: within_line_def)
qed

theorem parsers_stay_within_the_line_witness:
  "parse_line ns_durations 5 5 (''c:a,k=v:1'' @ NUL # ''junk'') sample_server =
   parse_line ns_durations 5 5 (''c:a,k=v:1'' @ [NUL]) sample_server"
  using parsers_stay_within_the_line [of "''c:a,k=v:1''" ns_durations 5 "''junk''" sample_server 5]
  by (simp add: NUL_def)

end
