(* ===== verification/ServerLaws.thy ===== *)
theory ServerLaws
  imports ParserBounds
begin

text \<open>
  What the parsers of the server guarantee: printed lines are parsed back, a buffer is parsed line
  by line, lines in error change nothing, every line keeps the invariants of the server, the
  statsd parser stays within its line; and where the parser of the daemon's own protocol
  does not.
\<close>

section \<open>Printing lines\<close>

primrec tags_text :: "(string \<times> string) list \<Rightarrow> string" where
  "tags_text [] = []"
| "tags_text (t # ts) = CHR '','' # fst t @ CHR ''='' # snd t @ tags_text ts"

definition extra_text :: "nat option \<Rightarrow> string" where
  "extra_text ex = (case ex of None \<Rightarrow> [] | Some e \<Rightarrow> CHR '','' # show_nat e)"

definition line_text :: "char \<Rightarrow> nat option \<Rightarrow> string \<Rightarrow> (string \<times> string) list \<Rightarrow> string \<Rightarrow> string" where
  "line_text type ex name tags txt =
     type # extra_text ex @ CHR '':'' # name @ tags_text tags @ CHR '':'' # txt"

definition name_ok :: "string \<Rightarrow> bool" where
  "name_ok s \<longleftrightarrow> CHR '','' \<notin> set s \<and> CHR '':'' \<notin> set s \<and> NUL \<notin> set s"

definition key_ok :: "string \<Rightarrow> bool" where
  "key_ok s \<longleftrightarrow> CHR ''='' \<notin> set s \<and> NUL \<notin> set s"

definition tags_ok :: "(string \<times> string) list \<Rightarrow> bool" where
  "tags_ok ts \<longleftrightarrow> list_all (\<lambda>t. key_ok (fst t) \<and> name_ok (snd t)) ts"

lemma find_from_at:
  "\<forall>c \<in> set b. \<not> P c \<Longrightarrow> P x \<Longrightarrow> find_from P (a @ b @ x # c) (length a) = Some (length a + length b)"
  by (simp add: find_from_def takeWhile_stop takeWhile_append2 Let_def)

lemma substr_mid: "substr (a @ b @ c) (length a) (length b) = b"
  by (simp add: substr_def)

lemma tags_text_next: "\<exists>x u. tags_text ts @ CHR '':'' # w = x # u \<and> comma_or_colon x"
  by (cases ts) (auto simp: comma_or_colon_def)

lemma tag_loop_text:
  assumes "tags_ok ts"
  shows "tag_loop (pre @ tags_text ts @ CHR '':'' # w) (length pre) acc =
    Inr (length pre + length (tags_text ts), fold (\<lambda>(k, v). tag_put (sanitize k) (sanitize v)) ts acc)"
  using assms
proof (induction ts arbitrary: pre acc)
  case Nil
  then show ?case by (simp add: tag_loop.simps)
next
  case (Cons t ts)
  obtain k v where t: "t = (k, v)" by fastforce
  have k: "\<forall>c \<in> set k. c \<noteq> CHR ''=''" and v: "\<forall>c \<in> set v. \<not> comma_or_colon c"
    using Cons.prems by (auto simp: tags_ok_def key_ok_def name_ok_def comma_or_colon_def t)
  obtain x u where x: "tags_text ts @ CHR '':'' # w = x # u" "comma_or_colon x"
    using tags_text_next by blast
  let ?s = "pre @ tags_text (t # ts) @ CHR '':'' # w"
  let ?a = "pre @ [CHR '','']" and ?b = "pre @ CHR '','' # k @ [CHR ''='']"
  have s1: "?s = ?a @ k @ CHR ''='' # v @ tags_text ts @ CHR '':'' # w" by (simp add: t)
  have s2: "?s = ?b @ v @ x # u" by (simp add: t x(1) [symmetric])
  have s3: "?s = (?b @ v) @ tags_text ts @ CHR '':'' # w" by (simp add: t)
  have f1: "find_from (\<lambda>c. c = CHR ''='') ?s (Suc (length pre)) = Some (length ?a + length k)"
    using find_from_at [of k "\<lambda>c. c = CHR ''=''" "CHR ''=''" ?a] k unfolding s1 by simp
  have f2: "find_from comma_or_colon ?s (Suc (length ?a + length k)) = Some (length ?b + length v)"
    using find_from_at [of v comma_or_colon x ?b u] v x(2) unfolding s2 by simp
  have k': "substr ?s (Suc (length pre)) (length ?a + length k - Suc (length pre)) = k"
    using substr_mid [of ?a k] unfolding s1 by simp
  have v': "substr ?s (Suc (length ?a + length k)) (length ?b + length v - Suc (length ?a + length k)) = v"
    using substr_mid [of ?b v "x # u"] unfolding s2 by simp
  have "?s ! length pre \<noteq> CHR '':''" by simp
  then have "tag_loop ?s (length pre) acc = tag_loop ?s (length (?b @ v)) (tag_put (sanitize k) (sanitize v) acc)"
    unfolding tag_loop.simps [of ?s "length pre"] f1 option.case f2 k' v' by (simp add: add.assoc)
  also have "\<dots> = Inr (length (?b @ v) + length (tags_text ts),
      fold (\<lambda>(k, v). tag_put (sanitize k) (sanitize v)) ts (tag_put (sanitize k) (sanitize v) acc))"
    unfolding s3 by (rule Cons.IH) (use Cons.prems in \<open>simp add: tags_ok_def\<close>)
  finally show ?case by (simp add: t)
qed

lemma intern_tags_fold: "intern_tags ts = fold (\<lambda>(k, v). tag_put (sanitize k) (sanitize v)) ts []"
  by (simp add: intern_tags_def tag_put_all_def fold_map comp_def case_prod_unfold)

lemma tags_text_no_nul: "tags_ok ts \<Longrightarrow> NUL \<notin> set (tags_text ts)"
  by (induction ts) (auto simp: tags_ok_def key_ok_def name_ok_def NUL_neq)

lemma get_measurement_text:
  assumes "name_ok name" and "name \<noteq> []" and "tags_ok tags" and "NUL \<notin> set txt"
  shows "get_measurement type (name @ tags_text tags @ CHR '':'' # txt @ NUL # r) =
    Some (if snd (convert_value type txt) = 0 then Inl Unable_to_parse_value
          else Inr (id_of name (intern_tags tags), fst (convert_value type txt)))"
proof -
  let ?s = "name @ tags_text tags @ CHR '':'' # txt"
  let ?m = "name @ tags_text tags @ CHR '':'' # txt @ NUL # r"
  obtain x u where x: "tags_text tags @ CHR '':'' # txt = x # u" "comma_or_colon x"
    using tags_text_next by blast
  have m: "?m = ?s @ NUL # r" by simp
  have "NUL \<notin> set ?s" using assms tags_text_no_nul [OF assms(3)] by (auto simp: name_ok_def NUL_neq)
  then have s: "cstr ?m = ?s" unfolding m by (rule cstr_append_nul)
  have nm: "\<forall>c \<in> set name. \<not> comma_or_colon c" using assms(1) by (auto simp: name_ok_def comma_or_colon_def)
  have f: "find_from comma_or_colon ?s 0 = Some (length name)"
    using find_from_at [of name comma_or_colon x "[]" u] nm x by simp
  have nm': "substr ?s 0 (length name) = name" by (simp add: substr_def)
  have loop: "tag_loop ?s (length name) [] = Inr (length name + length (tags_text tags), intern_tags tags)"
    unfolding intern_tags_fold by (rule tag_loop_text [OF assms(3)])
  have "?s ! length name = x" using x(1) by simp
  then have "?s ! length name = CHR '','' \<or> ?s ! length name = CHR '':''" using x(2) by (simp add: comma_or_colon_def)
  then have tl: "(if ?s ! length name = CHR '','' then tag_loop ?s (length name) [] else Inr (length name, [])) =
      Inr (length name + length (tags_text tags), intern_tags tags)"
  proof
    assume "?s ! length name = CHR '',''"
    then show ?thesis using loop by simp
  next
    assume c: "?s ! length name = CHR '':''"
    then have "tag_loop ?s (length name) [] = Inr (length name, [])" by (simp add: tag_loop.simps)
    then show ?thesis using loop c by simp
  qed
  have d: "drop (Suc (length name + length (tags_text tags))) ?m = txt @ NUL # r" by simp
  have cv: "convert_value type (txt @ NUL # r) = convert_value type txt"
    by (simp add: convert_value_def strtod_stop strtoull_stop)
  have t: "terminated (txt @ NUL # r)" by (simp add: terminated_def)
  show ?thesis
    unfolding get_measurement_def Let_def s f option.case nm' tl sum.case prod.case d cv
    using assms(2) t by (simp add: split_beta id_of_def)
qed

lemma strtoll_show_nat:
  assumes "\<not> isdigit c" and "int n \<le> int64_max"
  shows "strtoll (show_nat n @ c # w) = (int n, length (show_nat n))"
proof -
  have ds: "show_nat n \<noteq> []" "list_all isdigit (show_nat n)" "number 10 (show_nat n) = int n"
    using show_nat_digits [of n] by simp_all
  obtain d r where d: "show_nat n = d # r" using ds(1) by (cases "show_nat n") auto
  have "isdigit d" using ds(2) by (simp add: d)
  then have D: "skip_space (show_nat n @ c # w) = 0" "sign_of (show_nat n @ c # w) = (False, 0)"
    using isdigit_facts [of d] by (simp_all add: skip_space_def sign_of_def d)
  have "takeWhile isdigit (show_nat n @ c # w) = show_nat n"
    using ds(2) assms(1) by (simp add: takeWhile_stop takeWhile_eq_all_conv list_all_iff)
  then show ?thesis
    using ds assms(2) D by (simp add: strtoll_def strto_digits_def int64_min_def Let_def)
qed

lemma parse_line_text:
  assumes "name_ok name" and "name \<noteq> []" and "tags_ok tags" and "NUL \<notin> set txt"
    and "case ex of None \<Rightarrow> True | Some e \<Rightarrow> 0 < e \<and> int e \<le> int64_max"
  shows "parse_line A now steady (line_text type ex name tags txt @ NUL # rest) S =
    (if snd (convert_value type txt) = 0 then Some (S, Some Unable_to_parse_value)
     else apply_measurement A now steady type (case ex of None \<Rightarrow> 0 | Some e \<Rightarrow> int e)
       (id_of name (intern_tags tags)) (fst (convert_value type txt)) S)"
proof -
  let ?q = "name @ tags_text tags @ CHR '':'' # txt @ NUL # rest"
  define x where "x = (case ex of None \<Rightarrow> 0 | Some e \<Rightarrow> int e)"
  let ?i = "1 + length (extra_text ex)"
  let ?m = "line_text type ex name tags txt @ NUL # rest"
  have m: "?m = type # extra_text ex @ CHR '':'' # ?q" by (simp add: line_text_def)
  obtain c r where c: "extra_text ex @ CHR '':'' # ?q = c # r" "(c = CHR '','') = (ex \<noteq> None)"
    by (cases ex) (simp_all add: extra_text_def)
  have nd: "\<not> isdigit (CHR '':'')" by code_simp
  have num: "(if c = CHR '','' then strtoll r else (0, 0)) = (x, length (extra_text ex) - (if c = CHR '','' then 1 else 0))"
  proof (cases ex)
    case None
    then show ?thesis using c(2) by (simp add: extra_text_def x_def)
  next
    case (Some e)
    then have "r = show_nat e @ CHR '':'' # ?q" using c(1) by (simp add: extra_text_def)
    then show ?thesis using Some c(2) assms(5) x_def strtoll_show_nat [OF nd, of e ?q] by (simp add: extra_text_def)
  qed
  have idx: "(if c = CHR '','' then 2 + (length (extra_text ex) - (if c = CHR '','' then 1 else 0)) else 1) = ?i"
    using c by (cases ex) (auto simp: extra_text_def)
  have tr: "terminated r" using c(1) by (cases ex) (auto simp: terminated_def extra_text_def)
  have tq: "terminated ?q" by (simp add: terminated_def)
  have pos: "c = CHR '','' \<Longrightarrow> 0 < x" using c(2) assms(5) by (auto simp: x_def split: option.splits)
  have d: "drop ?i ?m = CHR '':'' # ?q" unfolding m by simp
  have "parse_line A now steady ?m S = (case get_measurement type ?q of
      None \<Rightarrow> None | Some (Inl e) \<Rightarrow> Some (S, Some e)
    | Some (Inr (i, v)) \<Rightarrow> apply_measurement A now steady type x i v S)"
    unfolding parse_line_def unfolding m c(1) list.case Let_def num prod.case idx
    unfolding c(1) [symmetric] m [symmetric] d list.case
    by (cases "c = CHR '',''") (use pos tr tq in simp_all)
  then show ?thesis
    using get_measurement_text [OF assms(1-4), of type rest] by (simp add: x_def)
qed

section \<open>Properties\<close>

text \<open>
  C5. The line protocol is parsed back: for every type, name, list of tags (the last of two equal keys
  counts), value text and optional number after the type, a line printed in the documented
  form has exactly the effect of its fields, whatever follows the terminator; the only
  error left is a value text without a number.
\<close>

theorem line_round_trip:
  assumes "name_ok name" and "name \<noteq> []" and "tags_ok tags" and "NUL \<notin> set txt"
    and "case ex of None \<Rightarrow> True | Some e \<Rightarrow> 0 < e \<and> int e \<le> int64_max"
  shows "parse_line A now steady (line_text type ex name tags txt @ NUL # rest) S =
    (if snd (convert_value type txt) = 0 then Some (S, Some Unable_to_parse_value)
     else apply_measurement A now steady type (case ex of None \<Rightarrow> 0 | Some e \<Rightarrow> int e)
       (id_of name (intern_tags tags)) (fst (convert_value type txt)) S)"
  by (rule parse_line_text [OF assms])

theorem line_round_trip_witness:
  "parse_line ns_durations 5 5 (line_text (CHR ''g'') (Some 120) ''cpu'' [(''id'', ''a''), (''core'', ''0'')] ''15'' @ NUL # ''stale'') sample_server =
   apply_measurement ns_durations 5 5 (CHR ''g'') 120 (id_of ''cpu'' (intern_tags [(''id'', ''a''), (''core'', ''0'')])) (VD (dint 15)) sample_server"
proof -
  have c: "convert_value (CHR ''g'') ''15'' = (VD (dint 15), 2)"
    using strtod_digits [of "''15''"] by (simp add: convert_value_def char_facts number_def digit_val_def)
  have "name_ok ''cpu''" "tags_ok [(''id'', ''a''), (''core'', ''0'')]" "NUL \<notin> set ''15''"
    by (simp_all add: name_ok_def tags_ok_def key_ok_def NUL_def)
  moreover have "int 120 \<le> int64_max" by (simp add: int64_max_def)
  ultimately show ?thesis
    using line_round_trip [of "''cpu''" "[(''id'', ''a''), (''core'', ''0'')]" "''15''" "Some 120" ns_durations 5 5 "CHR ''g''" "''stale''" sample_server]
    by (simp add: c)
qed

lemma apply_error_unchanged: "apply_measurement A now steady type extra i v S = Some (S', Some e) \<Longrightarrow> S' = S"
  by (auto simp: apply_measurement_def Let_def split_beta split: if_splits option.splits)

text \<open>
  C37. A line in error changes nothing: whenever a parser reports an error, for any buffer at all, the server
  and its registry are exactly as before (no meter is created, no value recorded).
\<close>

theorem errors_change_nothing:
  assumes "parse_line A now steady m S = Some (S', Some e) \<or> parse_statsd_line A now m S = Some (S', Some e)"
  shows "S' = S"
proof -
  have "S' = S" if "parse_line A now steady m S = Some (S', Some e)"
    using that apply_error_unchanged
    by (auto simp: parse_line_def Let_def split_beta split: list.splits if_splits option.splits sum.splits)
  moreover have "S' = S" if "parse_statsd_line A now m S = Some (S', Some e)"
    using that by (auto simp: parse_statsd_line_def split: option.splits sum.splits)
  ultimately show ?thesis using assms by blast
qed

theorem errors_change_nothing_witness:
  "\<exists>S'. parse_line ns_durations 1 1 (''c;x'' @ [NUL]) sample_server = Some (S', Some (Expecting_separator 1)) \<and>
    S' = sample_server"
proof -
  have "parse_line ns_durations 1 1 (''c;x'' @ [NUL]) sample_server = Some (sample_server, Some (Expecting_separator 1))"
    by (simp add: parse_line_def Let_def)
  with errors_change_nothing [of ns_durations 1 1 "''c;x'' @ [NUL]" sample_server sample_server] show ?thesis by blast
qed

section \<open>Where the code departs from its intention\<close>

text \<open>
  A line that ends in a comma is not rejected: for every type and name, the line
  type, colon, name, comma makes the parser take the value from the memory after the
  terminator of the line, where the buffer holds what an earlier, longer datagram left.
\<close>

theorem trailing_comma_reads_stale_memory:
  assumes "name_ok name" and "name \<noteq> []" and "NUL \<notin> set txt"
  shows "parse_line A now steady (type # CHR '':'' # name @ CHR '','' # NUL # txt @ NUL # r) S =
    (if snd (convert_value type txt) = 0 then Some (S, Some Unable_to_parse_value)
     else apply_measurement A now steady type 0 (id_of name []) (fst (convert_value type txt)) S)"
proof -
  let ?s = "name @ [CHR '','']" and ?m = "name @ CHR '','' # NUL # txt @ NUL # r"
  have "NUL \<notin> set ?s" using assms(1) by (auto simp: name_ok_def NUL_neq)
  then have s: "cstr ?m = ?s" using cstr_append_nul [of ?s "txt @ NUL # r"] by simp
  have nm: "\<forall>c \<in> set name. \<not> comma_or_colon c" using assms(1) by (auto simp: name_ok_def comma_or_colon_def)
  have f: "find_from comma_or_colon ?s 0 = Some (length name)"
    using find_from_at [of name comma_or_colon "CHR '',''" "[]" "[]"] nm by (simp add: comma_or_colon_def)
  have "find_from (\<lambda>c. c = CHR ''='') ?s (Suc (length name)) = None" by (simp add: find_from_def)
  then have loop: "tag_loop ?s (length name) [] = Inr (Suc (length name), [])" by (simp add: tag_loop.simps)
  have d: "drop (Suc (Suc (length name))) ?m = txt @ NUL # r" by simp
  have nm': "substr ?s 0 (length name) = name" by (simp add: substr_def)
  have t: "terminated (txt @ NUL # r)" "terminated ?m" by (simp_all add: terminated_def)
  have g: "get_measurement type ?m = Some (if snd (convert_value type txt) = 0 then Inl Unable_to_parse_value
      else Inr (id_of name [], fst (convert_value type txt)))"
    unfolding get_measurement_def Let_def s f option.case nm'
    using assms(2) t(1) d conversion_local [of type "txt" r] by (simp add: loop split_beta id_of_def)
  show ?thesis using t(2) by (simp add: parse_line_def g)
qed

theorem trailing_comma_reads_stale_memory_witness:
  "\<exists>r1 r2. parse_line ns_durations 5 5 (''c:requests,'' @ NUL # r1) sample_server =
     Some (sample_server, Some Unable_to_parse_value) \<and>
   parse_line ns_durations 5 5 (''c:requests,'' @ NUL # r2) sample_server =
     apply_measurement ns_durations 5 5 (CHR ''c'') 0 (id_of ''requests'' []) (VD (dint 42)) sample_server"
proof -
  have n: "name_ok ''requests''" by (simp add: name_ok_def NUL_def)
  have v: "convert_value (CHR ''c'') ''42'' = (VD (dint 42), 2)" "convert_value (CHR ''c'') ''x'' = (VD dpos0, 0)"
    using strtod_digits [of "''42''"] by (simp_all add: convert_value_def strtod_defs dpos0_def)
  have "parse_line ns_durations 5 5 (''c:requests,'' @ NUL # ''x'' @ [NUL]) sample_server =
      Some (sample_server, Some Unable_to_parse_value)"
    using trailing_comma_reads_stale_memory [OF n _, of "''x''" ns_durations 5 5 "CHR ''c''" "[]" sample_server]
    by (simp add: v NUL_def)
  moreover have "parse_line ns_durations 5 5 (''c:requests,'' @ NUL # ''42'' @ [NUL]) sample_server =
      apply_measurement ns_durations 5 5 (CHR ''c'') 0 (id_of ''requests'' []) (VD (dint 42)) sample_server"
    using trailing_comma_reads_stale_memory [OF n _, of "''42''" ns_durations 5 5 "CHR ''c''" "[]" sample_server]
    by (simp add: v NUL_def)
  ultimately show ?thesis by blast
qed

text \<open>
  The check of the statsd sampling rate lets not-a-number through, and one such datagram wipes the
  interval of a counter: after a line with the rate nan, whatever is added to the counter
  before the next poll, that poll reports nothing for it.
\<close>

theorem nan_rate_wipes_counter:
  assumes "name \<noteq> []" and "CHR '':'' \<notin> set name" and "NUL \<notin> set name"
    and "get_counter now (id_of name []) (sv_registry S) = (r, R)"
  shows "parse_statsd_line A now (name @ '':1|c|@nan'' @ NUL # rest) S =
      Some (S\<lparr>sv_registry := update_counter r (counter_add now NaN) R\<rparr>, None) \<and>
    snd (counter_measure (fold (\<lambda>d. counter_add now d) ds (counter_add now NaN c))) = []"
proof -
  let ?t = "'':1|c|@nan'' @ [NUL]"
  have loc: "statsd_parse (name @ '':1|c|@nan'' @ NUL # rest) = statsd_parse (name @ ?t)"
  proof -
    have "NUL \<notin> set (name @ '':1|c|@nan'')" using assms(3) by (auto simp: NUL_def)
    from statsd_parse_local [OF this] obtain t where "\<And>r. statsd_parse ((name @ '':1|c|@nan'') @ NUL # r) = Some t" by blast
    from this [of rest] this [of "[]"] show ?thesis by simp
  qed
  have at: "deref (name @ u) (length name + k) = deref u k" for u k by (simp add: deref_def nth_append)
  have dr: "drop (length name + k) (name @ u) = drop k u" for u k by simp
  have sc: "strchr (name @ ?t) (CHR '':'') = Some (length name)"
  proof -
    have "NUL \<notin> set (name @ '':1|c|@nan'')" using assms(3) by (auto simp: NUL_def)
    then have "cstr ((name @ '':1|c|@nan'') @ [NUL]) = name @ '':1|c|@nan''" by (rule cstr_append_nul)
    moreover have "takeWhile (\<lambda>x. x \<noteq> CHR '':'') (name @ CHR '':'' # ''1|c|@nan'') = name"
      using assms(2) by (simp add: takeWhile_stop takeWhile_eq_all_conv) (metis takeWhile_eq_all_conv)
    ultimately show ?thesis by (simp add: strchr_def Let_def)
  qed
  have st1: "strtod (drop 1 ?t) = (dint 1, 1)" and st2: "strtod (drop 6 ?t) = (NaN, 3)"
    by (simp_all add: strtod_defs NUL_def dint_def)
  have d2: "deref ?t 2 = Some (CHR ''|'')" and d3: "deref ?t 3 = Some (CHR ''c'')" and d4: "deref ?t 4 = Some (CHR ''|'')"
    and d5: "deref ?t 5 = Some (CHR ''@'')" and d9: "deref ?t 9 = Some NUL" by (simp_all add: deref_def)
  have t: "terminated (name @ ?t)" "terminated (drop 6 ?t)" by (simp_all add: terminated_def)
  have nm: "substr (name @ ?t) 0 (length name) = name" by (simp add: substr_def)
  have ot: "statsd_options (name @ ?t) (length name + 4) name = Some (Inr (NaN, []))"
  proof -
    have "statsd_rate (name @ ?t) (length name + 5) name = Some (Inr (NaN, length name + 9))"
      using d9 t(2) d5 st2 by (simp add: statsd_rate_def at dr add_Suc_right [symmetric] add.assoc Let_def NUL_def del: drop_append append.simps)
    then show ?thesis
      using d4 d9 by (simp add: statsd_options_def at add_Suc_right [symmetric] NUL_def del: append.simps)
  qed
  have type: "statsd_type_of (name @ ?t) (length name + 3) name = Some (Inr (S_Counter, length name + 4))"
    using d3 by (simp add: statsd_type_of_def at del: append.simps)
  have sp: "statsd_parse (name @ ?t) = Some (Inr (S_Counter, id_of name [], dint 1, NaN))"
  proof -
    have st: "strtod (drop (Suc (length name)) (name @ ?t)) = (dint 1, 1)" using dr [of 1 ?t] st1 by simp
    have dd: "deref (name @ ?t) (Suc (length name) + 1) = Some (CHR ''|'')" using at [of ?t 2] d2 by simp
    have p: "Suc (Suc (length name) + 1) = length name + 3" by simp
    show ?thesis
      unfolding statsd_parse_def sc option.case nm Let_def st prod.case dd p type sum.case ot
      using assms(1) t(1) by (simp add: id_of_def)
  qed
  have nan: "c_count (counter_add now NaN c) = NaN" for c
    by (cases "c_count c") (simp_all add: counter_add_def Let_def touch_def)
  have stays: "c_count (fold (\<lambda>d. counter_add now d) ds c) = NaN" if "c_count c = NaN" for c
    using that by (induction ds arbitrary: c) (simp_all add: counter_add_def Let_def touch_def)
  have q: "ddiv (dint 1) NaN = NaN" by (simp add: dint_exact)
  show ?thesis
  proof
    show "parse_statsd_line A now (name @ '':1|c|@nan'' @ NUL # rest) S =
      Some (S\<lparr>sv_registry := update_counter r (counter_add now NaN) R\<rparr>, None)"
      unfolding parse_statsd_line_def loc sp using assms(4) by (simp add: update_statsd_metric_def q)
    show "snd (counter_measure (fold (\<lambda>d. counter_add now d) ds (counter_add now NaN c))) = []"
      using stays [OF nan] by (simp add: counter_measure_def)
  qed
qed

theorem nan_rate_wipes_counter_witness:
  "\<exists>r R. parse_statsd_line ns_durations 5 (''requests:1|c|@nan'' @ [NUL]) sample_server =
      Some (sample_server\<lparr>sv_registry := update_counter r (counter_add 5 NaN) R\<rparr>, None) \<and>
    snd (counter_measure (counter_add 5 (dint 7) (counter_add 5 NaN (new_counter 0 (id_of ''requests'' []))))) = []"
proof -
  obtain r R where g: "get_counter 5 (id_of ''requests'' []) (sv_registry sample_server) = (r, R)" by fastforce
  show ?thesis
    using nan_rate_wipes_counter [OF _ _ _ g, of ns_durations "[]" "[dint 7]" "new_counter 0 (id_of ''requests'' [])"]
    by (auto simp: NUL_def)
qed

text \<open>
  A sampled monotonic source stores the wrong number: for every line of type X with a valid
  timestamp, the value that is stored is the bit pattern of the double that was parsed, read as an
  integer and converted back to a double, not the value in the line.
\<close>

theorem sampled_stores_bit_pattern:
  assumes "name_ok name" and "name \<noteq> []" and "tags_ok tags" and "NUL \<notin> set txt"
    and "0 < e" and "int e * 1000000 \<le> int64_max" and "strtod txt = (d, n)" and "0 < n"
    and "get_mono_sampled now (id_of name (intern_tags tags)) (sv_registry S) = (r, R)"
  shows "parse_line A now steady (line_text (CHR ''X'') (Some e) name tags txt @ NUL # rest) S =
    Some (S\<lparr>sv_registry := update_sampled r
      (mono_sampled_set now (dint (uint (bits_of_double d))) (int e * 1000000)) R\<rparr>, None)"
proof -
  have "int e \<le> int64_max" using assms(6) by (simp add: int64_max_def)
  moreover have "convert_value (CHR ''X'') txt = (VD d, n)" by (simp add: convert_value_def assms(7))
  moreover have "in_int64 (int e * 1000 * 1000)" using assms(5,6) by (simp add: in_int64_def int64_min_def)
  ultimately show ?thesis
    using assms(5,8,9) parse_line_text [OF assms(1-4), of "Some e" A now steady "CHR ''X''" rest S]
    by (simp add: apply_measurement_def read_u_def Let_def mult.commute)
qed

theorem sampled_stores_bit_pattern_witness:
  "\<exists>r R. parse_line ns_durations 5 5 (line_text (CHR ''X'') (Some 1700000000000) ''pkts'' [] ''1'' @ NUL # []) sample_server =
    Some (sample_server\<lparr>sv_registry := update_sampled r
      (mono_sampled_set 5 (dint 4607182418800017408) 1700000000000000000) R\<rparr>, None)"
proof -
  obtain r R where g: "get_mono_sampled 5 (id_of ''pkts'' (intern_tags [])) (sv_registry sample_server) = (r, R)"
    by fastforce
  have v: "strtod ''1'' = (Fin 1, 1)" using strtod_digits [of "''1''"] by (simp add: strtod_defs dint_exact)
  have b: "uint (bits_of_double (Fin 1)) = 4607182418800017408" by code_simp
  have "name_ok ''pkts''" "tags_ok []" by (simp_all add: name_ok_def tags_ok_def NUL_def)
  from sampled_stores_bit_pattern [OF this(1) _ this(2) _ _ _ v _ g, of 1700000000000 ns_durations 5 "[]"]
  have "parse_line ns_durations 5 5 (line_text (CHR ''X'') (Some 1700000000000) ''pkts'' [] ''1'' @ NUL # []) sample_server =
    Some (sample_server\<lparr>sv_registry := update_sampled r
      (mono_sampled_set 5 (dint 4607182418800017408) 1700000000000000000) R\<rparr>, None)"
    by (simp add: b NUL_def int64_max_def)
  then show ?thesis by blast
qed

end
