(* ===== verification/ServerInv.thy ===== *)
theory ServerInv
  imports ParserBounds
begin

text \<open>
  Whatever is sent to the server, its state stays well formed: the registry keeps its invariant
  (every meter under its own, sanitised identity, at most as many age gauges as configured),
  and the caches of percentile meters hold one meter for each identity, with that identity.
\<close>

definition server_inv :: "'d server \<Rightarrow> bool" where
  "server_inv S \<longleftrightarrow> registry_inv (sv_registry S) \<and>
     cache_inv (sv_perc_timers S) \<and> list_all (\<lambda>(k, e). wf_id k \<and> pt_id (ce_v e) = k) (sv_perc_timers S) \<and>
     cache_inv (sv_perc_ds S) \<and> list_all (\<lambda>(k, e). wf_id k \<and> pd_id (ce_v e) = k) (sv_perc_ds S)"

section \<open>Identities\<close>

lemma wf_id_add_tag:
  "wf_id \<lparr>id_name = n, id_tags = ts\<rparr> \<Longrightarrow> wf_id \<lparr>id_name = n, id_tags = tag_put (sanitize k) (sanitize v) ts\<rparr>"
  using wf_with_tag [of "\<lparr>id_name = n, id_tags = ts\<rparr>" "sanitize k" "sanitize v"] by (simp add: with_tag_def)

lemma wf_tag_loop:
  "tag_loop s pos ts = Inr (p, ts') \<Longrightarrow> wf_id \<lparr>id_name = n, id_tags = ts\<rparr> \<Longrightarrow> wf_id \<lparr>id_name = n, id_tags = ts'\<rparr>"
proof (induction s pos ts rule: tag_loop.induct)
  case (1 s pos ts)
  note found = 1(2)
  show ?case
  proof (cases "s ! pos = CHR '':''")
    case True
    then show ?thesis using 1 by (simp add: tag_loop.simps)
  next
    case False
    show ?thesis
    proof (cases "find_from (\<lambda>c. c = CHR ''='') s (Suc pos)")
      case None
      then show ?thesis using 1 False by (simp add: tag_loop.simps [of s pos])
    next
      case (Some k)
      show ?thesis
      proof (cases "find_from comma_or_colon s (Suc k)")
        case None
        then show ?thesis using found False Some by (simp add: tag_loop.simps [of s pos])
      next
        case v: (Some v)
        show ?thesis
          using 1(1) [OF False Some v _ wf_id_add_tag [OF 1(3)]] found False Some v
          by (simp add: tag_loop.simps [of s pos])
      qed
    qed
  qed
qed

lemma wf_plain: "wf_id \<lparr>id_name = sanitize n, id_tags = []\<rparr>"
  using wf_id_of [of n "[]"] by (simp add: id_of_def intern_tags_def tag_put_all_def)

lemma wf_get_measurement:
  assumes "get_measurement type m = Some (Inr (i, v))"
  shows "wf_id i"
  using assms wf_plain wf_tag_loop [OF _ wf_plain]
  by (auto simp: get_measurement_def Let_def split_beta split: option.splits if_splits sum.splits)

lemma wf_tag_between:
  "tag_between m bk ek bv p ts = Some ts' \<Longrightarrow> wf_id \<lparr>id_name = n, id_tags = ts\<rparr> \<Longrightarrow> wf_id \<lparr>id_name = n, id_tags = ts'\<rparr>"
  using wf_id_add_tag
  by (auto simp: tag_between_def add_tag_def Let_def split: option.splits if_splits)

lemma wf_statsd_tags:
  "statsd_tags m p bk ek bv ts = Some (Some ts') \<Longrightarrow> wf_id \<lparr>id_name = n, id_tags = ts\<rparr> \<Longrightarrow>
   wf_id \<lparr>id_name = n, id_tags = ts'\<rparr>"
proof (induction m p bk ek bv ts rule: statsd_tags.induct)
  case (1 m p bk ek bv ts)
  note found = 1(3) and wf = 1(4)
  obtain c0 where c0: "deref m p = Some c0" using found by (cases "deref m p") (simp_all add: statsd_tags.simps [of m p])
  show ?case
  proof (cases "c0 = NUL")
    case True
    then show ?thesis using found wf wf_tag_between [OF _ wf] by (simp add: statsd_tags.simps [of m p] c0)
  next
    case False
    obtain c1 where c1: "deref m (Suc p) = Some c1"
      using found False by (cases "deref m (Suc p)") (simp_all add: statsd_tags.simps [of m p] c0)
    define x where "x = (if c1 = CHR '':'' then (Suc (Suc p), Suc p, Some (Suc (Suc p))) else (Suc p, ek, bv))"
    obtain p2 ek2 bv2 where x2: "x = (p2, ek2, bv2)" by (metis prod_cases3)
    have step: "statsd_tags m p bk ek bv ts = (case deref m p2 of
        None \<Rightarrow> None
      | Some c2 \<Rightarrow>
          if c2 = CHR '',''
          then case tag_between m bk ek2 bv2 p2 ts of
                 None \<Rightarrow> Some None
               | Some tags2 \<Rightarrow> statsd_tags m (Suc p2) (Suc p2) ek2 None tags2
          else statsd_tags m p2 bk ek2 bv2 ts)"
      unfolding statsd_tags.simps [of m p] c0 c1 option.case x_def [symmetric] x2 Let_def prod.case
      using False by simp
    obtain c2 where c2: "deref m p2 = Some c2" using found unfolding step by (cases "deref m p2") simp_all
    note hyp = x_def [symmetric] x2 [symmetric]
    show ?thesis
    proof (cases "c2 = CHR '',''")
      case True
      obtain ts2 where ts2: "tag_between m bk ek2 bv2 p2 ts = Some ts2"
        using found True unfolding step c2 by (cases "tag_between m bk ek2 bv2 p2 ts") simp_all
      show ?thesis
        using 1(1) [OF c0 False c1, of x p2 "(ek2, bv2)" ek2 bv2 c2 ts2] found True ts2 c2 x2 wf_tag_between [OF ts2 wf]
        unfolding step by (simp add: x_def)
    next
      case comma: False
      show ?thesis
        using 1(2) [OF c0 False c1, of x p2 "(ek2, bv2)" ek2 bv2 c2] found comma c2 x2 wf
        unfolding step by (simp add: x_def)
    qed
  qed
qed

lemma wf_statsd_parse:
  assumes "statsd_parse m = Some (Inr (type, i, value, rate))"
  shows "wf_id i"
proof -
  have "wf_id \<lparr>id_name = sanitize n, id_tags = ts\<rparr>" if "statsd_options m p name = Some (Inr (q, ts))" for n p name q ts
    using that wf_plain wf_statsd_tags [OF _ wf_plain]
    by (auto simp: statsd_options_def split: option.splits if_splits sum.splits)
  then show ?thesis
    using assms by (auto simp: statsd_parse_def Let_def split_beta split: option.splits if_splits sum.splits)
qed

section \<open>Updates through handles\<close>

lemma funpow_keeps: "P x \<Longrightarrow> (\<And>x. P x \<Longrightarrow> P (f x)) \<Longrightarrow> P ((f ^^ n) x)"
  by (induction n) simp_all

lemma handle_ops_keep_id:
  "mt_id (update_last_success t g) = mt_id g" "mt_id (mono_set now d c) = mt_id c"
  "mt_id (gauge_set now d h) = mt_id h" "mt_id (max_gauge_update now d x) = mt_id x"
  "mt_id (mono_uint_set now u y) = mt_id y" "mt_id (mono_sampled_set now d t z) = mt_id z"
  by (simp_all add: update_last_success_def mono_set_def gauge_set_def max_gauge_update_def mono_uint_set_def
      mono_sampled_set_def touch_def Let_def)

lemma handle_ops_keep_ok:
  "age_gauge_ok g \<Longrightarrow> age_gauge_ok (update_last_success t g)" "mono_ok c \<Longrightarrow> mono_ok (mono_set now d c)"
  "gauge_ok h \<Longrightarrow> gauge_ok (gauge_set now d h)" "max_gauge_ok x \<Longrightarrow> max_gauge_ok (max_gauge_update now d x)"
  "mono_uint_ok y \<Longrightarrow> mono_uint_ok (mono_uint_set now u y)"
  "mono_sampled_ok z \<Longrightarrow> mono_sampled_ok (mono_sampled_set now d t z)"
  by (simp_all add: meter_ok_defs update_last_success_def mono_set_def gauge_set_def max_gauge_update_def
      mono_uint_set_def mono_sampled_set_def touch_def Let_def)

lemma updates_keep:
  assumes "registry_inv R"
  shows "registry_inv (update_age_gauge r (update_last_success t) R)"
    "registry_inv (update_counter r (counter_add now d) R)"
    "registry_inv (update_mono r (mono_set now d) R)"
    "registry_inv (update_gauge r (gauge_set now d) R)"
    "registry_inv (update_max_gauge r (max_gauge_update now d) R)"
    "registry_inv (update_mono_uint r (mono_uint_set now u) R)"
    "registry_inv (update_sampled r (mono_sampled_set now d t) R)"
  using assms
  by (simp_all add: registry_inv_def all_inv_def update_age_gauge_def update_counter_def update_mono_def
      update_gauge_def update_max_gauge_def update_mono_uint_def update_sampled_def mm_inv_update
      handle_ops_keep_id handle_ops_keep_ok counter_add_keeps) (simp add: mm_size_def mm_update_def)

lemma funpow_updates_keep:
  assumes "registry_inv R"
  shows "registry_inv (update_dist r (dist_summary_record now d ^^ k) R)"
    and "registry_inv (update_timer r (timer_record A now x ^^ k) R)"
proof -
  have "mt_id ((dist_summary_record now d ^^ k) m) = mt_id m" "mt_id ((timer_record A now x ^^ k) t) = mt_id t" for m t
    by (induction k) (simp_all add: dist_summary_record_keeps timer_record_keeps)
  moreover have "dist_summary_ok ((dist_summary_record now d ^^ k) m)" if "dist_summary_ok m" for m
    using that by (rule funpow_keeps) (simp add: dist_summary_record_def dist_summary_ok_def Let_def touch_def)
  moreover have "timer_ok ((timer_record A now x ^^ k) t)" if "timer_ok t" for t
    using that by (rule funpow_keeps) (rule timer_record_keeps)
  ultimately show "registry_inv (update_dist r (dist_summary_record now d ^^ k) R)"
    "registry_inv (update_timer r (timer_record A now x ^^ k) R)"
    using assms by (simp_all add: registry_inv_def all_inv_def update_dist_def update_timer_def mm_inv_update)
qed

lemma perc_records_keep:
  assumes "registry_inv R"
  shows "wf_id (pt_id p) \<Longrightarrow> registry_inv (perc_timer_record A now x p R)"
    and "wf_id (pd_id q) \<Longrightarrow> registry_inv (perc_dist_record now n q R)"
  using assms unfolding perc_timer_record_def perc_dist_record_def
  by (simp_all add: Let_def split_beta counter_increment_def [abs_def] updates_keep registry_inv_get wf_perc_counter_id
      registry_inv_update_dist registry_inv_update_timer)

section \<open>Lines\<close>

lemma server_inv_registry: "server_inv S \<Longrightarrow> registry_inv R \<Longrightarrow> server_inv (S\<lparr>sv_registry := R\<rparr>)"
  by (simp add: server_inv_def)

lemma touched_meters: "list_all (\<lambda>(k, e). P k (ce_v e)) (touch_entry now i c) = list_all (\<lambda>(k, e). P k (ce_v e)) c"
  by (induction c) (auto simp: touch_entry_def split: if_splits)

lemma cached_meter:
  assumes "cache_inv c" and "list_all (\<lambda>(k, e). wf_id k \<and> the_id (ce_v e) = k) c" and "wf_id i"
    and "\<And>R. P R \<Longrightarrow> the_id (fst (create i R)) = i \<and> P (snd (create i R))" and "P R"
    and "get_or_create create now i c R = (v, c', R')"
  shows "the_id v = i \<and> cache_inv c' \<and> list_all (\<lambda>(k, e). wf_id k \<and> the_id (ce_v e) = k) c' \<and> P R'"
proof (cases "map_of c i")
  case None
  then show ?thesis
    using assms(1-3,6) assms(4) [OF assms(5)] cache_inv_get [OF assms(1,6)]
    by (auto simp: get_or_create_def Let_def split: prod.splits)
next
  case (Some e)
  have "the_id (ce_v e) = i" using assms(2) map_of_SomeD [OF Some] by (auto simp: list_all_iff)
  then show ?thesis
    using assms(2,5,6) Some cache_inv_get [OF assms(1,6)] touched_meters [of "\<lambda>k v. wf_id k \<and> the_id v = k" now i c]
    by (simp add: get_or_create_def)
qed

lemma cached_timer:
  assumes "server_inv S" and "wf_id i"
    and "get_or_create (create_perc_timer A now) steady i (sv_perc_timers S) (sv_registry S) = (p, c, R)"
  shows "server_inv (S\<lparr>sv_registry := perc_timer_record A now x p R, sv_perc_timers := c\<rparr>)"
proof -
  have "pt_id p = i \<and> cache_inv c \<and> list_all (\<lambda>(k, e). wf_id k \<and> pt_id (ce_v e) = k) c \<and> registry_inv R"
  proof (rule cached_meter [OF _ _ assms(2) _ _ assms(3)])
    show "registry_inv R \<Longrightarrow> pt_id (fst (create_perc_timer A now i R)) = i \<and> registry_inv (snd (create_perc_timer A now i R))" for R
      using registry_inv_get(8) [OF _ assms(2), of R now]
      by (simp add: create_perc_timer_def new_perc_timer_def split_beta)
  qed (use assms(1) in \<open>simp_all add: server_inv_def\<close>)
  then show ?thesis using assms(1,2) by (simp add: server_inv_def perc_records_keep)
qed

lemma cached_ds:
  assumes "server_inv S" and "wf_id i"
    and "get_or_create (create_perc_ds now) steady i (sv_perc_ds S) (sv_registry S) = (p, c, R)"
  shows "server_inv (S\<lparr>sv_registry := perc_dist_record now n p R, sv_perc_ds := c\<rparr>)"
proof -
  have "pd_id p = i \<and> cache_inv c \<and> list_all (\<lambda>(k, e). wf_id k \<and> pd_id (ce_v e) = k) c \<and> registry_inv R"
  proof (rule cached_meter [OF _ _ assms(2) _ _ assms(3)])
    show "registry_inv R \<Longrightarrow> pd_id (fst (create_perc_ds now i R)) = i \<and> registry_inv (snd (create_perc_ds now i R))" for R
      using registry_inv_get(2) [OF _ assms(2), of R now]
      by (simp add: create_perc_ds_def new_perc_dist_def split_beta)
  qed (use assms(1) in \<open>simp_all add: server_inv_def\<close>)
  then show ?thesis using assms(1,2) by (simp add: server_inv_def perc_records_keep)
qed

lemma apply_measurement_keeps:
  assumes "server_inv S" and "wf_id i" and "apply_measurement A now steady type extra i v S = Some (S', e)"
  shows "server_inv S'"
proof -
  have R: "registry_inv (sv_registry S)" using assms(1) by (simp add: server_inv_def)
  note keeps = server_inv_registry [OF assms(1)] updates_keep registry_inv_get [OF R assms(2)]
    registry_inv_get_age_gauge [OF R assms(2)] registry_inv_get_gauge_ttl [OF R assms(2)]
    registry_inv_update_dist registry_inv_update_timer R
  show ?thesis
    using assms(3) cached_timer [OF assms(1,2)] cached_ds [OF assms(1,2)] assms(1)
    unfolding apply_measurement_def Let_def split_beta
    by (auto simp: keeps split: if_splits option.splits)
qed

lemma parse_line_keeps:
  assumes "server_inv S" and "parse_line A now steady m S = Some (S', e)"
  shows "server_inv S'"
  using assms apply_measurement_keeps [OF assms(1) wf_get_measurement]
  by (auto simp: parse_line_def Let_def split_beta split: list.splits if_splits option.splits sum.splits)

lemma update_statsd_metric_keeps:
  assumes "registry_inv R" and "wf_id i" and "update_statsd_metric A now type i value rate R = Some R'"
  shows "registry_inv R'"
  using assms by (auto simp: update_statsd_metric_def Let_def split_beta updates_keep funpow_updates_keep
      registry_inv_get split: statsd_type.splits if_splits option.splits)

lemma parse_statsd_line_keeps:
  assumes "server_inv S" and "parse_statsd_line A now m S = Some (S', e)"
  shows "server_inv S'"
proof -
  have R: "registry_inv (sv_registry S)" using assms(1) by (simp add: server_inv_def)
  show ?thesis
    using assms server_inv_registry [OF assms(1) update_statsd_metric_keeps [OF R wf_statsd_parse]]
    by (auto simp: parse_statsd_line_def split: option.splits sum.splits)
qed

lemma count_line_keeps: "server_inv S \<Longrightarrow> server_inv (count_line now e S)"
proof -
  assume S: "server_inv S"
  have "registry_inv (update_counter r (counter_increment now) (sv_registry S))" for r
    unfolding counter_increment_def [abs_def] using S by (intro updates_keep) (simp add: server_inv_def)
  then show ?thesis using server_inv_registry [OF S] S by (simp add: count_line_def on_registry_def)
qed

lemma parse_lines_keeps:
  assumes "\<And>m S S' e. server_inv S \<Longrightarrow> parser m S = Some (S', e) \<Longrightarrow> server_inv S'"
  shows "server_inv S \<Longrightarrow> parse_lines parser now p err S = Some (S', errs) \<Longrightarrow> server_inv S'"
  using assms
proof (induction parser now p err S rule: parse_lines.induct)
  case (1 parser now p err S)
  note run = 1(3) and keeps = 1(4)
  show ?case
  proof (cases "\<not> terminated p \<or> hd p = NUL")
    case True
    then show ?thesis using run 1(2) by (auto simp: parse_lines.simps [of parser now p] split: if_splits)
  next
    case False
    define line where "line = (case strchr p (CHR 0x0A) of Some n \<Rightarrow> p[n := NUL] | None \<Rightarrow> p)"
    obtain S1 e where S1: "parser line S = Some (S1, e)"
      using run False by (cases "parser line S") (auto simp: parse_lines.simps [of parser now p] line_def Let_def)
    have inv: "server_inv (count_line now e S1)" by (rule count_line_keeps [OF keeps [OF 1(2) S1]])
    show ?thesis
    proof (cases "strchr p (CHR 0x0A)")
      case None
      then show ?thesis using run False S1 inv by (simp add: parse_lines.simps [of parser now p] line_def)
    next
      case (Some n)
      show ?thesis
        using 1(1) [of _ _ "(S1, e)" S1 e _ _ n, OF _ _ refl _ _ refl refl refl _ inv] run keeps
        using False S1 Some by (simp add: parse_lines.simps [of parser now p] line_def Let_def)
    qed
  qed
qed

lemma server_inv_new: "registry_inv R \<Longrightarrow> server_inv (new_server now R)"
  by (simp add: server_inv_def new_server_def split_beta cache_inv_def registry_inv_get wf_id_plain)

end
