(* ===== verification/ProcUtils.thy ===== *)
theory ProcUtils
  imports CLib
begin

text \<open>
  \<open>server/proc_utils.cc\<close>: the receive buffer size and the statistics of the UDP socket, both
  read from files under \<open>/proc\<close>. The content of a file is an argument (\<open>None\<close> when it cannot
  be opened); \<open>absl::SimpleAtoi\<close> and \<open>absl::StrSplit\<close> are parameters.
\<close>

section \<open>The size of the receive buffer\<close>

definition kDefaultBuffer :: int where
  "kDefaultBuffer = 16 * 1024 * 1024"

record buffer_size_cache =
  \<comment> \<open>the static variables of \<open>max_buffer_size\<close>\<close>
  bs_result :: int
  bs_last_file :: "string option"

definition no_size :: buffer_size_cache where
  "no_size = \<lparr>bs_result = 0, bs_last_file = None\<rparr>"

definition max_buffer_size ::
  "(string \<Rightarrow> int option) \<Rightarrow> string \<Rightarrow> string option \<Rightarrow> buffer_size_cache \<Rightarrow> (int \<times> buffer_size_cache) option" where
  \<comment> \<open>\<open>None\<close>: the terminator is written past the end of the buffer of 4096 bytes\<close>
  "max_buffer_size simple_atoi proc_file content st =
     (if 0 < bs_result st \<and> bs_last_file st = Some proc_file then Some (bs_result st, st)
      else let finish = (\<lambda>r. Some (r, st\<lparr>bs_result := r, bs_last_file := Some proc_file\<rparr>))
           in case content of
                None \<Rightarrow> finish kDefaultBuffer
              | Some bytes \<Rightarrow>
                  let buf = take 4096 bytes; n = length buf
                  in if n = 0 then finish kDefaultBuffer
                     else if n = 4096 then None
                     else case simple_atoi (cstr (buf @ [NUL])) of
                            None \<Rightarrow> finish kDefaultBuffer
                          | Some r \<Rightarrow> finish r)"

lemma max_buffer_size_memo:
  assumes "max_buffer_size atoi f content st = Some (r, st')" and "0 < r"
  shows "max_buffer_size atoi f content' st' = Some (r, st')"
  using assms by (auto simp: max_buffer_size_def Let_def split: if_splits option.splits)

section \<open>The UDP socket\<close>

record udp_info_t =
  ui_num_dropped :: int
  ui_rx_queue_bytes :: int

definition strto_base :: "int \<Rightarrow> (char \<Rightarrow> bool) \<Rightarrow> char list \<Rightarrow> bool \<times> int" where
  \<comment> \<open>sign and magnitude of \<open>strtol\<close> and \<open>strtoul\<close>, an optional \<open>0x\<close> before hexadecimal digits\<close>
  "strto_base b digit s =
     (let w = skip_space s; (neg, sg) = sign_of (drop w s); u = drop (w + sg) s;
          v = (if b = 16 \<and> has_prefix ''0x'' u \<and> 2 < length u \<and> digit (u ! 2) then drop 2 u else u)
      in (neg, number b (takeWhile digit v)))"

definition strtol_hex :: "char list \<Rightarrow> int" where
  "strtol_hex s = (let (neg, n) = strto_base 16 isxdigit s
     in if neg then max int64_min (- n) else min int64_max n)"

definition strtoul_base :: "int \<Rightarrow> (char \<Rightarrow> bool) \<Rightarrow> char list \<Rightarrow> int" where
  \<comment> \<open>\<open>unsigned long\<close>, saturated; a minus sign negates modulo 2^64\<close>
  "strtoul_base b digit s = (let (neg, n) = strto_base b digit s
     in if 2 ^ 64 \<le> n then 2 ^ 64 - 1 else if neg then u64 (- n) else n)"

primrec udp_line :: "(string \<Rightarrow> string list) \<Rightarrow> int \<Rightarrow> string list \<Rightarrow> udp_info_t option" where
  "udp_line str_split port [] = None"
| "udp_line str_split port (line # rest) =
     (let fields = str_split line
      in if length fields < 17 then udp_line str_split port rest
         else if port \<noteq> strtol_hex (fields ! 2) then udp_line str_split port rest
         else Some \<lparr>ui_num_dropped = wrap64 (strtoul_base 10 isdigit (fields ! 16)),
                    ui_rx_queue_bytes = wrap64 (strtoul_base 16 isxdigit (fields ! 7))\<rparr>)"

definition udp_info :: "(string \<Rightarrow> string list) \<Rightarrow> int \<Rightarrow> string list option \<Rightarrow> udp_info_t option" where
  \<comment> \<open>the lines as \<open>fgets\<close> returns them\<close>
  "udp_info str_split port file = (case file of None \<Rightarrow> None | Some [] \<Rightarrow> None
     | Some (header # lines) \<Rightarrow> udp_line str_split port lines)"

lemma udp_line_first:
  "udp_line sp port ls = (case filter (\<lambda>l. 17 \<le> length (sp l) \<and> strtol_hex (sp l ! 2) = port) ls of
     [] \<Rightarrow> None
   | l # _ \<Rightarrow> Some \<lparr>ui_num_dropped = wrap64 (strtoul_base 10 isdigit (sp l ! 16)),
                   ui_rx_queue_bytes = wrap64 (strtoul_base 16 isxdigit (sp l ! 7))\<rparr>)"
  by (induction ls) (auto simp: Let_def)

end
