(* ===== verification/HttpClient.thy ===== *)
theory HttpClient
  imports PercMeters CLib
begin

text \<open>
  \<open>spectator/http_client.cc\<close>, \<open>spectator/log_entry.h\<close> and \<open>spectator/strings.cc\<close>: a request, its
  retries, and the percentile timer that every attempt records. The transfer itself is a library
  (curl): a function from a request and the state of the world to what was received. The clock
  readings of an attempt come with its transfer.
\<close>

section \<open>The path of a URL\<close>

definition path_from_url :: "string \<Rightarrow> string" where
  "path_from_url url =
     (if url = [] then ''/''
      else let proto_end = dropWhile (\<lambda>c. c \<noteq> CHR '':'') url
           in if length proto_end < 3 then url
              else let path_begin = dropWhile (\<lambda>c. c \<noteq> CHR ''/'') (drop 3 proto_end)
                   in if path_begin = [] then ''/'' else takeWhile (\<lambda>c. c \<noteq> CHR ''?'') path_begin)"

section \<open>Requests and answers\<close>

datatype curl_code = Curl_ok | Could_not_resolve_host | Could_not_connect | Operation_timed_out | Curl_other int

record http_request =
  rq_method :: string
  rq_url :: string
  rq_headers :: "string list"
  rq_payload :: string

record 'd transfer =
  tr_code :: curl_code
  tr_status :: int                \<comment> \<open>the response code that curl reports\<close>
  tr_chunks :: "string list"      \<comment> \<open>the calls of the write function\<close>
  tr_header_lines :: "string list"
  tr_elapsed :: 'd                \<comment> \<open>since the start of the attempt, when the error is handled\<close>
  tr_logged :: 'd                 \<comment> \<open>since the start of the attempt, when it is recorded\<close>
  tr_now :: int                   \<comment> \<open>the clock of the meters then\<close>

record http_response =
  hr_status :: int
  hr_body :: string
  hr_headers :: "(string \<times> string) list"

record 'd http_config =
  hc_connect_timeout :: 'd
  hc_read_timeout :: 'd
  hc_compress :: bool
  hc_read_headers :: bool
  hc_read_body :: bool
  hc_verbose_requests :: bool
  hc_status_metrics_enabled :: bool
  hc_external_enabled :: bool

definition capture_output :: "string \<Rightarrow> string \<Rightarrow> string" where
  "capture_output contents resp = resp @ contents"

definition capture_header :: "string \<Rightarrow> (string \<times> string) list \<Rightarrow> (string \<times> string) list" where
  \<comment> \<open>the first header of a name stays\<close>
  "capture_header contents headers =
     (let p = length (takeWhile (\<lambda>c. c \<noteq> CHR '':'') contents); n = length contents
      in if p < n \<and> p + 2 < n
         then let key = take p contents; val = take (n - 1 - (p + 2)) (drop (p + 2) contents)
              in if map_of headers key = None then headers @ [(key, val)] else headers
         else headers)"

definition captured :: "'d http_config \<Rightarrow> int \<Rightarrow> 'd transfer \<Rightarrow> http_response" where
  \<comment> \<open>what the handle holds when the response is moved out of it\<close>
  "captured cfg status t = \<lparr>hr_status = status,
     hr_body = (if hc_read_body cfg then fold capture_output (tr_chunks t) [] else []),
     hr_headers = (if hc_read_headers cfg then fold capture_header (tr_header_lines t) [] else [])\<rparr>"

section \<open>The log entry\<close>

definition show_int :: "int \<Rightarrow> string" where
  "show_int n = (if n < 0 then CHR ''-'' # show_nat (nat (- n)) else show_nat (nat n))"

definition new_log_entry :: "'d registry \<Rightarrow> string \<Rightarrow> string \<Rightarrow> meter_id" where
  \<comment> \<open>the identity of the entry; its start is the origin of the durations of the transfer\<close>
  "new_log_entry R mth url = id_of ''ipc.client.call''
     (intern_tags [(''nf.process'', cf_process_name (rg_config R)), (''owner'', ''spectatord''),
        (''ipc.endpoint'', path_from_url url), (''http.method'', mth), (''http.status'', ''-1'')])"

definition set_status_code :: "int \<Rightarrow> meter_id \<Rightarrow> meter_id" where
  "set_status_code status = with_tag (sanitize ''http.status'') (sanitize (show_int status))"

definition attempt :: "nat \<Rightarrow> string" where
  "attempt n = sanitize (if n = 0 then ''initial'' else if n = 1 then ''second'' else ''third_up'')"

definition set_attempt :: "nat \<Rightarrow> bool \<Rightarrow> meter_id \<Rightarrow> meter_id" where
  "set_attempt n is_final = with_tags2 (sanitize ''ipc.attempt'') (attempt n) (sanitize ''ipc.attempt.final'')
     (if is_final then sanitize ''true'' else sanitize ''false'')"

definition set_error :: "string \<Rightarrow> meter_id \<Rightarrow> meter_id" where
  "set_error err = with_tags2 (sanitize ''ipc.result'') (sanitize ''failure'') (sanitize ''ipc.status'') (sanitize err)"

definition set_success :: "meter_id \<Rightarrow> meter_id" where
  "set_success = with_tags2 (sanitize ''ipc.status'') (sanitize ''success'') (sanitize ''ipc.result'') (sanitize ''success'')"

definition log_entry :: "'d absl_time \<Rightarrow> bool \<Rightarrow> 'd transfer \<Rightarrow> meter_id \<Rightarrow> 'd registry \<Rightarrow> 'd registry" where
  "log_entry A enabled t i R =
     (if enabled then
        let (p, R1) = new_perc_timer (tr_now t) i (ab_nanos A 1000000) (ab_seconds A 10) R
        in perc_timer_record A (tr_now t) (tr_logged t) p R1
      else R)"

section \<open>Performing a request\<close>

definition is_retryable_error :: "int \<Rightarrow> bool" where
  \<comment> \<open>\<open>/\<close> rounds towards zero; the quotient is 5 for the same numbers either way\<close>
  "is_retryable_error http_code \<longleftrightarrow> http_code = 429 \<or> http_code div 100 = 5"

definition curl_error :: "curl_code \<Rightarrow> string" where
  "curl_error c = (case c of Could_not_resolve_host \<Rightarrow> ''dns_error'' | Could_not_connect \<Rightarrow> ''connection_error''
     | Operation_timed_out \<Rightarrow> ''timeout'' | _ \<Rightarrow> ''unknown'')"

definition retryable :: "'d absl_time \<Rightarrow> ('d \<Rightarrow> 'd \<Rightarrow> 'd) \<Rightarrow> 'd http_config \<Rightarrow> 'd transfer \<Rightarrow> bool" where
  "retryable A dplus cfg t \<longleftrightarrow>
     (if tr_code t \<noteq> Curl_ok
      then ab_less A (tr_elapsed t) (dplus (hc_connect_timeout cfg) (hc_read_timeout cfg))
      else is_retryable_error (tr_status t))"

definition attempt_id :: "'d transfer \<Rightarrow> nat \<Rightarrow> bool \<Rightarrow> meter_id \<Rightarrow> meter_id" where
  \<comment> \<open>the identity that an attempt records, from the one of a fresh entry\<close>
  "attempt_id t n is_final i = set_attempt n is_final
     (if tr_code t \<noteq> Curl_ok then
        let e = set_error (curl_error (tr_code t)) i in if is_final then set_status_code (- 1) e else e
      else let e = set_status_code (tr_status t) i
           in if tr_status t div 100 = 2 then set_success e else set_error ''http_error'' e)"

definition backoff :: "'d transfer \<Rightarrow> nat \<Rightarrow> int list" where
  \<comment> \<open>the milliseconds slept before the next attempt\<close>
  "backoff t n = (if tr_code t = Curl_ok then [200 * 2 ^ n] else [])"

function perform ::
  "'d absl_time \<Rightarrow> ('d \<Rightarrow> 'd \<Rightarrow> 'd) \<Rightarrow> (http_request \<Rightarrow> 'w \<Rightarrow> 'd transfer \<times> 'w) \<Rightarrow> 'd http_config \<Rightarrow>
   http_request \<Rightarrow> nat \<Rightarrow> 'w \<Rightarrow> 'd registry \<Rightarrow> http_response \<times> int list \<times> 'w \<times> 'd registry" where
  "perform A dplus net cfg rq n w R =
     (let i = new_log_entry R (rq_method rq) (rq_url rq);
          (t, w1) = net rq w
      in if retryable A dplus cfg t \<and> n < 2 then
           let R1 = log_entry A (hc_status_metrics_enabled cfg) t (attempt_id t n False i) R;
               (r, sleeps, w2, R2) = perform A dplus net cfg rq (Suc n) w1 R1
           in (r, backoff t n @ sleeps, w2, R2)
         else
           let R1 = log_entry A (hc_status_metrics_enabled cfg) t (attempt_id t n True i) R;
               status = (if tr_code t \<noteq> Curl_ok then - 1 else tr_status t)
           in (captured cfg status t, [], w1, R1))"
  by pat_completeness auto
termination
  by (relation "measure (\<lambda>(A, dplus, net, cfg, rq, n, w, R). 2 - n)") auto

declare perform.simps [simp del]

definition kSmileJson :: string where
  "kSmileJson = ''Content-Type: application/x-jackson-smile''"

definition kGzipEncoding :: string where
  "kGzipEncoding = ''Content-Encoding: gzip''"

definition http_post ::
  "'d absl_time \<Rightarrow> ('d \<Rightarrow> 'd \<Rightarrow> 'd) \<Rightarrow> (http_request \<Rightarrow> 'w \<Rightarrow> 'd transfer \<times> 'w) \<Rightarrow> 'd http_config \<Rightarrow>
   string \<Rightarrow> string \<Rightarrow> string \<Rightarrow> 'w \<Rightarrow> 'd registry \<Rightarrow> http_response \<times> int list \<times> 'w \<times> 'd registry" where
  \<comment> \<open>\<open>Post\<close> of a compressed payload\<close>
  "http_post A dplus net cfg url content_type payload w R = perform A dplus net cfg
     \<lparr>rq_method = ''POST'', rq_url = url, rq_headers = [content_type, kGzipEncoding], rq_payload = payload\<rparr> 0 w R"

record deflater =
  \<comment> \<open>zlib, as \<open>gzip_compress\<close> uses it: the codes of the calls, the output in a given room, and \<open>compressBound\<close>\<close>
  df_init :: int
  df_deflate :: "string \<Rightarrow> nat \<Rightarrow> int \<times> string"
  df_end :: int
  df_bound :: "nat \<Rightarrow> nat"

definition kGzipHeaderSize :: nat where
  "kGzipHeaderSize = 16"

definition gzip_compress :: "deflater \<Rightarrow> nat \<Rightarrow> string \<Rightarrow> int \<times> string" where
  \<comment> \<open>the code and the output; 0, 1 and -5 are \<open>Z_OK\<close>, \<open>Z_STREAM_END\<close> and \<open>Z_BUF_ERROR\<close>\<close>
  "gzip_compress D room source =
     (if df_init D \<noteq> 0 then (df_init D, [])
      else let (err, out) = df_deflate D source room
           in if err \<noteq> 1 then (if err = 0 then - 5 else err, []) else (df_end D, out))"

definition http_post_plain ::
  "'d absl_time \<Rightarrow> ('d \<Rightarrow> 'd \<Rightarrow> 'd) \<Rightarrow> (http_request \<Rightarrow> 'w \<Rightarrow> 'd transfer \<times> 'w) \<Rightarrow> deflater \<Rightarrow> 'd http_config \<Rightarrow>
   string \<Rightarrow> string \<Rightarrow> string \<Rightarrow> 'w \<Rightarrow> 'd registry \<Rightarrow> http_response \<times> int list \<times> 'w \<times> 'd registry" where
  \<comment> \<open>\<open>Post\<close> of a payload that the client compresses itself when it is configured to\<close>
  "http_post_plain A dplus net D cfg url content_type payload w R =
     (let send = (\<lambda>headers body. perform A dplus net cfg
            \<lparr>rq_method = ''POST'', rq_url = url, rq_headers = headers, rq_payload = body\<rparr> 0 w R)
      in if hc_compress cfg
         then let (res, body) = gzip_compress D (df_bound D (length payload) + kGzipHeaderSize) payload
              in if res \<noteq> 0 then (\<lparr>hr_status = - 1, hr_body = [], hr_headers = []\<rparr>, [], w, R)
                 else send [content_type, kGzipEncoding] body
         else send [content_type] payload)"

definition http_get ::
  "'d absl_time \<Rightarrow> ('d \<Rightarrow> 'd \<Rightarrow> 'd) \<Rightarrow> (http_request \<Rightarrow> 'w \<Rightarrow> 'd transfer \<times> 'w) \<Rightarrow> 'd http_config \<Rightarrow>
   string \<Rightarrow> 'w \<Rightarrow> 'd registry \<Rightarrow> http_response \<times> int list \<times> 'w \<times> 'd registry" where
  "http_get A dplus net cfg url w R = perform A dplus net cfg
     \<lparr>rq_method = ''GET'', rq_url = url, rq_headers = [], rq_payload = []\<rparr> 0 w R"

definition method_header ::
  "'d absl_time \<Rightarrow> ('d \<Rightarrow> 'd \<Rightarrow> 'd) \<Rightarrow> (http_request \<Rightarrow> 'w \<Rightarrow> 'd transfer \<times> 'w) \<Rightarrow> 'd http_config \<Rightarrow>
   string \<Rightarrow> string \<Rightarrow> string list \<Rightarrow> 'w \<Rightarrow> 'd registry \<Rightarrow> http_response \<times> int list \<times> 'w \<times> 'd registry" where
  "method_header A dplus net cfg mth url headers w R = perform A dplus net cfg
     \<lparr>rq_method = mth, rq_url = url, rq_headers = headers, rq_payload = []\<rparr> 0 w R"

section \<open>Retries\<close>

primrec exchange :: "(http_request \<Rightarrow> 'w \<Rightarrow> 'd transfer \<times> 'w) \<Rightarrow> http_request \<Rightarrow> nat \<Rightarrow> 'w \<Rightarrow> 'd transfer list \<times> 'w" where
  \<comment> \<open>the same request, a number of times\<close>
  "exchange net rq 0 w = ([], w)"
| "exchange net rq (Suc k) w = (let (t, w1) = net rq w; (ts, w2) = exchange net rq k w1 in (t # ts, w2))"

primrec record_attempts :: "'d absl_time \<Rightarrow> bool \<Rightarrow> meter_id \<Rightarrow> nat \<Rightarrow> 'd transfer list \<Rightarrow> 'd registry \<Rightarrow> 'd registry" where
  "record_attempts A enabled i n [] R = R"
| "record_attempts A enabled i n (t # ts) R =
     record_attempts A enabled i (Suc n) ts (log_entry A enabled t (attempt_id t n (ts = []) i) R)"

definition final_status :: "'d transfer \<Rightarrow> int" where
  "final_status t = (if tr_code t \<noteq> Curl_ok then - 1 else tr_status t)"

primrec backoffs :: "nat \<Rightarrow> 'd transfer list \<Rightarrow> int list" where
  "backoffs n [] = []"
| "backoffs n (t # ts) = (if ts = [] then [] else backoff t n @ backoffs (Suc n) ts)"

lemma log_entry_config [simp]: "rg_config (log_entry A enabled t i R) = rg_config R"
  by (simp add: log_entry_def new_perc_timer_def perc_timer_record_def get_timer_def get_counter_def
      update_timer_def update_counter_def split_beta Let_def)

lemma new_log_entry_config: "rg_config R' = rg_config R \<Longrightarrow> new_log_entry R' mth url = new_log_entry R mth url"
  by (simp add: new_log_entry_def)

lemma exchange_length: "exchange net rq k w = (ts, w') \<Longrightarrow> length ts = k"
  by (induction k arbitrary: w ts w') (auto simp: Let_def split: prod.splits)

lemma perform_attempts:
  assumes "n \<le> 2"
  shows "\<exists>k ts w'. exchange net rq k w = (ts, w') \<and> 0 < k \<and> k + n \<le> 3 \<and>
    list_all (retryable A dplus cfg) (butlast ts) \<and> (k + n < 3 \<longrightarrow> \<not> retryable A dplus cfg (last ts)) \<and>
    perform A dplus net cfg rq n w R =
      (captured cfg (final_status (last ts)) (last ts), backoffs n ts, w',
       record_attempts A (hc_status_metrics_enabled cfg) (new_log_entry R (rq_method rq) (rq_url rq)) n ts R)"
  using assms
proof (induction "2 - n" arbitrary: n w R)
  case 0
  then have n: "n = 2" by simp
  obtain t w1 where t: "net rq w = (t, w1)" by (cases "net rq w")
  show ?case
    by (rule exI [of _ 1], rule exI [of _ "[t]"], rule exI [of _ w1])
      (simp add: n t perform.simps [of A dplus net cfg rq 2] Let_def final_status_def)
next
  case (Suc m)
  obtain t w1 where t: "net rq w = (t, w1)" by (cases "net rq w")
  let ?i = "new_log_entry R (rq_method rq) (rq_url rq)"
  let ?log = "\<lambda>final. log_entry A (hc_status_metrics_enabled cfg) t (attempt_id t n final ?i) R"
  show ?case
  proof (cases "retryable A dplus cfg t")
    case False
    then show ?thesis using Suc.prems
      by (intro exI [of _ 1] exI [of _ "[t]"] exI [of _ w1])
        (simp add: t perform.simps [of A dplus net cfg rq n] Let_def final_status_def)
  next
    case True
    have n: "n < 2" "m = 2 - Suc n" "Suc n \<le> 2" using Suc.hyps(2) by simp_all
    from Suc.hyps(1) [OF n(2,3), of w1 "?log False"] obtain k ts w' where
      k: "exchange net rq k w1 = (ts, w')" "0 < k" "k + Suc n \<le> 3" "list_all (retryable A dplus cfg) (butlast ts)"
      "k + Suc n < 3 \<longrightarrow> \<not> retryable A dplus cfg (last ts)"
      "perform A dplus net cfg rq (Suc n) w1 (?log False) =
        (captured cfg (final_status (last ts)) (last ts), backoffs (Suc n) ts, w',
         record_attempts A (hc_status_metrics_enabled cfg) ?i (Suc n) ts (?log False))"
      by (auto simp: new_log_entry_config [of "?log False" R])
    have ne: "ts \<noteq> []" using exchange_length [OF k(1)] k(2) by auto
    show ?thesis
      using k True n ne
      by (intro exI [of _ "Suc k"] exI [of _ "t # ts"] exI [of _ w'])
        (simp add: t perform.simps [of A dplus net cfg rq n w] Let_def)
  qed
qed

lemma backoffs_bounded:
  "ts \<noteq> [] \<Longrightarrow> length ts + n \<le> 3 \<Longrightarrow> sum_list (backoffs n ts) \<le> 800 - 200 * 2 ^ n"
proof (induction ts arbitrary: n)
  case Nil
  then show ?case by simp
next
  case (Cons t ts)
  then have "n = 0 \<or> n = 1 \<or> n = 2" by auto
  then show ?case using Cons.IH [of "Suc n"] Cons.prems by (cases "ts = []") (auto simp: backoff_def)
qed

text \<open>
  C17. A request is sent at least once and at most three times; it is sent again exactly when the
  last transfer failed before the total timeout or was answered with 429 or 5xx, and the
  third transfer is final whatever it brings. The response is that of the last transfer, with status -1 when it
  failed. Every transfer is recorded once, under its attempt, with only the last marked as final,
  and the client sleeps no longer than 600 milliseconds in total.
\<close>

theorem requests_are_retried_at_most_twice:
  "\<exists>k ts w'. exchange net rq k w = (ts, w') \<and> 0 < k \<and> k \<le> 3 \<and>
    list_all (retryable A dplus cfg) (butlast ts) \<and> (k < 3 \<longrightarrow> \<not> retryable A dplus cfg (last ts)) \<and>
    perform A dplus net cfg rq 0 w R =
      (captured cfg (final_status (last ts)) (last ts), backoffs 0 ts, w',
       record_attempts A (hc_status_metrics_enabled cfg) (new_log_entry R (rq_method rq) (rq_url rq)) 0 ts R) \<and>
    sum_list (backoffs 0 ts) \<le> 600"
proof -
  obtain k ts w' where k: "exchange net rq k w = (ts, w')" "0 < k" "k + 0 \<le> 3"
    "list_all (retryable A dplus cfg) (butlast ts)" "k + 0 < 3 \<longrightarrow> \<not> retryable A dplus cfg (last ts)"
    "perform A dplus net cfg rq 0 w R =
      (captured cfg (final_status (last ts)) (last ts), backoffs 0 ts, w',
       record_attempts A (hc_status_metrics_enabled cfg) (new_log_entry R (rq_method rq) (rq_url rq)) 0 ts R)"
    using perform_attempts [of 0 net rq w A dplus cfg R] by auto
  moreover have "sum_list (backoffs 0 ts) \<le> 600"
    using backoffs_bounded [of ts 0] k(2,3) exchange_length [OF k(1)] by fastforce
  ultimately show ?thesis by auto
qed

text \<open>A transfer that is answered with 503 twice and then with 200.\<close>

definition flaky :: "http_request \<Rightarrow> nat \<Rightarrow> int transfer \<times> nat" where
  "flaky rq n = (\<lparr>tr_code = Curl_ok, tr_status = (if n < 2 then 503 else 200), tr_chunks = [''{}''], tr_header_lines = [],
     tr_elapsed = 5, tr_logged = 7, tr_now = int n\<rparr>, Suc n)"

theorem requests_are_retried_at_most_twice_witness:
  "let ts = fst (exchange flaky \<lparr>rq_method = ''POST'', rq_url = ''http://h/p'', rq_headers = [], rq_payload = []\<rparr> 3 0)
   in map tr_status ts = [503, 503, 200] \<and> backoffs 0 ts = [200, 400]"
proof -
  let ?cfg = "\<lparr>hc_connect_timeout = 1, hc_read_timeout = 2, hc_compress = True, hc_read_headers = False,
    hc_read_body = True, hc_verbose_requests = False, hc_status_metrics_enabled = False, hc_external_enabled = False\<rparr> :: int http_config"
  let ?rq = "\<lparr>rq_method = ''POST'', rq_url = ''http://h/p'', rq_headers = [], rq_payload = []\<rparr>"
  obtain k ts w' where k: "exchange flaky ?rq k 0 = (ts, w')" "0 < k" "k \<le> 3"
    "k < 3 \<longrightarrow> \<not> retryable ns_durations (+) ?cfg (last ts)"
    using requests_are_retried_at_most_twice [of flaky ?rq 0 ns_durations "(+)" ?cfg "sample_registry 1"]
    by (elim exE conjE) (rule that)
  have "k = 1 \<or> k = 2 \<or> k = 3" using k by auto
  then have "k = 3" using k
    by (auto simp: flaky_def numeral_2_eq_2 retryable_def is_retryable_error_def)
  then show ?thesis using k by (auto simp: flaky_def numeral_3_eq_3 numeral_2_eq_2 backoff_def)
qed

section \<open>The invariant of the registry\<close>

lemma perc_timer_record_keeps:
  "registry_inv R \<Longrightarrow> wf_id (pt_id p) \<Longrightarrow> registry_inv (perc_timer_record A now x p R)"
  unfolding perc_timer_record_def Let_def split_beta
  by (rule update_counter_inv)
    (simp_all add: counter_increment_def counter_add_keeps registry_inv_get wf_perc_counter_id registry_inv_update_timer)

lemma log_entry_keeps [spd_inv]:
  "registry_inv R \<Longrightarrow> wf_id i \<Longrightarrow> registry_inv (log_entry A enabled t i R)"
  by (simp add: log_entry_def new_perc_timer_def Let_def split_beta perc_timer_record_keeps registry_inv_get)

lemma wf_attempt_id [spd_inv]: "wf_id i \<Longrightarrow> wf_id (attempt_id t n final i)"
  by (simp add: attempt_id_def set_attempt_def set_error_def set_success_def set_status_code_def attempt_def
      with_tags2_eq wf_with_tag Let_def)

lemma record_attempts_keeps [spd_inv]:
  "registry_inv R \<Longrightarrow> wf_id i \<Longrightarrow> registry_inv (record_attempts A enabled i n ts R)"
  by (induction ts arbitrary: n R) (simp_all add: log_entry_keeps wf_attempt_id)

lemma record_attempts_config [simp]: "rg_config (record_attempts A enabled i n ts R) = rg_config R"
  by (induction ts arbitrary: n R) simp_all

lemma perform_keeps [spd_inv]:
  assumes "registry_inv R"
  shows "registry_inv (snd (snd (snd (perform A dplus net cfg rq 0 w R)))) \<and>
    rg_config (snd (snd (snd (perform A dplus net cfg rq 0 w R)))) = rg_config R"
proof -
  have "wf_id (new_log_entry R (rq_method rq) (rq_url rq))" by (simp add: new_log_entry_def wf_id_of)
  then show ?thesis
    using perform_attempts [of 0 net rq w A dplus cfg R] record_attempts_keeps [OF assms] by fastforce
qed

end
