(* ===== verification/Smile.thy ===== *)
theory Smile
  imports DoubleBits CLib
begin

text \<open>
  \<open>spectator/smile.h\<close> and \<open>spectator/smile.cc\<close>: how numbers and strings are written in the
  Smile format of the payload. The decoder at the end is the reference, written after the
  format: a value is one of the tokens that a payload can contain.
\<close>

type_synonym byte = "8 word"

definition byte_of :: "nat \<Rightarrow> byte" where
  \<comment> \<open>\<open>static_cast<uint8_t>\<close>\<close>
  "byte_of n = word_of_nat n"

section \<open>Encoding\<close>

definition kTokenInt32 :: nat where "kTokenInt32 = 0"
definition kByteInt32 :: nat where "kByteInt32 = 0x24 + kTokenInt32"
definition kByteFloat64 :: nat where "kByteFloat64 = 0x28 + 1"

definition zigzagEncode :: "nat \<Rightarrow> nat" where
  \<comment> \<open>shifting a \<open>size_t\<close> drops the highest bit\<close>
  "zigzagEncode n = 2 * n mod 2 ^ 64"

definition smile_size :: "nat \<Rightarrow> byte list" where
  \<comment> \<open>\<open>Append(size_t)\<close>\<close>
  "smile_size n =
     (let i = zigzagEncode n
      in if i \<le> 0x3F
         then (if i \<le> 0x1F then [byte_of (0xC0 + i)] else [byte_of kByteInt32, byte_of (0x80 + i)])
         else
           let b0 = byte_of (0x80 + i mod 64); i = i div 64
           in if i \<le> 0x7F then [byte_of kByteInt32, byte_of i, b0]
              else
                let b1 = byte_of (i mod 128); i = i div 128
                in if i \<le> 0x7F then [byte_of kByteInt32, byte_of i, b1, b0]
                   else
                     let b2 = byte_of (i mod 128); i = i div 128
                     in if i \<le> 0x7F then [byte_of kTokenInt32, byte_of i, b2, b1, b0]
                        else let b3 = byte_of (i mod 128)
                             in [byte_of kByteInt32, byte_of (i div 128), b3, b2, b1, b0])"

definition smile_int :: "int \<Rightarrow> byte list option" where
  \<comment> \<open>\<open>Append(int)\<close>; the assertion fails for a negative number\<close>
  "smile_int n = (if 0 \<le> n then Some (smile_size (nat n)) else None)"

definition smile_double :: "double \<Rightarrow> byte list" where
  \<comment> \<open>\<open>Append(double)\<close>: ten bytes of seven bits, from the top\<close>
  "smile_double x =
     (let l = unat (bits_of_double x); hi5 = l div 2 ^ 35 mod 2 ^ 32; mid = l div 2 ^ 28 mod 2 ^ 32;
          lo4 = l mod 2 ^ 32
      in byte_of kByteFloat64 #
         map byte_of
          [hi5 div 2 ^ 28, hi5 div 2 ^ 21 mod 128, hi5 div 2 ^ 14 mod 128, hi5 div 2 ^ 7 mod 128, hi5 mod 128,
           mid mod 128,
           lo4 div 2 ^ 21 mod 128, lo4 div 2 ^ 14 mod 128, lo4 div 2 ^ 7 mod 128, lo4 mod 128])"

definition bytes_of :: "string \<Rightarrow> byte list" where
  "bytes_of s = map (\<lambda>c. byte_of (of_char c)) s"

definition smile_string :: "string \<Rightarrow> byte list" where
  \<comment> \<open>\<open>Append(std::string_view)\<close>\<close>
  "smile_string s =
     (if s = [] then [0x20]
      else if length s \<le> 64 then byte_of (0x40 - 1 + length s) # bytes_of s
      else 0xE0 # bytes_of s @ [0xFC])"

definition smile_header :: "byte list" where
  \<comment> \<open>\<open>Init\<close>: the header and the start of the array\<close>
  "smile_header = [0x3A, 0x29, 0x0A, 0x00, 0xF8]"

definition smile_end :: "byte list" where
  "smile_end = [0xF9]"

section \<open>The format\<close>

datatype smile_value = S_Int int | S_Double double | S_String string

definition string_of :: "byte list \<Rightarrow> string" where
  "string_of bs = map (\<lambda>b. char_of (unat b)) bs"

fun get_vint :: "nat \<Rightarrow> byte list \<Rightarrow> (nat \<times> byte list) option" where
  \<comment> \<open>seven bits in each byte, six in the last, which has its high bit set\<close>
  "get_vint acc [] = None"
| "get_vint acc (b # bs) =
     (if unat b < 128 then get_vint (acc * 128 + unat b) bs
      else if unat b < 192 then Some (acc * 64 + (unat b - 128), bs) else None)"

definition unzigzag :: "nat \<Rightarrow> int" where
  "unzigzag i = (if even i then int (i div 2) else - 1 - int (i div 2))"

definition get_double :: "byte list \<Rightarrow> (double \<times> byte list) option" where
  \<comment> \<open>ten bytes of seven bits, the high bits clear\<close>
  "get_double bs =
     (if 10 \<le> length bs \<and> list_all (\<lambda>b. unat b < 128) (take 10 bs)
      then Some (double_of_bits (word_of_nat (foldl (\<lambda>a b. a * 128 + unat b) 0 (take 10 bs))), drop 10 bs)
      else None)"

definition get_value :: "byte list \<Rightarrow> (smile_value \<times> byte list) option" where
  "get_value bs = (case bs of [] \<Rightarrow> None
   | t # r \<Rightarrow>
       if 0xC0 \<le> unat t \<and> unat t < 0xE0 then Some (S_Int (unzigzag (unat t - 0xC0)), r)
       else if unat t = 0x24 then map_option (\<lambda>(i, r'). (S_Int (unzigzag i), r')) (get_vint 0 r)
       else if unat t = 0x29 then map_option (\<lambda>(d, r'). (S_Double d, r')) (get_double r)
       else if unat t = 0x20 then Some (S_String [], r)
       else if 0x40 \<le> unat t \<and> unat t < 0x80
         then let n = unat t - 0x3F in if n \<le> length r then Some (S_String (string_of (take n r)), drop n r) else None
       else if unat t = 0xE0
         then (if 0xFC \<in> set r
               then let s = takeWhile (\<lambda>b. b \<noteq> 0xFC) r in Some (S_String (string_of s), drop (Suc (length s)) r)
               else None)
       else None)"

section \<open>Numbers\<close>

lemma unat_byte: "unat (byte_of n) = n mod 256"
  by (simp add: byte_of_def unat_of_nat)

lemma get_vint_more: "k < 128 \<Longrightarrow> get_vint a (byte_of k # r) = get_vint (a * 128 + k) r"
  by (simp add: unat_byte)

lemma get_vint_last: "k < 64 \<Longrightarrow> get_vint a (byte_of (128 + k) # r) = Some (a * 64 + k, r)"
  by (simp add: unat_byte)

lemma get_value_vint: "get_value (byte_of kByteInt32 # r) = map_option (\<lambda>(i, r'). (S_Int (unzigzag i), r')) (get_vint 0 r)"
  by (simp add: get_value_def kByteInt32_def kTokenInt32_def unat_byte)

lemma split_64: "(i div 64) * 64 + i mod 64 = (i::nat)" and split_128: "(i div 128) * 128 + i mod 128 = (i::nat)"
  by simp_all

declare get_vint.simps [simp del]

lemma get_value_size:
  assumes "n < 2 ^ 19 \<or> 2 ^ 26 \<le> n \<and> n < 2 ^ 33"
  shows "get_value (smile_size n @ r) = Some (S_Int (int n), r)"
proof -
  define i where "i = 2 * n"
  have z: "zigzagEncode n = i" using assms by (auto simp: zigzagEncode_def i_def)
  have un: "unzigzag i = int n" by (simp add: unzigzag_def i_def)
  have bound: "i < 2 ^ 20 \<or> 2 ^ 27 \<le> i \<and> i < 2 ^ 34" using assms by (auto simp: i_def)
  define j where "j = i div 64"
  define k where "k = j div 128"
  define l where "l = k div 128"
  have b0: "i mod 64 < 64" and b1: "j mod 128 < 128" and b2: "k mod 128 < 128" and b3: "l mod 128 < 128" by simp_all
  have top: "j \<le> 127 \<or> k \<le> 127 \<or> \<not> l \<le> 127 \<and> l div 128 < 128"
    using bound by (auto simp: j_def k_def l_def div_mult2_eq [symmetric])
  note enc = smile_size_def z Let_def j_def [symmetric] k_def [symmetric] l_def [symmetric]
  show ?thesis
  proof (cases "i \<le> 0x3F")
    case True
    show ?thesis
    proof (cases "i \<le> 0x1F")
      case True
      then show ?thesis by (simp add: enc get_value_def unat_byte un)
    next
      case False
      then show ?thesis using True get_vint_last [of i 0 r] by (simp add: enc get_value_vint un)
    qed
  next
    case False
    note big = this
    show ?thesis
    proof (cases "j \<le> 0x7F")
      case True
      then have "get_vint 0 (byte_of j # byte_of (128 + i mod 64) # r) = Some (i, r)"
        by (simp add: get_vint_more get_vint_last [OF b0] j_def)
      then show ?thesis using big True by (simp add: enc get_value_vint un)
    next
      case False
      note big2 = this
      show ?thesis
      proof (cases "k \<le> 0x7F")
        case True
        then have "get_vint 0 (byte_of k # byte_of (j mod 128) # byte_of (128 + i mod 64) # r) = Some (i, r)"
          by (simp add: get_vint_more get_vint_last [OF b0] k_def j_def)
        then show ?thesis using big big2 True by (simp add: enc get_value_vint un)
      next
        case False
        then have "\<not> l \<le> 127" "l div 128 < 128" using top big2 by simp_all
        then have "get_vint 0 (byte_of (l div 128) # byte_of (l mod 128) # byte_of (k mod 128) # byte_of (j mod 128) #
            byte_of (128 + i mod 64) # r) = Some (i, r)"
          by (simp add: get_vint_more get_vint_last [OF b0] l_def k_def j_def)
        then show ?thesis using big big2 False \<open>\<not> l \<le> 127\<close> by (simp add: enc get_value_vint un)
      qed
    qed
  qed
qed

lemma smile_size_gap:
  assumes "2 ^ 19 \<le> n" and "n < 2 ^ 26"
  shows "\<exists>b2 b1 b0 b. smile_size n = [byte_of 0, b, b2, b1, b0]"
proof -
  define i where "i = 2 * n"
  have z: "zigzagEncode n = i" using assms by (auto simp: zigzagEncode_def i_def)
  have bound: "2 ^ 20 \<le> i" "i < 2 ^ 27" using assms by (auto simp: i_def)
  then have "\<not> i \<le> 63" "\<not> i div 64 \<le> 127" "\<not> i div 64 div 128 \<le> 127" "i div 64 div 128 div 128 \<le> 127"
    by (simp_all add: div_mult2_eq [symmetric])
  then show ?thesis by (simp add: smile_size_def z Let_def kTokenInt32_def)
qed

lemma get_value_size_gap: "2 ^ 19 \<le> n \<Longrightarrow> n < 2 ^ 26 \<Longrightarrow> get_value (smile_size n @ r) = None"
  using smile_size_gap [of n] by (auto simp: get_value_def unat_byte)

section \<open>Doubles\<close>

lemma group_of_7: "n + 7 \<le> m \<Longrightarrow> l mod 2 ^ m div 2 ^ n mod 128 = (l div 2 ^ n mod 128 :: nat)"
proof -
  assume "n + 7 \<le> m"
  then have "take_bit 7 (drop_bit n (take_bit m l)) = take_bit 7 (drop_bit n l)"
    by (auto intro!: bit_eqI simp: bit_take_bit_iff bit_drop_bit_eq)
  then show ?thesis by (simp add: take_bit_eq_mod drop_bit_eq_div)
qed

lemma digits_128: "foldl (\<lambda>a b. a * 128 + b) a0 [a1 mod 128, a2 mod 128, a3 mod 128, a4 mod 128, a5 mod 128, a6 mod 128,
    a7 mod 128, a8 mod 128, a9 mod (128::nat)] = a9"
  if "a0 = a1 div 128" "a1 = a2 div 128" "a2 = a3 div 128" "a3 = a4 div 128" "a4 = a5 div 128" "a5 = a6 div 128"
    "a6 = a7 div 128" "a7 = a8 div 128" "a8 = a9 div 128"
proof -
  have "a0 * 128 + a1 mod 128 = a1" "a1 * 128 + a2 mod 128 = a2" "a2 * 128 + a3 mod 128 = a3" "a3 * 128 + a4 mod 128 = a4"
    "a4 * 128 + a5 mod 128 = a5" "a5 * 128 + a6 mod 128 = a6" "a6 * 128 + a7 mod 128 = a7" "a7 * 128 + a8 mod 128 = a8"
    "a8 * 128 + a9 mod 128 = a9"
    using that by (metis div_mult_mod_eq)+
  then show ?thesis by simp
qed

definition groups :: "nat \<Rightarrow> nat list" where
  \<comment> \<open>the ten groups as the code computes them\<close>
  "groups l = (let hi5 = l div 2 ^ 35 mod 2 ^ 32; mid = l div 2 ^ 28 mod 2 ^ 32; lo4 = l mod 2 ^ 32 in
    [hi5 div 2 ^ 28, hi5 div 2 ^ 21 mod 128, hi5 div 2 ^ 14 mod 128, hi5 div 2 ^ 7 mod 128, hi5 mod 128, mid mod 128,
     lo4 div 2 ^ 21 mod 128, lo4 div 2 ^ 14 mod 128, lo4 div 2 ^ 7 mod 128, lo4 mod 128])"

lemma groups_eq:
  assumes "l < 2 ^ 64"
  shows "groups l = [l div 2 ^ 63, l div 2 ^ 56 mod 128, l div 2 ^ 49 mod 128, l div 2 ^ 42 mod 128, l div 2 ^ 35 mod 128,
    l div 2 ^ 28 mod 128, l div 2 ^ 21 mod 128, l div 2 ^ 14 mod 128, l div 2 ^ 7 mod 128, l mod 128]"
proof -
  have "l div 2 ^ 35 < 2 ^ 32" using assms by simp
  then have "l div 2 ^ 35 mod 2 ^ 32 = l div 2 ^ 35" by simp
  then show ?thesis
    using group_of_7 [of 0 32 l] group_of_7 [of 7 32 l] group_of_7 [of 14 32 l] group_of_7 [of 21 32 l]
      group_of_7 [of 0 32 "l div 2 ^ 28"]
    by (simp add: groups_def Let_def div_mult2_eq [symmetric])
qed

lemma groups_bound: "l < 2 ^ 64 \<Longrightarrow> list_all (\<lambda>g. g < 128) (groups l)"
  by (simp add: groups_eq)

lemma groups_value: "l < 2 ^ 64 \<Longrightarrow> foldl (\<lambda>a b. a * 128 + b) 0 (groups l) = l"
proof -
  assume l: "l < 2 ^ 64"
  have "foldl (\<lambda>a b. a * 128 + b) 0 (groups l) = foldl (\<lambda>a b. a * 128 + b) (l div 2 ^ 63)
    [l div 2 ^ 56 mod 128, l div 2 ^ 49 mod 128, l div 2 ^ 42 mod 128, l div 2 ^ 35 mod 128,
    l div 2 ^ 28 mod 128, l div 2 ^ 21 mod 128, l div 2 ^ 14 mod 128, l div 2 ^ 7 mod 128, l mod 128]"
    by (simp add: groups_eq [OF l])
  also have "\<dots> = l" by (rule digits_128) (simp_all add: div_mult2_eq [symmetric])
  finally show ?thesis .
qed

lemma smile_double_eq: "smile_double x = byte_of kByteFloat64 # map byte_of (groups (unat (bits_of_double x)))"
  by (simp add: smile_double_def groups_def Let_def)

lemma foldl_bytes: "list_all (\<lambda>g. g < 128) gs \<Longrightarrow>
  foldl (\<lambda>a b. a * 128 + unat b) a (map byte_of gs) = foldl (\<lambda>a b. a * 128 + b) a gs"
  by (induction gs arbitrary: a) (simp_all add: unat_byte)

lemma get_value_double:
  assumes "wf_double x"
  shows "get_value (smile_double x @ r) = Some (S_Double x, r)"
proof -
  let ?l = "unat (bits_of_double x)"
  have l: "?l < 2 ^ 64" using unsigned_less [of "bits_of_double x", where ?'a = nat] by simp
  have len: "length (groups ?l) = 10" by (simp add: groups_def Let_def)
  have "list_all (\<lambda>b. unat b < 128) (map byte_of (groups ?l))"
    using groups_bound [OF l] by (auto simp: list_all_iff unat_byte)
  then have "get_double (map byte_of (groups ?l) @ r) = Some (double_of_bits (word_of_nat ?l), r)"
    using len by (simp add: get_double_def foldl_bytes [OF groups_bound [OF l]] groups_value [OF l])
  then show ?thesis
    using bits_roundtrip [OF assms] by (simp add: smile_double_eq get_value_def kByteFloat64_def unat_byte)
qed

section \<open>Strings\<close>

definition ascii :: "string \<Rightarrow> bool" where
  "ascii s \<longleftrightarrow> list_all (\<lambda>c. of_char c < (128::nat)) s"

lemma string_of_bytes: "string_of (bytes_of s) = s"
  by (induction s) (simp_all add: string_of_def bytes_of_def unat_byte)

lemma get_value_string:
  assumes "ascii s"
  shows "get_value (smile_string s @ r) = Some (S_String s, r)"
proof -
  have no_end: "\<forall>b \<in> set (bytes_of s). b \<noteq> 0xFC"
  proof
    fix b
    assume "b \<in> set (bytes_of s)"
    then have "unat b < 128" using assms by (auto simp: bytes_of_def ascii_def list_all_iff unat_byte)
    then show "b \<noteq> 0xFC" by auto
  qed
  have len: "length (bytes_of s) = length s" by (simp add: bytes_of_def)
  consider "s = []" | "s \<noteq> []" "length s \<le> 64" | "64 < length s" by linarith
  then show ?thesis
  proof cases
    case 1
    then show ?thesis by (simp add: smile_string_def get_value_def)
  next
    case 2
    then have "0 < length s" by simp
    then have "unat (byte_of (0x40 - 1 + length s)) = 0x3F + length s" using 2 by (simp add: unat_byte)
    then show ?thesis using 2 \<open>0 < length s\<close> len by (simp add: Suc_le_eq smile_string_def get_value_def Let_def string_of_bytes)
  next
    case 3
    then have "s \<noteq> []" by auto
    moreover have "takeWhile (\<lambda>b. b \<noteq> 0xFC) (bytes_of s @ 0xFC # r) = bytes_of s"
      using no_end by (simp add: takeWhile_append2)
    ultimately show ?thesis using 3 len by (simp add: smile_string_def get_value_def Let_def string_of_bytes)
  qed
qed

section \<open>Properties\<close>

text \<open>
  C9. What the payload writes is read back: every double, every ASCII string and every number up to
  2^33, one value after the other, except the numbers from 2^19 to below 2^26. For those
  the code writes the subtype instead of the token of an integer, a zero byte that starts no
  Smile value, and the payload cannot be read.
\<close>

theorem smile_values_round_trip:
  shows "(n < 2 ^ 19 \<or> 2 ^ 26 \<le> n \<and> n < 2 ^ 33 \<longrightarrow> get_value (smile_size n @ r) = Some (S_Int (int n), r)) \<and>
    (2 ^ 19 \<le> n \<and> n < 2 ^ 26 \<longrightarrow> hd (smile_size n) = 0 \<and> get_value (smile_size n @ r) = None) \<and>
    (wf_double x \<longrightarrow> get_value (smile_double x @ r) = Some (S_Double x, r)) \<and>
    (ascii s \<longrightarrow> get_value (smile_string s @ r) = Some (S_String s, r))"
  using get_value_size [of n r] get_value_size_gap [of n r] smile_size_gap [of n] get_value_double [of x r]
    get_value_string [of s r]
  by (auto simp: byte_of_def)

theorem smile_values_round_trip_witness:
  "get_value (smile_size 524287 @ [0xF9]) = Some (S_Int 524287, [0xF9]) \<and>
   get_value (smile_size 524288 @ [0xF9]) = None \<and>
   get_value (smile_double (dint 1) @ [0xF9]) = Some (S_Double (dint 1), [0xF9]) \<and>
   get_value (smile_string ''statistic'' @ [0xF9]) = Some (S_String ''statistic'', [0xF9])"
proof -
  have a: "ascii ''statistic''" by code_simp
  show ?thesis
    using smile_values_round_trip [of 524287 "[0xF9]" "dint 1" "''statistic''"]
      smile_values_round_trip [of 524288 "[0xF9]" "dint 1" "''statistic''"] a wf_dint [of 1]
    by simp
qed

end
