(* ===== verification/CompressedBuffer.thy ===== *)
theory CompressedBuffer
  imports Smile
begin

text \<open>
  \<open>spectator/compressed_buffer.h\<close> and \<open>spectator/compressed_buffer.cc\<close>: the buffer that the
  payload is written to, which is compressed chunk by chunk. zlib is a library: its stream and
  \<open>deflate\<close> are parameters, and \<open>zlib_laws\<close> is what its documentation says of them. The loops
  of \<open>compress\<close> are partial functions; that they end is proved from those laws.
\<close>

section \<open>zlib\<close>

record 'z zlib =
  zl_init :: 'z
  zl_deflate :: "'z \<Rightarrow> byte list \<Rightarrow> nat \<Rightarrow> bool \<Rightarrow> 'z \<times> nat \<times> byte list \<times> int"
    \<comment> \<open>stream, available input, room for output, \<open>Z_FINISH\<close>; the stream after it, the
      number of bytes consumed, the output, the result code\<close>
  zl_in :: "'z \<Rightarrow> byte list"   \<comment> \<open>what the stream has consumed and produced so far\<close>
  zl_out :: "'z \<Rightarrow> byte list"
  zl_live :: "'z \<Rightarrow> bool"      \<comment> \<open>the end has not been reported\<close>
  zl_left :: "'z \<Rightarrow> nat \<Rightarrow> nat" \<comment> \<open>a bound on how often \<open>Z_OK\<close> can still be returned\<close>
  zl_inflate :: "byte list \<Rightarrow> byte list option"

definition Z_OK :: int where "Z_OK = 0"
definition Z_STREAM_END :: int where "Z_STREAM_END = 1"

definition zlib_laws :: "'z zlib \<Rightarrow> bool" where
  "zlib_laws Z \<longleftrightarrow>
     zl_in Z (zl_init Z) = [] \<and> zl_out Z (zl_init Z) = [] \<and> zl_live Z (zl_init Z) \<and>
     (\<forall>z input avail finish z' n out err. zl_live Z z \<longrightarrow> 0 < avail \<longrightarrow> input \<noteq> [] \<or> finish \<longrightarrow>
        zl_deflate Z z input avail finish = (z', n, out, err) \<longrightarrow>
          n \<le> length input \<and> length out \<le> avail \<and>
          zl_in Z z' = zl_in Z z @ take n input \<and> zl_out Z z' = zl_out Z z @ out \<and>
          (err = Z_OK \<and> zl_live Z z' \<and> zl_left Z z' (length input - n) < zl_left Z z (length input) \<or>
           err = Z_STREAM_END \<and> finish \<and> n = length input \<and> zl_inflate Z (zl_out Z z') = Some (zl_in Z z')))"

section \<open>The buffer\<close>

record 'z zbuf =
  zb_init :: bool
  zb_cur :: "byte list"
  zb_chunk_in :: nat
  zb_dest :: "byte list"   \<comment> \<open>the first \<open>dest_index_\<close> bytes of \<open>dest_\<close>\<close>
  zb_dest_size :: nat
  zb_chunk_out :: nat
  zb_stream :: 'z

definition kDefaultChunkSizeInput :: nat where "kDefaultChunkSizeInput = 256 * 1024"
definition kDefaultOutSize :: nat where "kDefaultOutSize = 256 * 1024"
definition kDefaultChunkSizeOutput :: nat where "kDefaultChunkSizeOutput = 32 * 1024"

definition new_zbuf :: "'z zlib \<Rightarrow> nat \<Rightarrow> nat \<Rightarrow> nat \<Rightarrow> 'z zbuf" where
  "new_zbuf Z chunk_in out_size chunk_out = \<lparr>zb_init = False, zb_cur = [], zb_chunk_in = chunk_in, zb_dest = [],
     zb_dest_size = out_size, zb_chunk_out = chunk_out, zb_stream = zl_init Z\<rparr>"

definition zbuf_init :: "'z zlib \<Rightarrow> 'z zbuf \<Rightarrow> 'z zbuf" where
  \<comment> \<open>\<open>Init\<close>; that \<open>deflateInit2\<close> runs out of memory is not modelled\<close>
  "zbuf_init Z b = b\<lparr>zb_cur := [], zb_init := True, zb_dest := [], zb_stream := zl_init Z\<rparr>"

definition deflate_chunk :: "'z zlib \<Rightarrow> nat \<Rightarrow> bool \<Rightarrow> byte list \<Rightarrow> 'z zbuf \<Rightarrow> 'z zbuf \<times> byte list \<times> int" where
  \<comment> \<open>also returns the input that is left (\<open>avail_in\<close>)\<close>
  "deflate_chunk Z chunk_size finish input b =
     (let room = zb_dest_size b - length (zb_dest b);
          (size, avail) = (if room < chunk_size div 2 then (zb_dest_size b + chunk_size, room + chunk_size)
                           else (zb_dest_size b, room));
          (z, n, out, err) = zl_deflate Z (zb_stream b) input avail finish
      in (b\<lparr>zb_dest_size := size, zb_stream := z, zb_dest := zb_dest b @ out\<rparr>, drop n input, err))"

partial_function (option) compress_input :: "'z zlib \<Rightarrow> bool \<Rightarrow> byte list \<Rightarrow> int \<Rightarrow> 'z zbuf \<Rightarrow> ('z zbuf \<times> byte list \<times> int) option" where
  "compress_input Z finish input err b =
     (if input \<noteq> [] \<and> err = Z_OK
      then (let (b1, input1, err1) = deflate_chunk Z (zb_chunk_out b) finish input b
            in compress_input Z finish input1 err1 b1)
      else Some (b, input, err))"

partial_function (option) compress_finish :: "'z zlib \<Rightarrow> int \<Rightarrow> 'z zbuf \<Rightarrow> 'z zbuf option" where
  "compress_finish Z err b =
     (if err = Z_OK
      then (let (b1, input1, err1) = deflate_chunk Z (zb_chunk_out b) True [] b in compress_finish Z err1 b1)
      else Some b)"

definition compress :: "'z zlib \<Rightarrow> bool \<Rightarrow> 'z zbuf \<Rightarrow> 'z zbuf option" where
  \<comment> \<open>\<open>None\<close>: the assertion that all input is consumed fails, or a loop does not end\<close>
  "compress Z finish b = (case compress_input Z finish (zb_cur b) Z_OK b of
     None \<Rightarrow> None
   | Some (b1, input, err) \<Rightarrow>
       if input \<noteq> [] then None else if finish then compress_finish Z err b1 else Some b1)"

definition maybe_compress :: "'z zlib \<Rightarrow> 'z zbuf \<Rightarrow> 'z zbuf option" where
  "maybe_compress Z b = (if zb_chunk_in b < length (zb_cur b)
     then map_option (\<lambda>b1. b1\<lparr>zb_cur := []\<rparr>) (compress Z False b) else Some b)"

definition append_impl :: "byte list \<Rightarrow> 'z zbuf \<Rightarrow> 'z zbuf" where
  \<comment> \<open>\<open>AppendImpl\<close>, for the bytes of a string as for single bytes\<close>
  "append_impl bs b = b\<lparr>zb_cur := zb_cur b @ bs\<rparr>"

definition zbuf_append :: "'z zlib \<Rightarrow> byte list \<Rightarrow> 'z zbuf \<Rightarrow> 'z zbuf option" where
  "zbuf_append Z bs b = (if zb_init b then maybe_compress Z (append_impl bs b) else None)"

definition zbuf_result :: "'z zlib \<Rightarrow> 'z zbuf \<Rightarrow> (byte list \<times> 'z zbuf) option" where
  "zbuf_result Z b =
     (if zb_init b then map_option (\<lambda>b1. (zb_dest b1, b1)) (compress Z True (b\<lparr>zb_init := False\<rparr>))
      else Some (zb_dest b, b))"

section \<open>The interface of a sink of bytes\<close>

text \<open>
  What a payload relies on: writing never fails between \<open>Init\<close> and \<open>Result\<close>, and the result
  is made of all bytes written, in order.
\<close>

locale byte_sink =
  fixes put :: "byte list \<Rightarrow> 's \<Rightarrow> 's option"
    and contents :: "'s \<Rightarrow> byte list"
    and ok :: "'s \<Rightarrow> bool"
    and finished :: "'s \<Rightarrow> byte list option"
    and unpack :: "byte list \<Rightarrow> byte list option"
  assumes put_ok: "ok s \<Longrightarrow> \<exists>s'. put bs s = Some s' \<and> ok s' \<and> contents s' = contents s @ bs"
    and finished_ok: "ok s \<Longrightarrow> \<exists>r. finished s = Some r \<and> unpack r = Some (contents s)"
begin

primrec put_all :: "byte list list \<Rightarrow> 's \<Rightarrow> 's option" where
  "put_all [] s = Some s"
| "put_all (bs # bss) s = (case put bs s of None \<Rightarrow> None | Some s' \<Rightarrow> put_all bss s')"

lemma put_all_contents: "ok s \<Longrightarrow> \<exists>s'. put_all bss s = Some s' \<and> ok s' \<and> contents s' = contents s @ concat bss"
proof (induction bss arbitrary: s)
  case Nil
  then show ?case by simp
next
  case (Cons bs bss)
  obtain s1 where s1: "put bs s = Some s1" "ok s1" "contents s1 = contents s @ bs" using put_ok [OF Cons.prems] by blast
  then show ?case using Cons.IH [OF s1(2)] by auto
qed

lemma all_is_unpacked:
  "ok s \<Longrightarrow> \<exists>s' r. put_all bss s = Some s' \<and> finished s' = Some r \<and> unpack r = Some (contents s @ concat bss)"
  using put_all_contents [of s bss] finished_ok by metis

end

section \<open>The compressed buffer provides it\<close>

definition zbuf_inv :: "'z zlib \<Rightarrow> 'z zbuf \<Rightarrow> bool" where
  "zbuf_inv Z b \<longleftrightarrow> zlib_laws Z \<and> zl_live Z (zb_stream b) \<and> zb_dest b = zl_out Z (zb_stream b) \<and>
     length (zl_out Z (zb_stream b)) \<le> zb_dest_size b \<and> 2 \<le> zb_chunk_out b"

definition zbuf_contents :: "'z zlib \<Rightarrow> 'z zbuf \<Rightarrow> byte list" where
  "zbuf_contents Z b = zl_in Z (zb_stream b) @ zb_cur b"

lemma deflate_chunk_step:
  assumes "zbuf_inv Z b" and "input \<noteq> [] \<or> finish"
    and "deflate_chunk Z (zb_chunk_out b) finish input b = (b1, input1, err1)"
  shows "zl_in Z (zb_stream b1) @ input1 = zl_in Z (zb_stream b) @ input \<and>
    zb_dest b1 = zl_out Z (zb_stream b1) \<and> zb_chunk_out b1 = zb_chunk_out b \<and> zb_chunk_in b1 = zb_chunk_in b \<and>
    zb_init b1 = zb_init b \<and> zb_cur b1 = zb_cur b \<and> length (zb_dest b1) \<le> zb_dest_size b1 \<and>
    (err1 = Z_OK \<and> zbuf_inv Z b1 \<and> zl_left Z (zb_stream b1) (length input1) < zl_left Z (zb_stream b) (length input) \<or>
     err1 = Z_STREAM_END \<and> finish \<and> input1 = [] \<and> zl_inflate Z (zb_dest b1) = Some (zl_in Z (zb_stream b1)))"
proof -
  have laws: "zlib_laws Z" and live: "zl_live Z (zb_stream b)" and out: "zb_dest b = zl_out Z (zb_stream b)"
    and fits: "length (zb_dest b) \<le> zb_dest_size b" and chunk: "2 \<le> zb_chunk_out b"
    using assms(1) by (simp_all add: zbuf_inv_def)
  let ?room = "zb_dest_size b - length (zb_dest b)" and ?c = "zb_chunk_out b"
  define grow where "grow \<longleftrightarrow> ?room < ?c div 2"
  define avail where "avail = (if grow then ?room + ?c else ?room)"
  define size where "size = (if grow then zb_dest_size b + ?c else zb_dest_size b)"
  have pos: "0 < avail" and total: "length (zb_dest b) + avail = size"
    using chunk fits by (auto simp: avail_def size_def grow_def)
  obtain z n os err where d: "zl_deflate Z (zb_stream b) input avail finish = (z, n, os, err)" by (metis prod_cases4)
  have b1: "b1 = b\<lparr>zb_dest_size := size, zb_stream := z, zb_dest := zb_dest b @ os\<rparr>" "input1 = drop n input" "err1 = err"
    using assms(3) d by (simp_all add: deflate_chunk_def Let_def avail_def size_def grow_def split: if_splits)
  have law: "n \<le> length input \<and> length os \<le> avail \<and> zl_in Z z = zl_in Z (zb_stream b) @ take n input \<and>
      zl_out Z z = zl_out Z (zb_stream b) @ os \<and>
      (err = Z_OK \<and> zl_live Z z \<and> zl_left Z z (length input - n) < zl_left Z (zb_stream b) (length input) \<or>
       err = Z_STREAM_END \<and> finish \<and> n = length input \<and> zl_inflate Z (zl_out Z z) = Some (zl_in Z z))"
    using laws live pos assms(2) d unfolding zlib_laws_def by blast
  have "length (zb_dest b @ os) \<le> size" using law total by simp
  then show ?thesis using law laws out chunk by (auto simp: b1 zbuf_inv_def)
qed

lemma loops_end [simp]: "compress_input Z finish [] err b = Some (b, [], err)" "compress_finish Z Z_STREAM_END b = Some b"
  by (subst compress_input.simps, simp) (subst compress_finish.simps, simp add: Z_OK_def Z_STREAM_END_def)

lemma compress_input_total:
  assumes "zbuf_inv Z b"
  shows "\<exists>b1 err. compress_input Z finish input Z_OK b = Some (b1, [], err) \<and>
    zl_in Z (zb_stream b1) = zl_in Z (zb_stream b) @ input \<and> zb_init b1 = zb_init b \<and> zb_chunk_in b1 = zb_chunk_in b \<and>
    (err = Z_OK \<and> zbuf_inv Z b1 \<or>
     finish \<and> err = Z_STREAM_END \<and> zl_inflate Z (zb_dest b1) = Some (zl_in Z (zb_stream b1)))"
  using assms
proof (induction "zl_left Z (zb_stream b) (length input)" arbitrary: b input rule: less_induct)
  case less
  show ?case
  proof (cases "input = []")
    case True
    then show ?thesis using less.prems by simp
  next
    case False
    obtain b1 input1 err1 where d: "deflate_chunk Z (zb_chunk_out b) finish input b = (b1, input1, err1)" by (metis prod_cases3)
    note step = deflate_chunk_step [OF less.prems disjI1 [OF False] d]
    have run: "compress_input Z finish input Z_OK b = compress_input Z finish input1 err1 b1"
      using False d by (simp add: compress_input.simps [of Z finish input])
    show ?thesis
    proof (cases "err1 = Z_OK")
      case True
      with step have "zbuf_inv Z b1" "zl_left Z (zb_stream b1) (length input1) < zl_left Z (zb_stream b) (length input)"
        by (auto simp: Z_OK_def Z_STREAM_END_def)
      from less.hyps [OF this(2,1)] step show ?thesis unfolding run True by metis
    next
      case False
      with step have "input1 = []" "finish" "err1 = Z_STREAM_END" "zl_inflate Z (zb_dest b1) = Some (zl_in Z (zb_stream b1))"
        by auto
      then show ?thesis using step unfolding run by simp
    qed
  qed
qed

lemma compress_finish_total:
  assumes "zbuf_inv Z b"
  shows "\<exists>b1. compress_finish Z Z_OK b = Some b1 \<and> zl_in Z (zb_stream b1) = zl_in Z (zb_stream b) \<and>
    zl_inflate Z (zb_dest b1) = Some (zl_in Z (zb_stream b1))"
  using assms
proof (induction "zl_left Z (zb_stream b) 0" arbitrary: b rule: less_induct)
  case less
  obtain b1 input1 err1 where d: "deflate_chunk Z (zb_chunk_out b) True [] b = (b1, input1, err1)" by (metis prod_cases3)
  note step = deflate_chunk_step [OF less.prems disjI2 [OF TrueI] d]
  have input1: "input1 = []" using d by (auto simp: deflate_chunk_def Let_def split_beta)
  have run: "compress_finish Z Z_OK b = compress_finish Z err1 b1"
    using d by (simp add: compress_finish.simps [of Z Z_OK b])
  show ?case
  proof (cases "err1 = Z_OK")
    case True
    with step input1 have "zbuf_inv Z b1" "zl_left Z (zb_stream b1) 0 < zl_left Z (zb_stream b) 0"
      by (auto simp: Z_OK_def Z_STREAM_END_def)
    from less.hyps [OF this(2,1)] step input1 show ?thesis unfolding run True by simp
  next
    case False
    then have "err1 = Z_STREAM_END" using step by auto
    then show ?thesis using step input1 False unfolding run by auto
  qed
qed

lemma zbuf_append_ok:
  assumes "zbuf_inv Z b" and "zb_init b"
  shows "\<exists>b'. zbuf_append Z bs b = Some b' \<and> zbuf_inv Z b' \<and> zb_init b' \<and> zbuf_contents Z b' = zbuf_contents Z b @ bs"
proof (cases "zb_chunk_in b < length (zb_cur b @ bs)")
  case False
  then show ?thesis using assms by (simp add: zbuf_append_def append_impl_def maybe_compress_def zbuf_contents_def zbuf_inv_def)
next
  case True
  let ?b = "b\<lparr>zb_cur := zb_cur b @ bs\<rparr>"
  have "zbuf_inv Z ?b" using assms(1) by (simp add: zbuf_inv_def)
  from compress_input_total [OF this, of False "zb_cur ?b"] obtain b1 err where b1:
    "compress_input Z False (zb_cur ?b) Z_OK ?b = Some (b1, [], err)" "zbuf_inv Z b1"
    "zl_in Z (zb_stream b1) = zl_in Z (zb_stream b) @ zb_cur b @ bs" "zb_init b1"
    using assms(2) by auto
  have "zbuf_inv Z (b1\<lparr>zb_cur := []\<rparr>)" using b1(2) by (simp add: zbuf_inv_def)
  then show ?thesis
    using True b1 assms(2) by (simp add: zbuf_append_def append_impl_def maybe_compress_def compress_def zbuf_contents_def)
qed

lemma zbuf_result_ok:
  assumes "zbuf_inv Z b" and "zb_init b"
  shows "\<exists>r b'. zbuf_result Z b = Some (r, b') \<and> zl_inflate Z r = Some (zbuf_contents Z b)"
proof -
  let ?b = "b\<lparr>zb_init := False\<rparr>"
  have "zbuf_inv Z ?b" using assms(1) by (simp add: zbuf_inv_def)
  from compress_input_total [OF this, of True "zb_cur ?b"] obtain b1 err where b1:
    "compress_input Z True (zb_cur ?b) Z_OK ?b = Some (b1, [], err)"
    "zl_in Z (zb_stream b1) = zbuf_contents Z b"
    "err = Z_OK \<and> zbuf_inv Z b1 \<or> err = Z_STREAM_END \<and> zl_inflate Z (zb_dest b1) = Some (zl_in Z (zb_stream b1))"
    by (auto simp: zbuf_contents_def)
  from b1(3) show ?thesis
  proof
    assume "err = Z_OK \<and> zbuf_inv Z b1"
    with compress_finish_total [of Z b1] b1 assms(2) show ?thesis by (auto simp: zbuf_result_def compress_def)
  next
    assume "err = Z_STREAM_END \<and> zl_inflate Z (zb_dest b1) = Some (zl_in Z (zb_stream b1))"
    with b1 assms(2) show ?thesis
      by (auto simp: zbuf_result_def compress_def)
  qed
qed

interpretation zbuf: byte_sink "zbuf_append Z" "zbuf_contents Z" "\<lambda>b. zbuf_inv Z b \<and> zb_init b"
  "\<lambda>b. map_option fst (zbuf_result Z b)" "zl_inflate Z" for Z
proof unfold_locales
  fix b bs
  show "zbuf_inv Z b \<and> zb_init b \<Longrightarrow>
      \<exists>b'. zbuf_append Z bs b = Some b' \<and> (zbuf_inv Z b' \<and> zb_init b') \<and> zbuf_contents Z b' = zbuf_contents Z b @ bs"
    using zbuf_append_ok [of Z b bs] by blast
  show "zbuf_inv Z b \<and> zb_init b \<Longrightarrow>
      \<exists>r. map_option fst (zbuf_result Z b) = Some r \<and> zl_inflate Z r = Some (zbuf_contents Z b)"
    using zbuf_result_ok [of Z b] by auto
qed

primrec zbuf_write :: "'z zlib \<Rightarrow> byte list list \<Rightarrow> 'z zbuf \<Rightarrow> 'z zbuf option" where
  \<comment> \<open>a sequence of calls of \<open>Append\<close>\<close>
  "zbuf_write Z [] b = Some b"
| "zbuf_write Z (bs # bss) b = (case zbuf_append Z bs b of None \<Rightarrow> None | Some b' \<Rightarrow> zbuf_write Z bss b')"

lemma zbuf_write_eq: "zbuf_write Z bss b = zbuf.put_all Z bss b"
  by (induction bss arbitrary: b) (simp_all split: option.split)

lemma zlib_start:
  assumes "zlib_laws Z"
  shows "zl_in Z (zl_init Z) = []" "zl_out Z (zl_init Z) = []" "zl_live Z (zl_init Z)"
  using assms unfolding zlib_laws_def by blast+

lemma zbuf_inv_init:
  assumes "zlib_laws Z" and "2 \<le> zb_chunk_out b"
  shows "zbuf_inv Z (zbuf_init Z b) \<and> zb_init (zbuf_init Z b) \<and> zbuf_contents Z (zbuf_init Z b) = []"
  using assms zlib_start [OF assms(1)] by (simp add: zbuf_inv_def zbuf_init_def zbuf_contents_def)

section \<open>Properties\<close>

fun stored_deflate :: "byte list \<times> bool \<Rightarrow> byte list \<Rightarrow> nat \<Rightarrow> bool \<Rightarrow> (byte list \<times> bool) \<times> nat \<times> byte list \<times> int" where
  "stored_deflate (d, live) input avail finish =
     (let n = min avail (length input); end = (finish \<and> n = length input)
      in ((d @ take n input, \<not> end), n, take n input, if end then Z_STREAM_END else Z_OK))"

definition stored :: "(byte list \<times> bool) zlib" where
  \<comment> \<open>a compressor without compression\<close>
  "stored = \<lparr>zl_init = ([], True), zl_deflate = stored_deflate, zl_in = fst, zl_out = fst, zl_live = snd,
     zl_left = (\<lambda>z k. k), zl_inflate = Some\<rparr>"

lemma stored_laws: "zlib_laws stored"
  by (auto simp: zlib_laws_def stored_def Let_def Z_OK_def Z_STREAM_END_def min_def split: if_splits)

text \<open>
  C8. The compressed payload is what was written: after \<open>Init\<close>, writing any pieces of any size
  and asking for the result ends, no assertion fails, and the result decompresses to all pieces in order, none
  lost or repeated, whatever the sizes of the chunks (an output chunk of at least two bytes) and
  whatever the buffer held before.
\<close>

theorem payload_is_what_was_written:
  assumes "zlib_laws Z" and "2 \<le> zb_chunk_out b"
  shows "\<exists>b' r b2. zbuf_write Z bss (zbuf_init Z b) = Some b' \<and> zbuf_result Z b' = Some (r, b2) \<and>
    zl_inflate Z r = Some (concat bss)"
  using zbuf.all_is_unpacked [of Z "zbuf_init Z b" bss] zbuf_inv_init [OF assms] by (auto simp: zbuf_write_eq)

theorem payload_is_what_was_written_witness:
  "\<exists>b' r b2. zbuf_write stored [[1, 2], [3]] (zbuf_init stored (new_zbuf stored 1 0 2)) = Some b' \<and>
    zbuf_result stored b' = Some (r, b2) \<and> zl_inflate stored r = Some [1, 2, 3]"
  using payload_is_what_was_written [OF stored_laws, of "new_zbuf stored 1 0 2" "[[1, 2], [3]]"]
  by (simp add: new_zbuf_def)

end
