(* ===== verification/Publisher.thy ===== *)
theory Publisher
  imports HttpClient CompressedBuffer "HOL-Library.Multiset"
begin

text \<open>
  \<open>spectator/publisher.h\<close>: how a poll of the registry is cut into batches, how a batch becomes a payload (a
  table of strings, then the measurements as indices into it), how the senders share the
  payload buffers, and how the answers of the aggregator are accounted for. The hash map of the strings
  and the JSON parser are libraries: the order in which the map is iterated and the parser
  are parameters.
\<close>

section \<open>The publisher\<close>

record publisher =
  pb_common_tags :: tag_list
  pb_sent :: nat            \<comment> \<open>handles of counters\<close>
  pb_invalid :: nat
  pb_dropped_http :: nat
  pb_dropped_other :: nat
  pb_last_success :: int

definition publisher_counter :: "int \<Rightarrow> (string \<times> string) list \<Rightarrow> 'd registry \<Rightarrow> nat \<times> 'd registry" where
  "publisher_counter now tags R = get_counter now
     (id_of ''spectator.measurements'' (intern_tags (tags @ [(''nf.process'', cf_process_name (rg_config R))]))) R"

definition new_publisher :: "int \<Rightarrow> 'd registry \<Rightarrow> publisher \<times> 'd registry" where
  \<comment> \<open>the common tags are copied here, once\<close>
  "new_publisher now R =
     (let (s, R1) = publisher_counter now [(''id'', ''sent'')] R;
          (i, R2) = publisher_counter now [(''id'', ''dropped''), (''error'', ''validation'')] R1;
          (h, R3) = publisher_counter now [(''id'', ''dropped''), (''error'', ''http-error'')] R2;
          (d, R4) = publisher_counter now [(''id'', ''dropped''), (''error'', ''other'')] R3
      in (\<lparr>pb_common_tags = intern_tags (cf_common_tags (rg_config R4)), pb_sent = s, pb_invalid = i,
           pb_dropped_http = h, pb_dropped_other = d, pb_last_success = now\<rparr>, R4))"

definition construct_registry :: "'d absl_time \<Rightarrow> int \<Rightarrow> 'd config \<Rightarrow> publisher \<times> 'd registry" where
  \<comment> \<open>the whole constructor of the registry: its last member is the publisher, which registers its counters\<close>
  "construct_registry A now cfg = new_publisher now (new_registry A now cfg)"

lemma registry_inv_construct: "registry_inv (snd (construct_registry A now cfg))"
  by (simp add: construct_registry_def new_publisher_def publisher_counter_def Let_def split_beta registry_inv_get
      registry_inv_new wf_id_of)

section \<open>Batches\<close>

partial_function (option) batch_loop :: "int \<Rightarrow> 'a list list \<Rightarrow> 'a list \<Rightarrow> 'a list list option" where
  \<comment> \<open>the loop of \<open>send_metrics\<close>; with a size of 0 it does not end, with a negative size the
    iterator leaves the vector\<close>
  "batch_loop batch_size acc ms =
     (if ms = [] then Some acc
      else let to_advance = min batch_size (int (length ms))
           in if to_advance < 0 then None
              else batch_loop batch_size (acc @ [take (nat to_advance) ms]) (drop (nat to_advance) ms))"

definition batches :: "int \<Rightarrow> 'a list \<Rightarrow> 'a list list option" where
  "batches batch_size ms = batch_loop batch_size [] ms"

definition batch_sizes_ok :: "int \<Rightarrow> 'a list list \<Rightarrow> bool" where
  "batch_sizes_ok n bs \<longleftrightarrow> list_all (\<lambda>b. b \<noteq> [] \<and> int (length b) \<le> n) bs"

lemma div_plus_self: "0 < n \<Longrightarrow> (a + n) div n = 1 + a div (n::int)"
  by simp

lemma batch_loop_spec:
  "0 < n \<Longrightarrow> \<exists>bs. batch_loop n acc ms = Some (acc @ bs) \<and> concat bs = ms \<and> batch_sizes_ok n bs \<and>
    int (length bs) = (int (length ms) + n - 1) div n"
proof (induction "length ms" arbitrary: acc ms rule: less_induct)
  case less
  show ?case
  proof (cases "ms = []")
    case True
    then show ?thesis using less.prems
      by (simp add: batch_loop.simps [of n _ "[]"] batch_sizes_ok_def)
  next
    case False
    define k where "k = nat (min n (int (length ms)))"
    have k: "0 < k" "k \<le> length ms" "int k \<le> n" using False less.prems by (auto simp: k_def)
    have "length (drop k ms) < length ms" using k False by simp
    from less.hyps [OF this less.prems, of "acc @ [take k ms]"] obtain bs where
      bs: "batch_loop n (acc @ [take k ms]) (drop k ms) = Some (acc @ take k ms # bs)" "concat bs = drop k ms"
      "batch_sizes_ok n bs" "int (length bs) = (int (length ms - k) + n - 1) div n"
      by auto
    have run: "batch_loop n acc ms = Some (acc @ take k ms # bs)"
      using False bs(1) less.prems by (simp add: batch_loop.simps [of n _ ms] k_def [symmetric] Let_def)
    have count: "1 + (int (length ms - k) + n - 1) div n = (int (length ms) + n - 1) div n"
    proof (cases "n \<le> int (length ms)")
      case True
      then have e: "int (length ms) + n - 1 = (int (length ms - k) + n - 1) + n"
        using k less.prems by (auto simp: k_def of_nat_diff)
      show ?thesis unfolding e by (rule div_plus_self [OF less.prems, symmetric])
    next
      case False
      then have "k = length ms" by (simp add: k_def)
      moreover have "(int (length ms) + n - 1) div n = 1"
      proof -
        have e: "int (length ms) + n - 1 = (int (length ms) - 1) + n" by simp
        have "0 \<le> int (length ms) - 1" "int (length ms) - 1 < n" using False \<open>ms \<noteq> []\<close> by (auto simp: Suc_le_eq)
        then show ?thesis unfolding e using less.prems by simp
      qed
      ultimately show ?thesis using less.prems by simp
    qed
    have "take k ms \<noteq> []" "int (length (take k ms)) \<le> n" using k False by auto
    then show ?thesis using run bs count by (intro exI [of _ "take k ms # bs"]) (simp add: batch_sizes_ok_def)
  qed
qed

lemma batches_spec:
  "0 < n \<Longrightarrow> \<exists>bs. batches n ms = Some bs \<and> concat bs = ms \<and> batch_sizes_ok n bs \<and>
    int (length bs) = (int (length ms) + n - 1) div n"
  using batch_loop_spec [of n "[]" ms] by (simp add: batches_def)

lemma batch_loop_zero:
  assumes "batch_loop n acc ms = Some bs" and "n \<le> 0"
  shows "ms = []"
proof -
  have "n \<le> 0 \<longrightarrow> ms = []"
    by (rule batch_loop.raw_induct [where P = "\<lambda>n acc ms bs. n \<le> 0 \<longrightarrow> ms = []", OF _ assms(1)])
      (force simp: Let_def split: if_splits)
  with assms(2) show ?thesis by blast
qed

text \<open>
  C36. The loop that cuts a poll into batches ends exactly when there is nothing to cut or the
  size is positive; then the batches are the poll in order, none is empty, none is larger than the size and there are as
  many as the division rounded up.
\<close>

theorem batching_ends_exactly_for_positive_sizes:
  "(batches n ms \<noteq> None \<longleftrightarrow> ms = [] \<or> 0 < n) \<and>
   (\<forall>bs. batches n ms = Some bs \<and> 0 < n \<longrightarrow> concat bs = ms \<and> batch_sizes_ok n bs \<and>
      int (length bs) = (int (length ms) + n - 1) div n)"
proof (cases "0 < n")
  case True
  then show ?thesis using batches_spec [of n ms] by auto
next
  case False
  have "ms = [] \<Longrightarrow> batches n ms = Some []" by (simp add: batches_def batch_loop.simps)
  moreover have "ms \<noteq> [] \<Longrightarrow> batches n ms = None" 
    using False batch_loop_zero [of n "[]" ms] by (cases "batch_loop n [] ms") (auto simp: batches_def)
  ultimately show ?thesis using False by (cases "ms = []") simp_all
qed

theorem batching_ends_exactly_for_positive_sizes_witness:
  "(\<exists>bs. batches 2 [1, 2, 3 :: int] = Some bs \<and> length bs = 2) \<and> batches 0 [1 :: int] = None"
  using batching_ends_exactly_for_positive_sizes [of 2 "[1, 2, 3 :: int]"]
    batching_ends_exactly_for_positive_sizes [of 0 "[1 :: int]"] by auto

section \<open>The payload\<close>

type_synonym str_table = "(string \<times> nat) list"

definition payload_strings :: "tag_list \<Rightarrow> measurement list \<Rightarrow> string list" where
  \<comment> \<open>every string, in the order of insertion\<close>
  "payload_strings common ms =
     concat (map (\<lambda>t. [fst t, snd t]) common) @ [r_name] @
     concat (map (\<lambda>m. id_name (m_id m) # concat (map (\<lambda>t. [fst t, snd t]) (id_tags (m_id m)))) ms)"

definition str_table :: "(string list \<Rightarrow> string list) \<Rightarrow> tag_list \<Rightarrow> measurement list \<Rightarrow> str_table" where
  \<comment> \<open>\<open>iter\<close> is the order in which the map iterates over its keys, given their insertions\<close>
  "str_table iter common ms = (let keys = iter (payload_strings common ms) in zip keys [0..<length keys])"

definition iter_laws :: "(string list \<Rightarrow> string list) \<Rightarrow> bool" where
  \<comment> \<open>documented: iteration visits every key once\<close>
  "iter_laws iter \<longleftrightarrow> (\<forall>ss. distinct (iter ss) \<and> set (iter ss) = set ss)"

definition table_bytes :: "str_table \<Rightarrow> byte list" where
  "table_bytes tab = smile_size (length tab) @ concat (map (\<lambda>e. smile_string (fst e)) tab)"

datatype op = Op_Add | Op_Max

definition op_num :: "op \<Rightarrow> int" where
  "op_num x = (case x of Op_Add \<Rightarrow> 0 | Op_Max \<Rightarrow> 10)"

definition op_from_tags :: "tag_list \<Rightarrow> op" where
  "op_from_tags tags = (let stat = tag_at tags r_statistic
     in if stat = Some r_count \<or> stat = Some r_totalAmount \<or> stat = Some r_totalTime \<or>
           stat = Some r_totalOfSquares \<or> stat = Some r_percentile
        then Op_Add else Op_Max)"

definition index_of :: "str_table \<Rightarrow> string \<Rightarrow> int option" where
  \<comment> \<open>\<open>None\<close>: the assertion that the string is in the table fails\<close>
  "index_of tab s = map_option int (map_of tab s)"

primrec tag_indices :: "str_table \<Rightarrow> tag_list \<Rightarrow> int list option" where
  \<comment> \<open>\<open>get_common_ids\<close>, and the indices that \<open>add_tags\<close> writes\<close>
  "tag_indices tab [] = Some []"
| "tag_indices tab (t # ts) = (case (index_of tab (fst t), index_of tab (snd t), tag_indices tab ts) of
     (Some k, Some v, Some is) \<Rightarrow> Some (k # v # is) | _ \<Rightarrow> None)"

primrec ints_bytes :: "int list \<Rightarrow> byte list option" where
  "ints_bytes [] = Some []"
| "ints_bytes (i # is) = (case (smile_int i, ints_bytes is) of (Some b, Some bs) \<Rightarrow> Some (b @ bs) | _ \<Rightarrow> None)"

definition measurement_bytes :: "str_table \<Rightarrow> int list \<Rightarrow> measurement \<Rightarrow> byte list option" where
  \<comment> \<open>\<open>append_measurement\<close>\<close>
  "measurement_bytes tab common_ids m =
     (let tags = id_tags (m_id m); total_tags = length tags + 1 + length common_ids div 2
      in case (ints_bytes common_ids, tag_indices tab tags, index_of tab r_name, index_of tab (id_name (m_id m)),
               smile_int (op_num (op_from_tags tags))) of
           (Some cb, Some is, Some ni, Some vi, Some ob) \<Rightarrow>
             (case (ints_bytes is, smile_int ni, smile_int vi) of
                (Some tb, Some nb, Some vb) \<Rightarrow>
                  Some (smile_size total_tags @ cb @ tb @ nb @ vb @ ob @ smile_double (m_value m))
              | _ \<Rightarrow> None)
         | _ \<Rightarrow> None)"

primrec measurements_bytes :: "str_table \<Rightarrow> int list \<Rightarrow> measurement list \<Rightarrow> byte list option" where
  "measurements_bytes tab common_ids [] = Some []"
| "measurements_bytes tab common_ids (m # ms) =
     (case (measurement_bytes tab common_ids m, measurements_bytes tab common_ids ms) of
        (Some b, Some bs) \<Rightarrow> Some (b @ bs) | _ \<Rightarrow> None)"

definition payload_bytes :: "(string list \<Rightarrow> string list) \<Rightarrow> tag_list \<Rightarrow> measurement list \<Rightarrow> byte list option" where
  \<comment> \<open>\<open>measurements_to_json\<close> and \<open>Result\<close>: the bytes that are written to the buffer\<close>
  "payload_bytes iter common ms =
     (let tab = str_table iter common ms
      in case tag_indices tab common of
           None \<Rightarrow> None
         | Some common_ids \<Rightarrow>
             map_option (\<lambda>bs. smile_header @ table_bytes tab @ bs @ smile_end) (measurements_bytes tab common_ids ms))"

section \<open>Reading a payload\<close>

text \<open>
  The reference: what the aggregator reads. Every measurement is the list of its tags (the common
  tags, its own and its name), the operation and the value.
\<close>

function get_values :: "byte list \<Rightarrow> smile_value list option" where
  \<comment> \<open>values up to the end of the array\<close>
  "get_values bs = (case get_value bs of
     None \<Rightarrow> if bs = smile_end then Some [] else None
   | Some (v, r) \<Rightarrow> if length r < length bs then map_option ((#) v) (get_values r) else None)"
  by pat_completeness auto
termination
  by (relation "measure length") auto

declare get_values.simps [simp del]

definition str_at :: "string list \<Rightarrow> int \<Rightarrow> string option" where
  "str_at tbl i = (if 0 \<le> i \<and> nat i < length tbl then Some (tbl ! nat i) else None)"

fun get_strings :: "nat \<Rightarrow> smile_value list \<Rightarrow> (string list \<times> smile_value list) option" where
  "get_strings 0 vs = Some ([], vs)"
| "get_strings (Suc n) (S_String s # vs) = map_option (\<lambda>(ss, r). (s # ss, r)) (get_strings n vs)"
| "get_strings (Suc n) _ = None"

fun get_tags :: "string list \<Rightarrow> nat \<Rightarrow> smile_value list \<Rightarrow> (tag_list \<times> smile_value list) option" where
  "get_tags tbl 0 vs = Some ([], vs)"
| "get_tags tbl (Suc n) (S_Int k # S_Int v # vs) = (case (str_at tbl k, str_at tbl v) of
     (Some ks, Some vs') \<Rightarrow> map_option (\<lambda>(ts, r). ((ks, vs') # ts, r)) (get_tags tbl n vs)
   | _ \<Rightarrow> None)"
| "get_tags tbl (Suc n) _ = None"

fun get_op :: "int \<Rightarrow> op option" where
  "get_op n = (if n = 0 then Some Op_Add else if n = 10 then Some Op_Max else None)"

function get_measurements :: "string list \<Rightarrow> smile_value list \<Rightarrow> (tag_list \<times> op \<times> double) list option" where
  "get_measurements tbl vs = (case vs of
     [] \<Rightarrow> Some []
   | S_Int n # r \<Rightarrow> (case get_tags tbl (nat n) r of
         Some (ts, S_Int k # S_Double x # r2) \<Rightarrow>
           (if length r2 < length vs then
              case get_op k of None \<Rightarrow> None
              | Some p \<Rightarrow> map_option ((#) (ts, p, x)) (get_measurements tbl r2)
            else None)
       | _ \<Rightarrow> None)
   | _ \<Rightarrow> None)"
  by pat_completeness auto
termination
  by (relation "measure (\<lambda>(tbl, vs). length vs)") auto

declare get_measurements.simps [simp del]

definition read_payload :: "byte list \<Rightarrow> (tag_list \<times> op \<times> double) list option" where
  "read_payload bs =
     (if take 5 bs \<noteq> smile_header then None
      else case get_values (drop 5 bs) of
        Some (S_Int n # vs) \<Rightarrow>
          (case get_strings (nat n) vs of None \<Rightarrow> None | Some (tbl, ms) \<Rightarrow> get_measurements tbl ms)
      | _ \<Rightarrow> None)"

definition published :: "tag_list \<Rightarrow> measurement \<Rightarrow> tag_list \<times> op \<times> double" where
  "published common m =
     (common @ id_tags (m_id m) @ [(r_name, id_name (m_id m))], op_from_tags (id_tags (m_id m)), m_value m)"

section \<open>The payload as a list of values\<close>

primrec encode :: "smile_value \<Rightarrow> byte list" where
  "encode (S_Int n) = smile_size (nat n)"
| "encode (S_Double x) = smile_double x"
| "encode (S_String s) = smile_string s"

primrec fits :: "smile_value \<Rightarrow> bool" where
  "fits (S_Int n) \<longleftrightarrow> 0 \<le> n \<and> n < 2 ^ 19"
| "fits (S_Double x) \<longleftrightarrow> wf_double x"
| "fits (S_String s) \<longleftrightarrow> ascii s"

lemma get_value_encode: "fits v \<Longrightarrow> get_value (encode v @ r) = Some (v, r)"
  using get_value_size [of "nat (case v of S_Int n \<Rightarrow> n | _ \<Rightarrow> 0)" r]
  by (cases v) (simp_all add: get_value_double get_value_string nat_less_iff)

lemma encode_nonempty: "encode v \<noteq> []"
  by (cases v) (simp_all add: smile_size_def Let_def smile_double_def smile_string_def)

lemma get_values_encode: "list_all fits vs \<Longrightarrow> get_values (concat (map encode vs) @ smile_end) = Some vs"
proof (induction vs)
  case Nil
  have "get_value smile_end = None" by (simp add: get_value_def smile_end_def)
  then show ?case by (simp add: get_values.simps [of smile_end])
next
  case (Cons v vs)
  let ?r = "concat (map encode vs) @ smile_end"
  have "get_value (encode v @ ?r) = Some (v, ?r)" using Cons.prems by (intro get_value_encode) simp
  moreover have "length ?r < length (encode v @ ?r)" using encode_nonempty [of v] by simp
  ultimately show ?case using Cons by (simp add: get_values.simps [of "encode v @ ?r"])
qed

primrec index_values :: "(string \<Rightarrow> int) \<Rightarrow> tag_list \<Rightarrow> int list" where
  "index_values f [] = []"
| "index_values f (t # ts) = f (fst t) # f (snd t) # index_values f ts"

lemma index_values_append: "index_values f (a @ b) = index_values f a @ index_values f b"
  by (induction a) simp_all

lemma length_index_values: "length (index_values f ts) = 2 * length ts"
  by (induction ts) simp_all

definition tag_strings :: "tag_list \<Rightarrow> string set" where
  "tag_strings ts = (\<Union>t \<in> set ts. {fst t, snd t})"

lemma tag_strings_simps [simp]:
  "tag_strings [] = {}" "tag_strings (t # ts) = {fst t, snd t} \<union> tag_strings ts"
  "tag_strings (a @ b) = tag_strings a \<union> tag_strings b"
  by (auto simp: tag_strings_def)

lemma tag_indices_values:
  "\<forall>s \<in> tag_strings ts. index_of tab s = Some (f s) \<Longrightarrow> tag_indices tab ts = Some (index_values f ts)"
  by (induction ts) simp_all

lemma ints_bytes_encode:
  "list_all (\<lambda>i. 0 \<le> i) is \<Longrightarrow> ints_bytes is = Some (concat (map (\<lambda>i. encode (S_Int i)) is))"
  by (induction "is") (simp_all add: smile_int_def)

lemma index_values_all: "\<forall>s \<in> tag_strings ts. P (f s) \<Longrightarrow> list_all P (index_values f ts)"
  by (induction ts) simp_all

lemma index_values_nonneg: "\<forall>s \<in> tag_strings ts. 0 \<le> f s \<Longrightarrow> list_all (\<lambda>i. 0 \<le> i) (index_values f ts)"
  by (rule index_values_all)

definition measurement_values :: "(string \<Rightarrow> int) \<Rightarrow> tag_list \<Rightarrow> measurement \<Rightarrow> smile_value list" where
  "measurement_values f common m =
     (let all = common @ id_tags (m_id m) @ [(r_name, id_name (m_id m))]
      in S_Int (int (length all)) # map S_Int (index_values f all) @
         [S_Int (op_num (op_from_tags (id_tags (m_id m)))), S_Double (m_value m)])"

definition table_covers :: "str_table \<Rightarrow> (string \<Rightarrow> int) \<Rightarrow> string set \<Rightarrow> bool" where
  "table_covers tab f ss \<longleftrightarrow> (\<forall>s \<in> ss. index_of tab s = Some (f s) \<and> 0 \<le> f s)"

lemma measurement_bytes_encode:
  assumes "table_covers tab f (tag_strings (common @ id_tags (m_id m) @ [(r_name, id_name (m_id m))]))"
  shows "measurement_bytes tab (index_values f common) m = Some (concat (map encode (measurement_values f common m)))"
proof -
  let ?tags = "id_tags (m_id m)"
  have c: "\<forall>s \<in> tag_strings common. index_of tab s = Some (f s)" "\<forall>s \<in> tag_strings ?tags. index_of tab s = Some (f s)"
    "\<forall>s \<in> tag_strings common. 0 \<le> f s" "\<forall>s \<in> tag_strings ?tags. 0 \<le> f s"
    and n: "index_of tab r_name = Some (f r_name)" "index_of tab (id_name (m_id m)) = Some (f (id_name (m_id m)))"
      "0 \<le> f r_name" "0 \<le> f (id_name (m_id m))"
    using assms by (simp_all add: table_covers_def)
  have o: "smile_int (op_num x) = Some (encode (S_Int (op_num x)))" for x by (cases x) (simp_all add: op_num_def smile_int_def)
  have len: "nat (1 + (int (length common) + int (length ?tags))) = Suc (length ?tags + length common)" by simp
  show ?thesis
    unfolding measurement_bytes_def Let_def tag_indices_values [OF c(2)] ints_bytes_encode [OF index_values_nonneg [OF c(3)]]
      ints_bytes_encode [OF index_values_nonneg [OF c(4)]] n(1,2) o option.case prod.case
    using n(3,4) len
    by (simp add: smile_int_def measurement_values_def index_values_append comp_def Let_def length_index_values)
qed

lemma get_tags_values:
  "\<forall>s \<in> tag_strings ts. str_at tbl (f s) = Some s \<Longrightarrow>
   get_tags tbl (length ts) (map S_Int (index_values f ts) @ r) = Some (ts, r)"
  by (induction ts) simp_all

lemma get_op_num: "get_op (op_num x) = Some x"
  by (cases x) (simp_all add: op_num_def)

lemma get_measurements_values:
  assumes "\<forall>m \<in> set ms. \<forall>s \<in> tag_strings (common @ id_tags (m_id m) @ [(r_name, id_name (m_id m))]). str_at tbl (f s) = Some s"
  shows "get_measurements tbl (concat (map (measurement_values f common) ms)) = Some (map (published common) ms)"
  using assms
proof (induction ms)
  case Nil
  then show ?case by (simp add: get_measurements.simps)
next
  case (Cons m ms)
  let ?all = "common @ id_tags (m_id m) @ [(r_name, id_name (m_id m))]"
  let ?op = "op_from_tags (id_tags (m_id m))"
  let ?r = "concat (map (measurement_values f common) ms)"
  let ?tail = "S_Int (op_num ?op) # S_Double (m_value m) # ?r"
  have t: "get_tags tbl (length ?all) (map S_Int (index_values f ?all) @ ?tail) = Some (?all, ?tail)"
    by (rule get_tags_values) (use Cons.prems in simp)
  have vs: "concat (map (measurement_values f common) (m # ms)) =
      S_Int (int (length ?all)) # map S_Int (index_values f ?all) @ ?tail"
    by (simp add: measurement_values_def Let_def)
  have IH: "get_measurements tbl ?r = Some (map (published common) ms)" using Cons by simp
  have len: "length ?r < length (S_Int (int (length ?all)) # map S_Int (index_values f ?all) @ ?tail)" by simp
  show ?case
    unfolding vs get_measurements.simps [of tbl "S_Int (int (length ?all)) # map S_Int (index_values f ?all) @ ?tail"]
      list.case smile_value.case nat_int t option.case prod.case get_op_num IH
    using len by (simp add: published_def)
qed

lemma measurements_bytes_encode:
  assumes "\<forall>m \<in> set ms. table_covers tab f (tag_strings (common @ id_tags (m_id m) @ [(r_name, id_name (m_id m))]))"
  shows "measurements_bytes tab (index_values f common) ms =
    Some (concat (map encode (concat (map (measurement_values f common) ms))))"
  using assms
proof (induction ms)
  case Nil
  then show ?case by simp
next
  case (Cons m ms)
  then have m: "table_covers tab f (tag_strings (common @ id_tags (m_id m) @ [(r_name, id_name (m_id m))]))"
    and IH: "measurements_bytes tab (index_values f common) ms =
      Some (concat (map encode (concat (map (measurement_values f common) ms))))" by simp_all
  show ?case by (simp add: measurement_bytes_encode [OF m] IH)
qed

lemma payload_strings_tags:
  "set (payload_strings common ms) =
     tag_strings common \<union> {r_name} \<union> (\<Union>m \<in> set ms. insert (id_name (m_id m)) (tag_strings (id_tags (m_id m))))"
  by (auto simp: payload_strings_def tag_strings_def)

definition index_in :: "str_table \<Rightarrow> string \<Rightarrow> int" where
  "index_in tab s = (case index_of tab s of Some i \<Rightarrow> i | None \<Rightarrow> 0)"

lemma table_lookup:
  assumes "s \<in> set ks" and "distinct ks"
  shows "index_of (zip ks [0..<length ks]) s = Some (index_in (zip ks [0..<length ks]) s) \<and>
    0 \<le> index_in (zip ks [0..<length ks]) s \<and> index_in (zip ks [0..<length ks]) s < int (length ks) \<and>
    str_at ks (index_in (zip ks [0..<length ks]) s) = Some s"
proof -
  obtain k where k: "k < length ks" "ks ! k = s" using assms(1) by (auto simp: in_set_conv_nth)
  have "map_of (zip ks [0..<length ks]) (ks ! k) = Some ([0..<length ks] ! k)"
    by (rule map_of_zip_nth) (use assms(2) k in simp_all)
  then have "map_of (zip ks [0..<length ks]) s = Some k" using k by simp
  then show ?thesis using k by (simp add: index_in_def index_of_def str_at_def)
qed

lemma get_strings_values: "get_strings (length ss) (map S_String ss @ r) = Some (ss, r)"
  by (induction ss) simp_all

definition sane :: "string \<Rightarrow> bool" where
  "sane s \<longleftrightarrow> sanitize s = s"

lemma ascii_sane: "sane s \<Longrightarrow> ascii s"
proof -
  have "ascii (map atlas_char t)" for t
    by (auto simp: ascii_def list_all_iff atlas_char_code Let_def)
  from this [of s] show "sane s \<Longrightarrow> ascii s" by (simp add: sane_def sanitize_def)
qed

definition payload_ok :: "(string list \<Rightarrow> string list) \<Rightarrow> tag_list \<Rightarrow> measurement list \<Rightarrow> bool" where
  \<comment> \<open>interned strings, values that are doubles, and the sizes that the number encoding covers\<close>
  "payload_ok iter common ms \<longleftrightarrow>
     length (iter (payload_strings common ms)) < 2 ^ 19 \<and>
     list_all (\<lambda>m. length common + length (id_tags (m_id m)) + 1 < 2 ^ 19 \<and> wf_double (m_value m)) ms \<and>
     list_all sane (payload_strings common ms)"

lemma payload_ok_part:
  assumes "iter_laws iter" and "payload_ok iter common ms" and "set ms' \<subseteq> set ms"
  shows "payload_ok iter common ms'"
proof -
  have sub: "set (payload_strings common ms') \<subseteq> set (payload_strings common ms)"
    using assms(3) by (auto simp: payload_strings_tags)
  have "length (iter ss) = card (set ss)" for ss
    using assms(1) by (simp add: iter_laws_def distinct_card [symmetric])
  then have "length (iter (payload_strings common ms')) \<le> length (iter (payload_strings common ms))"
    using card_mono [OF _ sub] by simp
  then show ?thesis using assms(2,3) sub by (auto simp: payload_ok_def list_all_iff)
qed

lemma payload_read:
  assumes "iter_laws iter" and "payload_ok iter common ms"
  shows "\<exists>bytes. payload_bytes iter common ms = Some bytes \<and> read_payload bytes = Some (map (published common) ms)"
proof -
  let ?ss = "payload_strings common ms"
  define ks where "ks = iter ?ss"
  define tab where "tab = zip ks [0..<length ks]"
  define f where "f = index_in tab"
  have ks: "distinct ks" "set ks = set ?ss" using assms(1) by (simp_all add: iter_laws_def ks_def)
  have look: "index_of tab s = Some (f s)" "0 \<le> f s" "f s < int (length ks)" "str_at ks (f s) = Some s"
    if "s \<in> set ?ss" for s
    using table_lookup [of s ks] that ks by (simp_all add: tab_def f_def)
  have sub: "tag_strings common \<subseteq> set ?ss"
    "\<And>m. m \<in> set ms \<Longrightarrow> tag_strings (common @ id_tags (m_id m) @ [(r_name, id_name (m_id m))]) \<subseteq> set ?ss"
    by (auto simp: payload_strings_tags)
  have cov: "table_covers tab f ss" if "ss \<subseteq> set ?ss" for ss using look that by (auto simp: table_covers_def)
  have common: "tag_indices tab common = Some (index_values f common)"
    by (rule tag_indices_values) (use cov [OF sub(1)] in \<open>simp add: table_covers_def\<close>)
  define mvs where "mvs = concat (map (measurement_values f common) ms)"
  have mb: "measurements_bytes tab (index_values f common) ms = Some (concat (map encode mvs))"
    unfolding mvs_def by (rule measurements_bytes_encode) (use cov sub(2) in blast)
  define vs where "vs = S_Int (int (length ks)) # map S_String ks @ mvs"
  have tb: "table_bytes tab = concat (map encode (S_Int (int (length ks)) # map S_String ks))"
  proof -
    have ks': "map fst tab = ks" and len: "length tab = length ks" by (simp_all add: tab_def)
    have "map (\<lambda>e. smile_string (fst e)) tab = map smile_string (map fst tab)" by simp
    then have e: "map (\<lambda>e. smile_string (fst e)) tab = map smile_string ks" unfolding ks' .
    show ?thesis unfolding table_bytes_def e len by (simp add: comp_def)
  qed
  have "str_table iter common ms = tab" by (simp add: str_table_def tab_def ks_def Let_def)
  then have bytes: "payload_bytes iter common ms = Some (smile_header @ concat (map encode vs) @ smile_end)"
    by (simp add: payload_bytes_def common mb tb vs_def Let_def)
  have small: "length ks < 2 ^ 19" using assms(2) by (simp add: payload_ok_def ks_def)
  have "list_all fits (measurement_values f common m)" if m: "m \<in> set ms" for m
  proof -
    let ?all = "common @ id_tags (m_id m) @ [(r_name, id_name (m_id m))]"
    have "\<forall>s \<in> tag_strings ?all. 0 \<le> f s \<and> f s < 2 ^ 19" 
    proof
      fix s
      assume "s \<in> tag_strings ?all"
      then have "s \<in> set ?ss" using sub(2) [OF m] by blast
      then show "0 \<le> f s \<and> f s < 2 ^ 19" using look(2,3) [of s] small by simp
    qed
    then have "list_all (\<lambda>i. 0 \<le> i \<and> i < 2 ^ 19) (index_values f ?all)" by (rule index_values_all)
    moreover have "int (length ?all) < 2 ^ 19" "wf_double (m_value m)"
      using assms(2) m by (auto simp: payload_ok_def list_all_iff)
    moreover have "0 \<le> op_num x \<and> op_num x < 2 ^ 19" for x by (cases x) (simp_all add: op_num_def)
    ultimately show ?thesis by (simp add: measurement_values_def Let_def list_all_iff)
  qed
  moreover have "list_all ascii ks" using assms(2) ks(2) ascii_sane by (simp add: payload_ok_def list_all_iff)
  ultimately have "list_all fits vs" using small by (auto simp: vs_def mvs_def list_all_iff)
  from get_values_encode [OF this] have vals: "get_values (concat (map encode vs) @ smile_end) = Some vs" .
  have "get_measurements ks mvs = Some (map (published common) ms)"
    unfolding mvs_def by (rule get_measurements_values) (use look(4) sub(2) in blast)
  then have "read_payload (smile_header @ concat (map encode vs) @ smile_end) = Some (map (published common) ms)"
    using vals by (simp add: read_payload_def smile_header_def vs_def get_strings_values)
  with bytes show ?thesis by blast
qed

section \<open>The answers of the aggregator\<close>

record 'j json_lib =
  \<comment> \<open>the JSON library and what the code asks of its values: a value that does not have the type that is asked for
    violates an assertion of the library\<close>
  js_parse :: "string \<Rightarrow> 'j option"
  js_is_object :: "'j \<Rightarrow> bool"
  js_member :: "'j \<Rightarrow> string \<Rightarrow> 'j option"
  js_int :: "'j \<Rightarrow> int option"            \<comment> \<open>\<open>None\<close>: not an \<open>int\<close>\<close>
  js_array :: "'j \<Rightarrow> 'j list option"
  js_string :: "'j \<Rightarrow> string option"

definition error_messages :: "'j json_lib \<Rightarrow> 'j \<Rightarrow> string list option" where
  \<comment> \<open>the loop over \<open>message\<close>\<close>
  "error_messages J body = Option.bind (js_member J body ''message'') (\<lambda>m.
     Option.bind (js_array J m) (\<lambda>messages. those (map (js_string J) messages)))"

record outcome =
  oc_sent :: int              \<comment> \<open>both are \<open>size_t\<close>\<close>
  oc_err :: int
  oc_adds :: "(nat \<times> int) list"   \<comment> \<open>what is added to which counter, in order\<close>
  oc_messages :: "string list"

definition all_lost :: "nat \<Rightarrow> nat \<Rightarrow> outcome" where
  "all_lost handle n = \<lparr>oc_sent = 0, oc_err = int n, oc_adds = [(handle, int n)], oc_messages = []\<rparr>"

definition aggr_outcome :: "'j json_lib \<Rightarrow> publisher \<Rightarrow> http_response \<Rightarrow> nat \<Rightarrow> outcome option" where
  \<comment> \<open>\<open>handle_aggr_response\<close> without the counters; \<open>None\<close>: an assertion of the JSON library is violated\<close>
  "aggr_outcome J P a n =
     (if hr_status a = 200 then
        Some \<lparr>oc_sent = int n, oc_err = 0, oc_adds = [(pb_sent P, int n)], oc_messages = []\<rparr>
      else if 200 < hr_status a \<and> hr_status a < 500 then
        (case js_parse J (hr_body a) of
           None \<Rightarrow> Some (all_lost (pb_dropped_other P) n)
         | Some body \<Rightarrow>
             if \<not> js_is_object J body then None
             else (case js_member J body ''errorCount'' of
                None \<Rightarrow> Some (all_lost (pb_dropped_other P) n)
              | Some ec \<Rightarrow>
                  (case js_int J ec of
                     None \<Rightarrow> None
                   | Some e \<Rightarrow>
                       let sent = u64 (int n - e)
                       in map_option (\<lambda>msgs. \<lparr>oc_sent = sent, oc_err = u64 e,
                            oc_adds = [(pb_invalid P, e), (pb_sent P, sent)], oc_messages = msgs\<rparr>) (error_messages J body))))
      else if hr_status a = - 1 then Some (all_lost (pb_dropped_other P) n)
      else Some (all_lost (pb_dropped_http P) n))"

definition handle_aggr_response ::
  "'j json_lib \<Rightarrow> int \<Rightarrow> publisher \<Rightarrow> http_response \<Rightarrow> nat \<Rightarrow> 'd registry \<Rightarrow> (outcome \<times> 'd registry) option" where
  "handle_aggr_response J now P a n R = map_option (\<lambda>oc. (oc,
     if cf_status_metrics_enabled (rg_config R)
     then fold (\<lambda>(h, k). update_counter h (counter_add now (dint k))) (oc_adds oc) R else R)) (aggr_outcome J P a n)"

section \<open>Sending\<close>

primrec all_payloads :: "(string list \<Rightarrow> string list) \<Rightarrow> tag_list \<Rightarrow> measurement list list \<Rightarrow> byte list list option" where
  "all_payloads iter common [] = Some []"
| "all_payloads iter common (b # bs) = (case (payload_bytes iter common b, all_payloads iter common bs) of
     (Some p, Some ps) \<Rightarrow> Some (p # ps) | _ \<Rightarrow> None)"

primrec post_all :: "('p \<Rightarrow> 's \<Rightarrow> http_response \<times> 's) \<Rightarrow> (nat \<times> 'p) list \<Rightarrow> 's \<Rightarrow> (nat \<times> http_response) list \<times> 's" where
  \<comment> \<open>the tasks of the senders, in the order in which they run; a response is kept with the size
    of its batch\<close>
  "post_all post [] s = ([], s)"
| "post_all post (x # xs) s =
     (let (a, s1) = post (snd x) s; (as, s2) = post_all post xs s1 in ((fst x, a) # as, s2))"

primrec handle_all ::
  "'j json_lib \<Rightarrow> int \<Rightarrow> publisher \<Rightarrow> (nat \<times> http_response) list \<Rightarrow> 'd registry \<Rightarrow> (int \<times> int \<times> 'd registry) option" where
  \<comment> \<open>the loop over the responses; both sums are \<open>unsigned\<close>\<close>
  "handle_all J now P [] R = Some (0, 0, R)"
| "handle_all J now P (x # xs) R = (case handle_aggr_response J now P (snd x) (fst x) R of
     None \<Rightarrow> None
   | Some (oc, R1) \<Rightarrow> (case handle_all J now P xs R1 of
       None \<Rightarrow> None
     | Some (sent, err, R2) \<Rightarrow> Some ((oc_sent oc + sent) mod 2 ^ 32, (oc_err oc + err) mod 2 ^ 32, R2)))"

definition get_http_config :: "'d absl_time \<Rightarrow> 'd config \<Rightarrow> 'd http_config" where
  \<comment> \<open>a timeout of zero is replaced by a default\<close>
  "get_http_config A cfg =
     (let zero = ab_nanos A 0; is_zero = (\<lambda>d. \<not> ab_less A d zero \<and> \<not> ab_less A zero d)
      in \<lparr>hc_connect_timeout = (if is_zero (cf_connect_timeout cfg) then ab_seconds A 2 else cf_connect_timeout cfg),
          hc_read_timeout = (if is_zero (cf_read_timeout cfg) then ab_seconds A 3 else cf_read_timeout cfg),
          hc_compress = True, hc_read_headers = False, hc_read_body = True, hc_verbose_requests = cf_verbose_http cfg,
          hc_status_metrics_enabled = cf_status_metrics_enabled cfg, hc_external_enabled = cf_external_enabled cfg\<rparr>)"

definition publish_post ::
  "'d absl_time \<Rightarrow> ('d \<Rightarrow> 'd \<Rightarrow> 'd) \<Rightarrow> (http_request \<Rightarrow> 'w \<Rightarrow> 'd transfer \<times> 'w) \<Rightarrow> 'z zlib \<Rightarrow> 'd http_config \<Rightarrow>
   byte list \<Rightarrow> 'w \<times> 'd registry \<Rightarrow> http_response \<times> 'w \<times> 'd registry" where
  \<comment> \<open>the task of a sender once the payload is compressed\<close>
  "publish_post A dplus net Z hc payload s = (case s of (w, R) \<Rightarrow>
     let (r, sleeps, w1, R1) = http_post A dplus net hc (cf_uri (rg_config R)) kSmileJson (string_of payload) w R
     in (r, w1, R1))"

definition send_metrics ::
  "(string list \<Rightarrow> string list) \<Rightarrow> 'j json_lib \<Rightarrow> (byte list \<Rightarrow> 'w \<times> 'd registry \<Rightarrow> http_response \<times> 'w \<times> 'd registry) \<Rightarrow>
   ((nat \<times> byte list) list \<Rightarrow> (nat \<times> byte list) list) \<Rightarrow> bool \<Rightarrow> int \<Rightarrow> publisher \<Rightarrow> 'w \<Rightarrow> 'd registry \<Rightarrow>
   (byte list list \<times> publisher \<times> 'w \<times> 'd registry) option" where
  \<comment> \<open>\<open>order\<close> is the order in which the pool runs its tasks; the result holds the payloads in
    that order, the publisher, the world and the registry\<close>
  "send_metrics iter J post order enabled now P w R = (case registry_measurements now R of
     None \<Rightarrow> None
   | Some (R1, ms) \<Rightarrow>
       if \<not> enabled \<or> ms = [] then Some ([], P, w, R1)
       else case batches (cf_batch_size (rg_config R1)) ms of
         None \<Rightarrow> None
       | Some bs \<Rightarrow>
           (case all_payloads iter (pb_common_tags P) bs of
              None \<Rightarrow> None
            | Some ps \<Rightarrow>
                let tasks = order (zip (map length bs) ps);
                    (answers, w1, R2) = post_all post tasks (w, R1);
                    P1 = (if \<exists>a \<in> set answers. hr_status (snd a) div 100 = 2 then P\<lparr>pb_last_success := now\<rparr> else P)
                in (case handle_all J now P answers R2 of
                      None \<Rightarrow> None | Some (sent, err, R3) \<Rightarrow> Some (map snd tasks, P1, w1, R3))))"

lemma all_payloads_read:
  assumes "iter_laws iter" and "payload_ok iter common (concat bs)"
  shows "\<exists>ps. all_payloads iter common bs = Some ps \<and>
    map read_payload ps = map (\<lambda>b. Some (map (published common) b)) bs"
  using assms(2)
proof (induction bs)
  case Nil
  then show ?case by simp
next
  case (Cons b bs)
  have b: "payload_ok iter common b" and r: "payload_ok iter common (concat bs)"
    by (rule payload_ok_part [OF assms(1) Cons.prems]; simp)+
  obtain p where "payload_bytes iter common b = Some p" "read_payload p = Some (map (published common) b)"
    using payload_read [OF assms(1) b] by blast
  moreover obtain ps where "all_payloads iter common bs = Some ps"
    "map read_payload ps = map (\<lambda>b. Some (map (published common) b)) bs" using Cons.IH [OF r] by blast
  ultimately show ?case by simp
qed

section \<open>The answers, as a whole\<close>

definition reply_ok :: "'j json_lib \<Rightarrow> http_response \<Rightarrow> bool" where
  \<comment> \<open>a reply that violates no assertion: a JSON text in it is an object, and a count of errors in it is an \<open>int\<close> that comes
    with an array of messages\<close>
  "reply_ok J a \<longleftrightarrow> (200 < hr_status a \<and> hr_status a < 500 \<longrightarrow> (case js_parse J (hr_body a) of None \<Rightarrow> True | Some body \<Rightarrow>
     js_is_object J body \<and> (case js_member J body ''errorCount'' of None \<Rightarrow> True | Some ec \<Rightarrow>
       js_int J ec \<noteq> None \<and> error_messages J body \<noteq> None)))"

definition replies_ok :: "'j json_lib \<Rightarrow> ('p \<Rightarrow> 's \<Rightarrow> http_response \<times> 's) \<Rightarrow> bool" where
  \<comment> \<open>the aggregator only sends such replies\<close>
  "replies_ok J post \<longleftrightarrow> (\<forall>p s. reply_ok J (fst (post p s)))"

lemma aggr_outcome_defined: "aggr_outcome J P a n \<noteq> None \<longleftrightarrow> reply_ok J a"
  by (auto simp: aggr_outcome_def reply_ok_def Let_def split: option.split)

lemma handle_all_total:
  "list_all (\<lambda>x. reply_ok J (snd x)) xs \<Longrightarrow> handle_all J now P xs R \<noteq> None"
proof (induction xs arbitrary: R)
  case Nil
  then show ?case by simp
next
  case (Cons x xs)
  then obtain oc where "aggr_outcome J P (snd x) (fst x) = Some oc" using aggr_outcome_defined [of J P "snd x" "fst x"] by auto
  then obtain R1 where "handle_aggr_response J now P (snd x) (fst x) R = Some (oc, R1)"
    by (auto simp: handle_aggr_response_def)
  moreover obtain s e R2 where "handle_all J now P xs R1 = Some (s, e, R2)" using Cons.IH [of R1] Cons.prems by auto
  ultimately show ?case by simp
qed

lemma post_all_replies: "replies_ok J post \<Longrightarrow> list_all (\<lambda>x. reply_ok J (snd x)) (fst (post_all post tasks s))"
  by (induction tasks arbitrary: s) (simp_all add: replies_ok_def Let_def split_beta)

lemma handled: "replies_ok J post \<Longrightarrow> handle_all J now P (fst (post_all post tasks s)) R \<noteq> None"
  by (intro handle_all_total post_all_replies)

text \<open>
  C16. How an answer of the aggregator is accounted for. A reply is handled exactly if its body, where it is looked at and
  is JSON, is an object whose count of errors, if there is one, is an \<open>int\<close> that comes with an array of messages. The
  batch then counts as sent as a whole for 200; as dropped as a whole for every status outside 200 to 499, for a body that is
  not JSON or has no count of errors; and otherwise as divided by the count. In all these cases the numbers reported as
  sent and dropped add up to the batch exactly, and so does what is added to the status counters, provided that the
  count is between 0 and the batch. The code does not check that: a count above the batch (or below 0) is still
  trusted, and the number of sent measurements is then off by 2^64 (or above the batch).
\<close>

theorem answers_are_accounted:
  assumes "n < 2 ^ 63"
  shows "(aggr_outcome J P a n \<noteq> None \<longleftrightarrow> reply_ok J a) \<and>
    (\<forall>oc. aggr_outcome J P a n = Some oc \<longrightarrow>
      (let ec = Option.bind (Option.bind (js_parse J (hr_body a)) (\<lambda>body. js_member J body ''errorCount'')) (js_int J);
           divided = (200 < hr_status a \<and> hr_status a < 500 \<and> ec \<noteq> None); e = the ec
       in (\<not> divided \<or> 0 \<le> e \<and> e \<le> int n \<longrightarrow> oc_sent oc + oc_err oc = int n \<and> sum_list (map snd (oc_adds oc)) = int n) \<and>
          (hr_status a = 200 \<longrightarrow> oc_sent oc = int n \<and> oc_adds oc = [(pb_sent P, int n)]) \<and>
          (hr_status a \<noteq> 200 \<and> \<not> divided \<longrightarrow> oc_sent oc = 0 \<and> oc_adds oc =
            [(if hr_status a = - 1 \<or> 200 < hr_status a \<and> hr_status a < 500 then pb_dropped_other P else pb_dropped_http P, int n)]) \<and>
          (divided \<and> - (2 ^ 31) \<le> e \<and> e < 2 ^ 31 \<longrightarrow>
            oc_sent oc = (if e \<le> int n then int n - e else int n - e + 2 ^ 64) \<and>
            oc_adds oc = [(pb_invalid P, e), (pb_sent P, oc_sent oc)])))"
proof (intro conjI allI impI)
  show "aggr_outcome J P a n \<noteq> None \<longleftrightarrow> reply_ok J a" by (rule aggr_outcome_defined)
  fix oc
  assume oc: "aggr_outcome J P a n = Some oc"
  have wrap: "u64 (int n - e) = (if e \<le> int n then int n - e else int n - e + 2 ^ 64)" if "- (2 ^ 31) \<le> e" "e < 2 ^ 31" for e :: int
  proof (cases "e \<le> int n")
    case True
    then show ?thesis using that assms by (simp add: u64_def)
  next
    case False
    have "(int n - e) mod 2 ^ 64 = (int n - e + 2 ^ 64) mod 2 ^ 64" by simp
    also have "\<dots> = int n - e + 2 ^ 64" using False that by (intro mod_pos_pos_trivial) simp_all
    finally show ?thesis using False by (simp add: u64_def)
  qed
  have small: "u64 e = e" "u64 (int n - e) = int n - e" if "0 \<le> e" "e \<le> int n" for e
    using that assms by (simp_all add: u64_def)
  show "let ec = Option.bind (Option.bind (js_parse J (hr_body a)) (\<lambda>body. js_member J body ''errorCount'')) (js_int J);
           divided = (200 < hr_status a \<and> hr_status a < 500 \<and> ec \<noteq> None); e = the ec
       in (\<not> divided \<or> 0 \<le> e \<and> e \<le> int n \<longrightarrow> oc_sent oc + oc_err oc = int n \<and> sum_list (map snd (oc_adds oc)) = int n) \<and>
          (hr_status a = 200 \<longrightarrow> oc_sent oc = int n \<and> oc_adds oc = [(pb_sent P, int n)]) \<and>
          (hr_status a \<noteq> 200 \<and> \<not> divided \<longrightarrow> oc_sent oc = 0 \<and> oc_adds oc =
            [(if hr_status a = - 1 \<or> 200 < hr_status a \<and> hr_status a < 500 then pb_dropped_other P else pb_dropped_http P, int n)]) \<and>
          (divided \<and> - (2 ^ 31) \<le> e \<and> e < 2 ^ 31 \<longrightarrow>
            oc_sent oc = (if e \<le> int n then int n - e else int n - e + 2 ^ 64) \<and>
            oc_adds oc = [(pb_invalid P, e), (pb_sent P, oc_sent oc)])"
  proof (cases "200 < hr_status a \<and> hr_status a < 500")
    case False
    then show ?thesis using oc by (auto simp: aggr_outcome_def all_lost_def Let_def split: if_splits)
  next
    case True
    then have s: "hr_status a \<noteq> 200" "200 < hr_status a" "hr_status a < 500" by simp_all
    show ?thesis
    proof (cases "Option.bind (js_parse J (hr_body a)) (\<lambda>body. js_member J body ''errorCount'')")
      case None
      then show ?thesis
        using oc s by (auto simp: aggr_outcome_def all_lost_def Let_def bind_eq_None_conv split: if_splits option.splits)
    next
      case (Some ec)
      then obtain k msgs where "js_int J ec = Some k" and "oc = \<lparr>oc_sent = u64 (int n - k), oc_err = u64 k,
          oc_adds = [(pb_invalid P, k), (pb_sent P, u64 (int n - k))], oc_messages = msgs\<rparr>"
        using oc s by (auto simp: aggr_outcome_def Let_def bind_eq_Some_conv split: if_splits option.splits)
      then show ?thesis unfolding Some by (simp add: s wrap small)
    qed
  qed
qed

text \<open>An aggregator that rejects five of the measurements it was sent.\<close>

definition five_errors :: "int json_lib" where
  "five_errors = \<lparr>js_parse = (\<lambda>s. Some 0), js_is_object = (\<lambda>v. v = 0),
     js_member = (\<lambda>v k. if v \<noteq> 0 then None else if k = ''errorCount'' then Some 5 else if k = ''message'' then Some 1 else None),
     js_int = (\<lambda>v. Some v), js_array = (\<lambda>v. if v = 1 then Some [2] else None), js_string = (\<lambda>v. Some ''bad tag'')\<rparr>"

lemma five_errors_reply: "reply_ok five_errors a"
  by (simp add: reply_ok_def five_errors_def error_messages_def)

lemma five_errors_replies: "replies_ok five_errors post"
  by (simp add: replies_ok_def five_errors_reply)

theorem answers_are_accounted_witness:
  "\<exists>oc oc'. aggr_outcome five_errors \<lparr>pb_common_tags = [], pb_sent = 1, pb_invalid = 2, pb_dropped_http = 3, pb_dropped_other = 4,
       pb_last_success = 0\<rparr> \<lparr>hr_status = 400, hr_body = [], hr_headers = []\<rparr> 2 = Some oc \<and>
     oc_sent oc = 18446744073709551613 \<and>
     aggr_outcome five_errors \<lparr>pb_common_tags = [], pb_sent = 1, pb_invalid = 2, pb_dropped_http = 3, pb_dropped_other = 4,
       pb_last_success = 0\<rparr> \<lparr>hr_status = 400, hr_body = [], hr_headers = []\<rparr> 7 = Some oc' \<and>
     oc_sent oc' = 2 \<and> oc_sent oc' + oc_err oc' = 7"
proof -
  let ?P = "\<lparr>pb_common_tags = [], pb_sent = 1, pb_invalid = 2, pb_dropped_http = 3, pb_dropped_other = 4, pb_last_success = 0\<rparr>"
  let ?a = "\<lparr>hr_status = 400, hr_body = [], hr_headers = []\<rparr>"
  have n: "(2::nat) < 2 ^ 63" "(7::nat) < 2 ^ 63" by simp_all
  note two = answers_are_accounted [OF n(1), of five_errors ?P ?a] and seven = answers_are_accounted [OF n(2), of five_errors ?P ?a]
  obtain oc where oc: "aggr_outcome five_errors ?P ?a 2 = Some oc" using two five_errors_reply by blast
  obtain oc' where oc': "aggr_outcome five_errors ?P ?a 7 = Some oc'" using seven five_errors_reply by blast
  have "js_parse five_errors s = Some 0" "js_member five_errors 0 ''errorCount'' = Some 5" "js_int five_errors 5 = Some 5" for s
    by (simp_all add: five_errors_def)
  then have "oc_sent oc = 18446744073709551613" "oc_sent oc' = 2" "oc_sent oc' + oc_err oc' = 7"
    using two oc seven oc' by (simp_all add: Let_def)
  with oc oc' show ?thesis by blast
qed

section \<open>A poll, published\<close>

lemma live_reports_wf:
  assumes "mm_inv fit s" and "\<And>x y. fit x \<Longrightarrow> y \<in> set (snd (f x)) \<Longrightarrow> wf_id (m_id y)"
  shows "\<forall>m \<in> set (live_reports expired f s). wf_id (m_id m)"
proof
  fix m
  assume "m \<in> set (live_reports expired f s)"
  then obtain e where e: "e \<in> set (mm_table s)" "m \<in> set (snd (f (mm_objs s ! snd e)))"
    by (auto simp: live_reports_def mm_get_values_def split: if_splits)
  have "fit (mm_objs s ! snd e)" using assms(1) e(1) by (fastforce simp: mm_inv_def)
  then show "wf_id (m_id m)" by (rule assms(2)) (rule e)
qed

lemma age_gauge_report_wf:
  "age_gauge_ok g \<Longrightarrow> m \<in> set (snd (age_gauge_report now g)) \<Longrightarrow> wf_id (m_id m)"
  by (auto simp: age_gauge_report_def age_gauge_measure_def age_gauge_ok_def lazy_cached wf_with_default_stat Let_def
      split: option.splits)

lemma polled_ids_wf:
  assumes "registry_inv R" and "m \<in> set (all_reports now ttl (rg_meters R))"
  shows "wf_id (m_id m)"
proof -
  let ?a = "rg_meters R"
  have inv: "mm_inv age_gauge_ok (am_age_gauges ?a)" "mm_inv counter_ok (am_counters ?a)"
    "mm_inv dist_summary_ok (am_dist_sums ?a)" "mm_inv gauge_ok (am_gauges ?a)" "mm_inv max_gauge_ok (am_max_gauges ?a)"
    "mm_inv mono_ok (am_mono_counters ?a)" "mm_inv mono_uint_ok (am_mono_counters_uint ?a)" "mm_inv timer_ok (am_timers ?a)"
    using assms(1) by (simp_all add: registry_inv_def all_inv_def)
  have "\<forall>m \<in> set (live_reports e (age_gauge_report now) (am_age_gauges ?a)). wf_id (m_id m)" for e
    by (rule live_reports_wf [OF inv(1)]) (simp add: age_gauge_report_wf)
  moreover have "\<forall>m \<in> set (live_reports e (counter_measure) (am_counters ?a)). wf_id (m_id m)" for e
    by (rule live_reports_wf [OF inv(2)]) (simp add: counter.measure_ids)
  moreover have "\<forall>m \<in> set (live_reports e (dist_summary_measure) (am_dist_sums ?a)). wf_id (m_id m)" for e
    by (rule live_reports_wf [OF inv(3)]) (simp add: dist_summary.measure_ids)
  moreover have "\<forall>m \<in> set (live_reports e (gauge_measure now) (am_gauges ?a)). wf_id (m_id m)" for e
    by (rule live_reports_wf [OF inv(4)]) (simp add: gauge.measure_ids)
  moreover have "\<forall>m \<in> set (live_reports e (max_gauge_measure) (am_max_gauges ?a)). wf_id (m_id m)" for e
    by (rule live_reports_wf [OF inv(5)]) (simp add: max_gauge.measure_ids)
  moreover have "\<forall>m \<in> set (live_reports e (mono_measure) (am_mono_counters ?a)). wf_id (m_id m)" for e
    by (rule live_reports_wf [OF inv(6)]) (simp add: mono.measure_ids)
  moreover have "\<forall>m \<in> set (live_reports e (mono_uint_measure) (am_mono_counters_uint ?a)). wf_id (m_id m)" for e
    by (rule live_reports_wf [OF inv(7)]) (simp add: mono_uint.measure_ids)
  moreover have "\<forall>m \<in> set (live_reports e (timer_measure) (am_timers ?a)). wf_id (m_id m)" for e
    by (rule live_reports_wf [OF inv(8)]) (simp add: timer.measure_ids)
  ultimately show ?thesis using assms(2) unfolding all_reports_def set_append by blast
qed

definition tags_sane :: "tag_list \<Rightarrow> bool" where
  "tags_sane ts \<longleftrightarrow> list_all (\<lambda>t. sane (fst t) \<and> sane (snd t)) ts"

lemma intern_tags_sane: "tags_sane (intern_tags kvs)"
proof -
  have "wf_id (id_of [] (intern_tags kvs))" by (rule wf_id_of)
  then show ?thesis by (auto simp: wf_id_def id_of_def tags_sane_def sane_def list_all_iff split_beta)
qed

definition payload_fits :: "(string list \<Rightarrow> string list) \<Rightarrow> tag_list \<Rightarrow> measurement list \<Rightarrow> bool" where
  \<comment> \<open>the sizes that the number encoding covers, values that are doubles\<close>
  "payload_fits iter common ms \<longleftrightarrow> length (iter (payload_strings common ms)) < 2 ^ 19 \<and>
     list_all (\<lambda>m. length common + length (id_tags (m_id m)) + 1 < 2 ^ 19 \<and> wf_double (m_value m)) ms"

lemma polled_payload_ok:
  assumes "registry_inv R" and "tags_sane common" and "payload_fits iter common (all_reports now ttl (rg_meters R))"
  shows "payload_ok iter common (all_reports now ttl (rg_meters R))"
proof -
  have "sane (id_name (m_id m)) \<and> (\<forall>t \<in> set (id_tags (m_id m)). sane (fst t) \<and> sane (snd t))"
    if "m \<in> set (all_reports now ttl (rg_meters R))" for m
    using polled_ids_wf [OF assms(1) that] by (auto simp: wf_id_def sane_def)
  moreover have "sane r_name" by (simp add: sane_def)
  ultimately have "list_all sane (payload_strings common (all_reports now ttl (rg_meters R)))"
    using assms(2) unfolding list_all_iff payload_strings_tags by (auto simp: tags_sane_def tag_strings_def list_all_iff)
  with assms(3) show ?thesis by (simp add: payload_ok_def payload_fits_def)
qed

lemma post_all_sent: "length (fst (post_all post tasks s)) = length tasks"
  by (induction tasks arbitrary: s) (simp_all add: Let_def split_beta)

lemma send_spec:
  assumes "registry_inv R" and "ages_defined now (rg_meters R)" and "0 < cf_batch_size (rg_config R)"
    and "iter_laws iter" and "tags_sane (pb_common_tags P)"
    and "payload_fits iter (pb_common_tags P) (all_reports now (rg_meter_ttl R) (rg_meters R))"
    and "replies_ok J post" and "\<And>xs. mset (order xs) = mset xs"
  shows "\<exists>payloads P' w' R' bs. send_metrics iter J post order True now P w R = Some (payloads, P', w', R') \<and>
    concat bs = all_reports now (rg_meter_ttl R) (rg_meters R) \<and> batch_sizes_ok (cf_batch_size (rg_config R)) bs \<and>
    mset (map read_payload payloads) = mset (map (\<lambda>b. Some (map (published (pb_common_tags P)) b)) bs)"
proof -
  let ?ms = "all_reports now (rg_meter_ttl R) (rg_meters R)"
  obtain R1 where m: "registry_measurements now R = Some (R1, ?ms)"
    using registry_measurements_spec [OF assms(1,2)] by blast
  then have cfg: "rg_config R1 = rg_config R" by (auto simp: registry_measurements_def Let_def split: option.splits prod.splits)
  obtain bs where bs: "batches (cf_batch_size (rg_config R)) ?ms = Some bs" "concat bs = ?ms"
    "batch_sizes_ok (cf_batch_size (rg_config R)) bs" using batches_spec [OF assms(3), of ?ms] by blast
  obtain ps where ps: "all_payloads iter (pb_common_tags P) bs = Some ps"
    "map read_payload ps = map (\<lambda>b. Some (map (published (pb_common_tags P)) b)) bs"
    using all_payloads_read [OF assms(4), of "pb_common_tags P" bs] polled_payload_ok [OF assms(1,5,6)] bs(2) by auto
  have len: "length ps = length bs" using arg_cong [OF ps(2), of length] by simp
  let ?tasks = "order (zip (map length bs) ps)"
  obtain as w1 R2 where as: "post_all post ?tasks (w, R1) = (as, w1, R2)" by (metis prod.exhaust)
  obtain s e R3 where h: "handle_all J now P as R2 = Some (s, e, R3)"
    using handled [OF assms(7), of now P ?tasks "(w, R1)" R2] as by auto
  have "mset (map snd ?tasks) = mset (map snd (zip (map length bs) ps))" by (simp add: assms(8))
  then have "mset (map snd ?tasks) = mset ps" using len by simp
  then have "mset (map read_payload (map snd ?tasks)) = mset (map read_payload ps)" by (metis mset_map)
  then have posted: "mset (map read_payload (map snd ?tasks)) =
      mset (map (\<lambda>b. Some (map (published (pb_common_tags P)) b)) bs)" by (simp only: ps(2))
  show ?thesis
  proof (cases "?ms = []")
    case True
    then have "bs = []" using bs(2,3) by (cases bs) (auto simp: batch_sizes_ok_def)
    then show ?thesis using m True bs by (auto simp: send_metrics_def)
  next
    case False
    then have "send_metrics iter J post order True now P w R = Some (map snd ?tasks,
        if \<exists>a \<in> set as. hr_status (snd a) div 100 = 2 then P\<lparr>pb_last_success := now\<rparr> else P, w1, R3)"
      by (simp add: send_metrics_def m cfg bs(1) ps(1) as h Let_def)
    with bs(2,3) posted show ?thesis by blast
  qed
qed

text \<open>
  C2. What is published is the poll. When the common tags are interned (as the constructor makes them), the sizes
  within the range of the encoding, the batch size positive and the replies of the aggregator as they must be (an error
  count comes with its messages), \<open>send_metrics\<close> returns, and reading the payloads it posted (in
  whatever order the pool ran them) gives every measurement of the poll exactly once, each with its own tags, the common
  tags, its name, its aggregation and its value, cut into non-empty batches of at most the
  configured size.
\<close>

theorem send_publishes_poll:
  assumes "registry_inv R" and "ages_defined now (rg_meters R)" and "0 < cf_batch_size (rg_config R)"
    and "iter_laws iter" and "tags_sane (pb_common_tags P)"
    and "payload_fits iter (pb_common_tags P) (all_reports now (rg_meter_ttl R) (rg_meters R))"
    and "replies_ok J post" and "\<And>xs. mset (order xs) = mset xs"
  shows "\<exists>payloads P' w' R' bs. send_metrics iter J post order True now P w R = Some (payloads, P', w', R') \<and>
    concat bs = all_reports now (rg_meter_ttl R) (rg_meters R) \<and> batch_sizes_ok (cf_batch_size (rg_config R)) bs \<and>
    mset (map read_payload payloads) = mset (map (\<lambda>b. Some (map (published (pb_common_tags P)) b)) bs)"
  by (rule send_spec [OF assms])

text \<open>A registry with one gauge.\<close>

definition login_id :: meter_id where
  "login_id = id_of ''requests'' (intern_tags [(''id'', ''login'')])"

definition one_gauge :: "int registry" where
  "one_gauge = (let (r, R) = get_gauge ns_durations 3 login_id (sample_registry 1)
     in R\<lparr>rg_meters := (rg_meters R)\<lparr>am_gauges := mm_update r (gauge_set 4 (dint 2)) (am_gauges (rg_meters R))\<rparr>\<rparr>)"

lemma one_gauge_reports:
  "all_reports 5 (rg_meter_ttl one_gauge) (rg_meters one_gauge) = [measured (with_default_stat r_gauge login_id) (dint 2)]"
  unfolding one_gauge_def
  by (simp add: all_reports_def get_gauge_def new_registry_def no_meters_def mm_insert_def mm_alloc_def empty_map_def
      mm_update_def split_beta Let_def sample_config_def ns_durations_def live_reports_def is_meter_expired_def
      gauge_expired_def gauge_has_expired_def touch_def age_gauge_expired_def new_gauge_def new_dist_summary_def
      gauge_set_def int64_max_def int64_min_def dist_summary_measure_def gauge_measure_def lazy_id_def dint_exact
      get_ttl_def mm_get_values_def)

lemma one_gauge_inv: "registry_inv one_gauge"
proof -
  have "wf_id login_id" by (simp add: login_id_def wf_id_of)
  from registry_inv_get(3) [OF registry_inv_new this, of ns_durations 3 ns_durations 0 "sample_config 1"]
  have R: "registry_inv (snd (get_gauge ns_durations 3 login_id (sample_registry 1)))" .
  have "mt_id (gauge_set 4 v h) = mt_id h" "gauge_ok h \<Longrightarrow> gauge_ok (gauge_set 4 v h)" for v h
    by (simp_all add: gauge_set_def touch_def gauge_ok_def)
  then show ?thesis
    using R unfolding one_gauge_def registry_inv_def all_inv_def by (simp add: split_beta Let_def mm_inv_update)
qed

lemma one_gauge_plain:
  "rg_config one_gauge = sample_config 1" "ages_defined 5 (rg_meters one_gauge)"
  by (simp_all add: one_gauge_def get_gauge_def split_beta Let_def new_registry_def ages_defined_def no_meters_def
      mm_get_values_def empty_map_def)

theorem send_publishes_poll_witness:
  "\<exists>payloads P' w' R' bs. send_metrics remdups five_errors (\<lambda>p s. (\<lparr>hr_status = 200, hr_body = [], hr_headers = []\<rparr>, s)) rev
       True 5 \<lparr>pb_common_tags = [], pb_sent = 1, pb_invalid = 2, pb_dropped_http = 3, pb_dropped_other = 4, pb_last_success = 0\<rparr>
       () one_gauge = Some (payloads, P', w', R') \<and>
     concat bs = [measured (with_default_stat r_gauge login_id) (dint 2)] \<and>
     mset (map read_payload payloads) = mset (map (\<lambda>b. Some (map (published []) b)) bs)"
proof -
  let ?P = "\<lparr>pb_common_tags = [], pb_sent = 1, pb_invalid = 2, pb_dropped_http = 3, pb_dropped_other = 4, pb_last_success = 0\<rparr>"
  let ?m = "measured (with_default_stat r_gauge login_id) (dint 2)"
  have m: "with_default_stat r_gauge login_id = \<lparr>id_name = ''requests'', id_tags = [(''id'', ''login''), (''statistic'', ''gauge'')]\<rparr>" by code_simp
  have iter: "iter_laws remdups" by (simp add: iter_laws_def)
  have strings: "payload_strings [] [measured \<lparr>id_name = ''requests'', id_tags = [(''id'', ''login''), (''statistic'', ''gauge'')]\<rparr> (dint 2)] = [''name'', ''requests'', ''id'', ''login'', ''statistic'', ''gauge'']"
    by (simp add: payload_strings_def r_name_def)
  have sane: "tags_sane (pb_common_tags ?P)" by (simp add: tags_sane_def)
  have "wf_double (dint 2)" by (simp add: dint_def)
  then have fits: "payload_fits remdups (pb_common_tags ?P) (all_reports 5 (rg_meter_ttl one_gauge) (rg_meters one_gauge))"
    by (simp add: payload_fits_def one_gauge_reports strings m)
  have size: "0 < cf_batch_size (rg_config one_gauge)" by (simp add: one_gauge_plain sample_config_def)
  show ?thesis
    using send_publishes_poll [OF one_gauge_inv one_gauge_plain(2) size iter sane fits five_errors_replies, of rev
        "\<lambda>p s. (\<lparr>hr_status = 200, hr_body = [], hr_headers = []\<rparr>, s)" "()"]
    unfolding one_gauge_reports by fastforce
qed

end
