(* ===== verification/Daemon.thy ===== *)
theory Daemon
  imports ServerLaws ServerInv ProcUtils Publisher
begin

text \<open>
  The running daemon (\<open>server/spectatord.cc\<close>, \<open>server/udp_server.cc\<close>,
  \<open>server/local_server.cc\<close>): its sockets with their receive buffers, the upkeep thread, the
  expirer and the polls of the publisher, as a transition system over the server. The clocks,
  the datagrams and the content of \<open>/proc/net/udp\<close> are inputs of the steps.
\<close>

section \<open>Receiving\<close>

definition kRecvBuffer :: nat where
  "kRecvBuffer = 65536"

definition receive :: "cmem \<Rightarrow> string \<Rightarrow> cmem option" where
  \<comment> \<open>what the buffer holds when the handler is called: the datagram, cut to the size of the buffer,
    a terminator, and then what was there before; \<open>None\<close>: the terminator is written past the end\<close>
  "receive buf data =
     (let d = take (length buf) data; n = length d
      in if n < length buf then Some ((d @ drop n buf)[n := NUL]) else None)"

function after_parse :: "cmem \<Rightarrow> cmem" where
  \<comment> \<open>the buffer after \<open>parse_lines\<close>, which terminates every line in place\<close>
  "after_parse p =
     (if \<not> terminated p \<or> hd p = NUL then p
      else case strchr p (CHR 0x0A) of
        None \<Rightarrow> p
      | Some n \<Rightarrow>
          let rest = drop (Suc n) p
          in take n p @ NUL # takeWhile (\<lambda>c. c = CHR 0x0A) rest @ after_parse (dropWhile (\<lambda>c. c = CHR 0x0A) rest))"
  by pat_completeness auto
termination
proof (relation "measure length", goal_cases)
  case 1
  then show ?case by simp
next
  case (2 p n rest)
  have "0 < length p" using 2(1) by (auto simp: terminated_def)
  moreover have "length (dropWhile (\<lambda>c. c = CHR 0x0A) rest) \<le> length p - Suc n"
    unfolding 2(3) by (metis length_drop length_dropWhile_le)
  ultimately have "length (dropWhile (\<lambda>c. c = CHR 0x0A) rest) < length p" by linarith
  then show ?case by simp
qed

declare after_parse.simps [simp del]

definition on_datagram ::
  "(cmem \<Rightarrow> 'd server \<Rightarrow> ('d server \<times> string) option) \<Rightarrow> cmem \<Rightarrow> string \<Rightarrow> 'd server \<Rightarrow> (cmem \<times> 'd server) option" where
  \<comment> \<open>the completion handler of \<open>async_receive\<close>; an empty datagram is ignored\<close>
  "on_datagram handler buf data S =
     (if take (length buf) data = [] then Some (buf, S)
      else case receive buf data of
        None \<Rightarrow> None
      | Some m \<Rightarrow> (case handler m S of None \<Rightarrow> None | Some (S', errs) \<Rightarrow> Some (after_parse m, S')))"

section \<open>Upkeep\<close>

record upkeep_refs =
  \<comment> \<open>the static handles of \<open>upkeep\<close>\<close>
  up_timers_size :: nat
  up_ds_size :: nat
  up_timers_expired :: nat
  up_ds_expired :: nat
  up_pool_hits :: nat
  up_pool_misses :: nat
  up_pool_alloc_size :: nat
  up_pool_entries :: nat

record network_refs =
  nw_dropped :: nat
  nw_queue :: nat

definition tagged :: "string \<Rightarrow> string \<Rightarrow> meter_id" where
  "tagged name i = id_of name (intern_tags [(''id'', i)])"

definition start_upkeep :: "'d absl_time \<Rightarrow> int \<Rightarrow> 'd registry \<Rightarrow> upkeep_refs \<times> 'd registry" where
  "start_upkeep A now R0 =
     (let (ts, R1) = get_gauge A now (tagged ''spectatord.percentileCacheSize'' ''timer'') R0;
          (ds, R2) = get_gauge A now (tagged ''spectatord.percentileCacheSize'' ''dist-summary'') R1;
          (te, R3) = get_counter now (tagged ''spectatord.percentileExpired'' ''timer'') R2;
          (de, R4) = get_counter now (tagged ''spectatord.percentileExpired'' ''dist-summary'') R3;
          (ph, R5) = get_mono_counter now (tagged ''spectatord.poolAccess'' ''hit'') R4;
          (pm, R6) = get_mono_counter now (tagged ''spectatord.poolAccess'' ''miss'') R5;
          (pa, R7) = get_gauge A now (id_of ''spectatord.poolAllocSize'' []) R6;
          (pe, R8) = get_gauge A now (id_of ''spectatord.poolEntries'' []) R7
      in (\<lparr>up_timers_size = ts, up_ds_size = ds, up_timers_expired = te, up_ds_expired = de,
           up_pool_hits = ph, up_pool_misses = pm, up_pool_alloc_size = pa, up_pool_entries = pe\<rparr>, R8))"

definition network_handles :: "int \<Rightarrow> network_refs option \<Rightarrow> 'd registry \<Rightarrow> network_refs \<times> 'd registry" where
  \<comment> \<open>the static handles of \<open>update_network_metrics\<close>, created by its first call\<close>
  "network_handles now nw R = (case nw of
     Some h \<Rightarrow> (h, R)
   | None \<Rightarrow>
       let (d, R1) = get_mono_counter now (id_of ''spectatord.udpPacketsDropped'' []) R;
           (q, R2) = get_max_gauge now (id_of ''spectatord.udpRxQueue'' []) R1
       in (\<lparr>nw_dropped = d, nw_queue = q\<rparr>, R2))"

definition update_network_metrics ::
  "int \<Rightarrow> udp_info_t option \<Rightarrow> network_refs option \<Rightarrow> 'd registry \<Rightarrow> network_refs \<times> 'd registry" where
  "update_network_metrics now info nw R =
     (let (h, R1) = network_handles now nw R
      in (h, case info of
            None \<Rightarrow> R1
          | Some u \<Rightarrow>
              if cf_status_metrics_enabled (rg_config R1)
              then update_max_gauge (nw_queue h) (max_gauge_update now (dint (ui_rx_queue_bytes u)))
                     (update_mono (nw_dropped h) (mono_set now (dint (ui_num_dropped u))) R1)
              else R1))"

definition set_sizes :: "int \<Rightarrow> upkeep_refs \<Rightarrow> nat \<times> nat \<Rightarrow> nat \<times> nat \<Rightarrow> 'd registry \<Rightarrow> 'd registry" where
  "set_sizes now h timers ds R =
     update_counter (up_ds_expired h) (counter_add now (dint (int (snd ds))))
       (update_counter (up_timers_expired h) (counter_add now (dint (int (snd timers))))
         (update_gauge (up_ds_size h) (gauge_set now (dint (int (fst ds))))
           (update_gauge (up_timers_size h) (gauge_set now (dint (int (fst timers)))) R)))"

definition set_pool_stats :: "int \<Rightarrow> upkeep_refs \<Rightarrow> pool \<Rightarrow> 'd registry \<Rightarrow> 'd registry" where
  "set_pool_stats now h p R =
     update_gauge (up_pool_entries h) (gauge_set now (dint (uint (p_table_size p))))
       (update_gauge (up_pool_alloc_size h) (gauge_set now (dint (uint (p_alloc_size p))))
         (update_mono (up_pool_misses h) (mono_set now (dint (uint (p_misses p))))
           (update_mono (up_pool_hits h) (mono_set now (dint (uint (p_hits p)))) R)))"

definition upkeep_tick ::
  "int \<Rightarrow> int \<Rightarrow> upkeep_refs \<Rightarrow> udp_info_t option \<Rightarrow> pool \<Rightarrow> network_refs option \<Rightarrow> 'd server \<Rightarrow> network_refs \<times> 'd server" where
  \<comment> \<open>one turn of the loop of \<open>upkeep\<close>\<close>
  "upkeep_tick now steady h info p nw S =
     (let (ds, ds_stats) = cache_expire steady (sv_perc_ds S);
          (ts, t_stats) = cache_expire steady (sv_perc_timers S);
          R = sv_registry S;
          status = cf_status_metrics_enabled (rg_config R);
          R1 = (if status then set_sizes now h t_stats ds_stats R else R);
          (nw', R2) = update_network_metrics now info nw R1;
          R3 = (if status then set_pool_stats now h p R2 else R2)
      in (nw', S\<lparr>sv_registry := R3, sv_perc_timers := ts, sv_perc_ds := ds\<rparr>))"

section \<open>The daemon as a transition system\<close>

record 'd daemon =
  dm_server :: "'d server"
  dm_udp :: cmem       \<comment> \<open>the receive buffers\<close>
  dm_statsd :: cmem
  dm_local :: cmem
  dm_upkeep :: "upkeep_refs option"
  dm_network :: "network_refs option"

definition recv_buffer :: cmem where
  \<comment> \<open>\<open>recv_buffer_{}\<close>\<close>
  "recv_buffer = replicate kRecvBuffer NUL"

definition start_daemon :: "'d absl_time \<Rightarrow> int \<Rightarrow> 'd config \<Rightarrow> 'd daemon" where
  \<comment> \<open>the constructors, and the age gauge that \<open>Start\<close> sets\<close>
  "start_daemon A now cfg =
     (let S = new_server now (snd (construct_registry A now cfg));
          (r, R) = get_age_gauge now (id_of ''spectatord.uptime'' []) (sv_registry S);
          S1 = (if cf_status_metrics_enabled cfg
                then S\<lparr>sv_registry := update_age_gauge r (update_last_success now) R\<rparr> else S)
      in \<lparr>dm_server = S1, dm_udp = recv_buffer, dm_statsd = recv_buffer, dm_local = recv_buffer,
          dm_upkeep = None, dm_network = None\<rparr>)"

inductive daemon_step :: "'d absl_time \<Rightarrow> 'd daemon \<Rightarrow> 'd daemon \<Rightarrow> bool" for A where
  udp: "on_datagram (parse A now steady) (dm_udp d) data (dm_server d) = Some (m, S) \<Longrightarrow>
    daemon_step A d (d\<lparr>dm_udp := m, dm_server := S\<rparr>)"
| statsd: "on_datagram (parse_statsd A now) (dm_statsd d) data (dm_server d) = Some (m, S) \<Longrightarrow>
    daemon_step A d (d\<lparr>dm_statsd := m, dm_server := S\<rparr>)"
| local: "on_datagram (parse A now steady) (dm_local d) data (dm_server d) = Some (m, S) \<Longrightarrow>
    daemon_step A d (d\<lparr>dm_local := m, dm_server := S\<rparr>)"
| start_upkeep: "dm_upkeep d = None \<Longrightarrow> start_upkeep A now (sv_registry (dm_server d)) = (h, R) \<Longrightarrow>
    daemon_step A d (d\<lparr>dm_upkeep := Some h, dm_server := (dm_server d)\<lparr>sv_registry := R\<rparr>\<rparr>)"
| upkeep: "dm_upkeep d = Some h \<Longrightarrow> upkeep_tick now steady h info p (dm_network d) (dm_server d) = (nw, S) \<Longrightarrow>
    daemon_step A d (d\<lparr>dm_network := Some nw, dm_server := S\<rparr>)"
| expire: "daemon_step A d (d\<lparr>dm_server := on_registry (remove_expired_meters now) (dm_server d)\<rparr>)"
| poll: "registry_measurements now (sv_registry (dm_server d)) = Some (R, ms) \<Longrightarrow>
    daemon_step A d (d\<lparr>dm_server := (dm_server d)\<lparr>sv_registry := R\<rparr>\<rparr>)"
| set_tag: "daemon_step A d (d\<lparr>dm_server := on_registry (update_common_tag k v) (dm_server d)\<rparr>)"
| erase_tag: "daemon_step A d (d\<lparr>dm_server := on_registry (erase_common_tag k) (dm_server d)\<rparr>)"
| delete: "daemon_step A d (d\<lparr>dm_server := on_registry (\<lambda>R. snd (delete_meter type i R)) (dm_server d)\<rparr>)"
| delete_all: "daemon_step A d (d\<lparr>dm_server := on_registry (delete_all_meters type) (dm_server d)\<rparr>)"

inductive reachable :: "'d absl_time \<Rightarrow> 'd config \<Rightarrow> 'd daemon \<Rightarrow> bool" for A cfg where
  start: "reachable A cfg (start_daemon A now cfg)"
| step: "reachable A cfg d \<Longrightarrow> daemon_step A d d' \<Longrightarrow> reachable A cfg d'"

definition daemon_inv :: "'d daemon \<Rightarrow> bool" where
  "daemon_inv d \<longleftrightarrow> server_inv (dm_server d) \<and>
     length (dm_udp d) = kRecvBuffer \<and> length (dm_statsd d) = kRecvBuffer \<and> length (dm_local d) = kRecvBuffer"

section \<open>Buffers keep their size\<close>

lemma length_after_parse: "length (after_parse p) = length p"
proof (induction p rule: after_parse.induct)
  case (1 p)
  show ?case
  proof (cases "\<not> terminated p \<or> hd p = NUL")
    case True
    then show ?thesis by (simp add: after_parse.simps [of p])
  next
    case False
    show ?thesis
    proof (cases "strchr p (CHR 0x0A)")
      case None
      then show ?thesis by (simp add: after_parse.simps [of p])
    next
      case (Some n)
      have "length (cstr p) \<le> length p" by (simp add: cstr_def length_takeWhile_le)
      moreover have "n < length (cstr p)"
        using Some takeWhile_less [of "CHR 0x0A" "cstr p"] by (auto simp: strchr_def Let_def split: if_splits)
      ultimately have n: "n < length p" by simp
      let ?r = "drop (Suc n) p"
      have "length (takeWhile (\<lambda>c. c = CHR 0x0A) ?r) + length (dropWhile (\<lambda>c. c = CHR 0x0A) ?r) = length ?r"
        by (metis length_append takeWhile_dropWhile_id)
      then show ?thesis using 1 [OF False Some refl] False Some n by (simp add: after_parse.simps [of p] Let_def)
    qed
  qed
qed

lemma length_receive: "receive buf data = Some m \<Longrightarrow> length m = length buf"
  by (auto simp: receive_def Let_def split: if_splits)

lemma on_datagram_keeps:
  assumes "\<And>m S S' e. server_inv S \<Longrightarrow> handler m S = Some (S', e) \<Longrightarrow> server_inv S'"
    and "server_inv S" and "on_datagram handler buf data S = Some (m, S')"
  shows "server_inv S' \<and> length m = length buf"
  using assms by (auto simp: on_datagram_def length_after_parse dest: length_receive split: if_splits option.splits)

section \<open>Every step keeps the invariant\<close>

lemma wf_tagged: "wf_id (tagged name i)"
  by (simp add: tagged_def wf_id_of)

lemma start_upkeep_keeps: "registry_inv R \<Longrightarrow> registry_inv (snd (start_upkeep A now R))"
  by (simp add: start_upkeep_def split_beta Let_def registry_inv_get wf_tagged wf_id_plain)

lemma network_keeps: "registry_inv R \<Longrightarrow> registry_inv (snd (update_network_metrics now info nw R))"
  by (simp add: update_network_metrics_def network_handles_def split_beta Let_def updates_keep registry_inv_get
      wf_id_plain split: option.split)

lemma sizes_keep: "registry_inv R \<Longrightarrow> registry_inv (set_sizes now h t d R)"
  by (simp add: set_sizes_def updates_keep)

lemma pool_stats_keep: "registry_inv R \<Longrightarrow> registry_inv (set_pool_stats now h p R)"
  by (simp add: set_pool_stats_def updates_keep)

lemma expire_keeps_entries: "list_all P c \<Longrightarrow> list_all P (fst (cache_expire now c))"
  by (auto simp: cache_expire_def Let_def list_all_iff)

lemma upkeep_tick_keeps:
  assumes "server_inv S"
  shows "server_inv (snd (upkeep_tick now steady h info p nw S))"
proof -
  have R: "registry_inv (sv_registry S)" using assms by (simp add: server_inv_def)
  show ?thesis
    using assms unfolding server_inv_def upkeep_tick_def Let_def split_beta
    by (simp add: R cache_inv_expire expire_keeps_entries network_keeps sizes_keep pool_stats_keep)
qed

lemma tags_keep: "registry_inv R \<Longrightarrow> registry_inv (update_common_tag k v R)"
  "registry_inv R \<Longrightarrow> registry_inv (erase_common_tag k R)"
  by (simp_all add: registry_inv_def update_common_tag_def erase_common_tag_def)

lemma on_registry_keeps: "server_inv S \<Longrightarrow> (\<And>R. registry_inv R \<Longrightarrow> registry_inv (f R)) \<Longrightarrow> server_inv (on_registry f S)"
  by (simp add: server_inv_def on_registry_def)

lemma parse_keeps: "server_inv S \<Longrightarrow> parse A now steady m S = Some (S', e) \<Longrightarrow> server_inv S'"
  unfolding parse_def by (rule parse_lines_keeps [OF parse_line_keeps])

lemma parse_statsd_keeps: "server_inv S \<Longrightarrow> parse_statsd A now m S = Some (S', e) \<Longrightarrow> server_inv S'"
  unfolding parse_statsd_def by (rule parse_lines_keeps [OF parse_statsd_line_keeps])

lemma daemon_step_keeps: "daemon_step A d d' \<Longrightarrow> daemon_inv d \<Longrightarrow> daemon_inv d'"
proof (induction rule: daemon_step.induct)
  case (udp now steady d data m S)
  then show ?case using on_datagram_keeps [OF parse_keeps _ udp.hyps] by (simp add: daemon_inv_def)
next
  case (statsd now d data m S)
  then show ?case using on_datagram_keeps [OF parse_statsd_keeps _ statsd.hyps] by (simp add: daemon_inv_def)
next
  case (local now steady d data m S)
  then show ?case using on_datagram_keeps [OF parse_keeps _ local.hyps] by (simp add: daemon_inv_def)
next
  case (start_upkeep d now h R)
  then show ?case using start_upkeep_keeps [of "sv_registry (dm_server d)" A now]
    by (simp add: daemon_inv_def server_inv_def)
next
  case (upkeep d h now steady info p nw S)
  then show ?case using upkeep_tick_keeps [of "dm_server d" now steady h info p "dm_network d"]
    by (simp add: daemon_inv_def)
next
  case (poll now d R ms)
  then show ?case using registry_inv_measurements [OF _ poll.hyps] by (simp add: daemon_inv_def server_inv_def)
qed (simp_all add: daemon_inv_def on_registry_keeps registry_inv_remove_expired tags_keep registry_inv_delete)

lemma daemon_inv_start: "daemon_inv (start_daemon A now cfg)"
proof -
  have S: "server_inv (new_server now (snd (construct_registry A now cfg)))" by (rule server_inv_new [OF registry_inv_construct])
  then have "registry_inv (snd (get_age_gauge now (id_of ''spectatord.uptime'' []) (sv_registry (new_server now (snd (construct_registry A now cfg))))))"
    by (intro registry_inv_get_age_gauge wf_id_plain) (simp add: server_inv_def)
  then show ?thesis
    using S by (simp add: daemon_inv_def start_daemon_def Let_def split_beta recv_buffer_def server_inv_registry updates_keep)
qed

lemma reachable_inv: "reachable A cfg d \<Longrightarrow> daemon_inv d"
  by (induction rule: reachable.induct) (auto intro: daemon_inv_start daemon_step_keeps)

section \<open>A datagram reaches its counter\<close>

lemma count_of_update_counter:
  assumes "registry_inv R"
  shows "count_of (update_counter r f R) j =
    (if mm_find (am_counters (rg_meters R)) j = Some r then c_count (f (mm_objs (am_counters (rg_meters R)) ! r))
     else count_of R j)"
proof -
  let ?s = "am_counters (rg_meters R)"
  have "mm_inv counter_ok ?s" using assms by (simp add: registry_inv_def all_inv_def)
  then have "k < length (mm_objs ?s)" if "mm_find ?s j = Some k" for k
    using that map_of_SomeD [of "mm_table ?s" j k] by (fastforce simp: mm_find_def mm_inv_def)
  then show ?thesis
    by (auto simp: count_of_def update_counter_def mm_update_def mm_find_def split: option.split)
qed

definition added :: "double \<Rightarrow> double \<Rightarrow> double" where
  \<comment> \<open>what adding a number makes of a pending count: negative numbers are ignored\<close>
  "added x c = (if dlt x dpos0 then c else dadd c x)"

lemma counters_inv: "registry_inv R \<Longrightarrow> mm_inv counter_ok (am_counters (rg_meters R))"
  by (simp add: registry_inv_def all_inv_def)

lemma find_update_counter [simp]:
  "mm_find (am_counters (rg_meters (update_counter r f R))) = mm_find (am_counters (rg_meters R))"
  by (simp add: update_counter_def mm_update_def mm_find_def fun_eq_iff)

lemma count_added:
  assumes "registry_inv R" and "wf_id c"
  shows "count_of (update_counter (fst (get_counter now c R)) (counter_add now x) (snd (get_counter now c R))) j =
      (if j = c then added x (count_of R j) else count_of R j)"
proof -
  let ?R = "snd (get_counter now c R)" and ?r = "fst (get_counter now c R)"
  have inv: "mm_inv counter_ok (am_counters (rg_meters R))" and inv2: "mm_inv counter_ok (am_counters (rg_meters ?R))"
    using assms(1) registry_inv_get(1) [OF assms(1,2), of now] by (simp_all add: registry_inv_def all_inv_def)
  have here: "mm_find (am_counters (rg_meters ?R)) c = Some ?r"
    using meters.look_put [OF inv, of "new_counter now c" c] by (simp add: get_counter_def split_beta)
  have only: "mm_find (am_counters (rg_meters ?R)) j = Some ?r \<Longrightarrow> j = c" using meters.look_inj [OF inv2 _ here] by blast
  have number: "c_count (counter_add now x m) = added x (c_count m)" for m
    by (simp add: counter_add_def added_def Let_def touch_def)
  have "count_of ?R c = c_count (mm_objs (am_counters (rg_meters ?R)) ! ?r)" by (simp add: count_of_def here)
  then show ?thesis
    using here only
    by (auto simp: count_of_update_counter [OF registry_inv_get(1) [OF assms(1,2)]] number
        count_of_get_counter [OF assms(1), symmetric, of _ now c])
qed

lemma receive_fits:
  assumes "length data < length buf"
  shows "receive buf data = Some (data @ NUL # drop (Suc (length data)) buf)"
proof -
  have "drop (length data) buf = buf ! length data # drop (Suc (length data)) buf"
    using assms by (rule Cons_nth_drop_Suc [symmetric])
  then show ?thesis using assms by (simp add: receive_def list_update_append)
qed

section \<open>Properties\<close>

text \<open>
  C4. Whatever datagrams arrive on the three sockets, in whatever order with the upkeep, the expirer, the polls
  and the requests of the admin server, the daemon stays well formed: every meter is registered under
  its own sanitised identity with sorted tags, there are at most as many age gauges as configured,
  the caches hold one percentile meter for each identity, and the receive buffers keep their size.
\<close>

theorem daemon_stays_well_formed:
  assumes "reachable A cfg d"
  shows "daemon_inv d \<and>
    mm_size (am_age_gauges (rg_meters (sv_registry (dm_server d)))) \<le>
      cf_age_gauge_limit (rg_config (sv_registry (dm_server d)))"
  using reachable_inv [OF assms] by (simp add: daemon_inv_def server_inv_def registry_inv_def)

theorem daemon_stays_well_formed_witness:
  "\<exists>d. reachable ns_durations (sample_config 1) d \<and> dm_upkeep d \<noteq> None \<and> daemon_inv d"
proof -
  let ?d = "start_daemon ns_durations 0 (sample_config 1)"
  obtain h R where h: "start_upkeep ns_durations 1 (sv_registry (dm_server ?d)) = (h, R)" by fastforce
  have "dm_upkeep ?d = None" by (simp add: start_daemon_def Let_def split_beta)
  from reachable.step [OF reachable.start daemon_step.start_upkeep [OF this h]]
  have "reachable ns_durations (sample_config 1) (?d\<lparr>dm_upkeep := Some h, dm_server := (dm_server ?d)\<lparr>sv_registry := R\<rparr>\<rparr>)" .
  then show ?thesis using daemon_stays_well_formed by fastforce
qed

text \<open>
  A datagram of the size that UDP allows fits the receive buffer with its terminator, and the handler
  sees exactly the datagram; a datagram of 65536 bytes or more, which a unix datagram socket
  delivers, makes the handler write the terminator past the end of the buffer.
\<close>

theorem receive_bounds:
  assumes "length buf = kRecvBuffer"
  shows "(length data \<le> 65507 \<and> NUL \<notin> set data \<longrightarrow>
      (\<exists>m. receive buf data = Some m \<and> length m = kRecvBuffer \<and> cstr m = data \<and> terminated m)) \<and>
    (kRecvBuffer \<le> length data \<longrightarrow> receive buf data = None)"
proof (intro conjI impI)
  assume d: "length data \<le> 65507 \<and> NUL \<notin> set data"
  then have "length data < length buf" by (simp add: assms kRecvBuffer_def)
  from receive_fits [OF this] length_receive [OF receive_fits [OF this]] d
  show "\<exists>m. receive buf data = Some m \<and> length m = kRecvBuffer \<and> cstr m = data \<and> terminated m"
    by (simp add: assms terminated_line)
next
  assume "kRecvBuffer \<le> length data"
  then show "receive buf data = None" by (simp add: receive_def assms)
qed

theorem receive_bounds_witness:
  "(\<exists>m. receive recv_buffer ''c:a:1'' = Some m \<and> cstr m = ''c:a:1'') \<and>
   receive recv_buffer (replicate 65536 (CHR ''x'')) = None"
proof -
  have l: "length recv_buffer = kRecvBuffer" by (simp add: recv_buffer_def)
  have n: "NUL \<notin> set ''c:a:1''" by (simp add: NUL_def)
  show ?thesis
    using receive_bounds [OF l, of "''c:a:1''"] receive_bounds [OF l, of "replicate 65536 (CHR ''x'')"] n
    by (auto simp: kRecvBuffer_def)
qed

end
