(* ===== verification/EndToEnd.thy ===== *)
theory EndToEnd
  imports Daemon Publisher
begin

text \<open>
  From the socket to the aggregator: a sequence of datagrams received by \<open>server/udp_server.cc\<close> and parsed by
  \<open>server/spectatord.cc\<close>, followed by a round of \<open>spectator/publisher.h\<close>.
\<close>

section \<open>A sequence of datagrams\<close>

record message =
  \<comment> \<open>what a client counts: the value is the text that it sends\<close>
  msg_name :: string
  msg_tags :: "(string \<times> string) list"
  msg_value :: string

record datagram =
  dg_time :: int
  dg_messages :: "message list"

definition msg_line :: "message \<Rightarrow> string" where
  "msg_line m = line_text (CHR ''c'') None (msg_name m) (msg_tags m) (msg_value m)"

definition msg_id :: "message \<Rightarrow> meter_id" where
  "msg_id m = id_of (msg_name m) (intern_tags (msg_tags m))"

definition msg_number :: "message \<Rightarrow> double" where
  \<comment> \<open>the double nearest to the number at the start of the value\<close>
  "msg_number m = fst (strtod (msg_value m))"

definition msg_ok :: "message \<Rightarrow> bool" where
  \<comment> \<open>a documented line, whose value starts with a number\<close>
  "msg_ok m \<longleftrightarrow> name_ok (msg_name m) \<and> msg_name m \<noteq> [] \<and> tags_ok (msg_tags m) \<and> NUL \<notin> set (msg_value m) \<and>
     CHR 0x0A \<notin> set (msg_line m) \<and> snd (strtod (msg_value m)) \<noteq> 0"

primrec join_lines :: "string list \<Rightarrow> string" where
  "join_lines [] = []"
| "join_lines (l # ls) = (if ls = [] then l else l @ CHR 0x0A # join_lines ls)"

definition dg_text :: "datagram \<Rightarrow> string" where
  "dg_text d = join_lines (map msg_line (dg_messages d))"

definition dg_ok :: "nat \<Rightarrow> datagram \<Rightarrow> bool" where
  \<comment> \<open>such lines, which together fit a buffer of the size\<close>
  "dg_ok sz d \<longleftrightarrow> list_all msg_ok (dg_messages d) \<and> length (dg_text d) < sz"

primrec receive_all :: "'d absl_time \<Rightarrow> int \<Rightarrow> datagram list \<Rightarrow> cmem \<Rightarrow> 'd server \<Rightarrow> (cmem \<times> 'd server) option" where
  \<comment> \<open>the datagrams arrive one after the other at the socket of the line protocol\<close>
  "receive_all A steady [] buf S = Some (buf, S)"
| "receive_all A steady (d # ds) buf S =
     Option.bind (on_datagram (parse A (dg_time d) steady) buf (dg_text d) S) (\<lambda>(buf1, S1). receive_all A steady ds buf1 S1)"

definition messages_of :: "datagram list \<Rightarrow> message list" where
  "messages_of ds = concat (map dg_messages ds)"

definition numbers_for :: "meter_id \<Rightarrow> message list \<Rightarrow> double list" where
  "numbers_for i ms = map msg_number (filter (\<lambda>m. msg_id m = i) ms)"

section \<open>Counters that were touched lately\<close>

definition counter_at :: "'d registry \<Rightarrow> meter_id \<Rightarrow> counter option" where
  "counter_at R i = map_option (\<lambda>r. mm_objs (am_counters (rg_meters R)) ! r) (mm_find (am_counters (rg_meters R)) i)"

definition touched_since :: "int \<Rightarrow> 'd registry \<Rightarrow> meter_id \<Rightarrow> bool" where
  "touched_since t R i \<longleftrightarrow> (case counter_at R i of None \<Rightarrow> False | Some c \<Rightarrow> t \<le> mt_updated c)"

lemma find_in_range:
  assumes "registry_inv R" and "mm_find (am_counters (rg_meters R)) i = Some r"
  shows "r < length (mm_objs (am_counters (rg_meters R)))"
  using counters_inv [OF assms(1)] map_of_SomeD [OF assms(2) [unfolded mm_find_def]] by (fastforce simp: mm_inv_def)

lemma counter_at_update:
  assumes "registry_inv R"
  shows "counter_at (update_counter r f R) i =
    map_option (if mm_find (am_counters (rg_meters R)) i = Some r then f else (\<lambda>c. c)) (counter_at R i)"
  using find_in_range [OF assms]
  by (cases "mm_find (am_counters (rg_meters R)) i") (auto simp: counter_at_def update_counter_def mm_update_def mm_find_def)

lemma counter_at_get:
  assumes "registry_inv R"
  shows "counter_at R i = Some c \<Longrightarrow> counter_at (snd (get_counter now j R)) i = Some c"
    and "counter_at R i = None \<Longrightarrow> counter_at (snd (get_counter now i R)) i = Some (new_counter now i)"
    and "mm_find (am_counters (rg_meters (snd (get_counter now i R)))) i = Some (fst (get_counter now i R))"
proof -
  let ?s = "am_counters (rg_meters R)"
  note inv = counters_inv [OF assms]
  show "mm_find (am_counters (rg_meters (snd (get_counter now i R)))) i = Some (fst (get_counter now i R))"
    using meters.look_put [OF inv, of "new_counter now i" i] by (simp add: get_counter_def split_beta new_counter_def)
  show "counter_at R i = Some c \<Longrightarrow> counter_at (snd (get_counter now j R)) i = Some c"
  proof -
    assume "counter_at R i = Some c"
    then obtain r where r: "mm_find ?s i = Some r" "c = mm_objs ?s ! r" by (auto simp: counter_at_def)
    have "mm_objs (snd (mm_insert (new_counter now j) ?s)) ! r = mm_objs ?s ! r"
      using find_in_range [OF assms r(1)] by (auto simp: mm_insert_def mm_alloc_def Let_def nth_append split: option.split)
    then show ?thesis
      using meters.look_put_keeps [OF inv r(1), of "new_counter now j"] r(2)
      by (simp add: counter_at_def get_counter_def split_beta)
  qed
  show "counter_at R i = None \<Longrightarrow> counter_at (snd (get_counter now i R)) i = Some (new_counter now i)"
    by (simp add: counter_at_def get_counter_def split_beta mm_insert_def mm_alloc_def mm_find_def new_counter_def
        map_add_Some_iff)
qed

lemma touched_update:
  assumes "registry_inv R" and "\<And>c. t \<le> mt_updated c \<Longrightarrow> t \<le> mt_updated (f c)" and "touched_since t R i"
  shows "touched_since t (update_counter r f R) i"
  using assms(2,3) by (auto simp: touched_since_def counter_at_update [OF assms(1)] split: option.splits)

lemma touched_get: "registry_inv R \<Longrightarrow> touched_since t R i \<Longrightarrow> touched_since t (snd (get_counter now j R)) i"
  by (auto simp: touched_since_def counter_at_get(1) split: option.splits)

lemma touched_add:
  assumes "registry_inv R" and "wf_id i" and "t \<le> now"
  shows "touched_since t (update_counter (fst (get_counter now i R)) (counter_add now x) (snd (get_counter now i R))) i"
proof -
  have "mt_updated (counter_add now x c) = now" for c by (simp add: counter_add_def Let_def touch_def)
  then show ?thesis
    using counter_at_update [OF registry_inv_get(1) [OF assms(1,2)], of _ _ now i] counter_at_get(3) [OF assms(1), of now i] assms(3)
    by (auto simp: touched_since_def counter_at_def)
qed

lemma count_line_touched:
  assumes "registry_inv (sv_registry S)" and "t \<le> now" and "touched_since t (sv_registry S) i"
  shows "touched_since t (sv_registry (count_line now e S)) i"
  using touched_update [OF assms(1) _ assms(3)] assms(2,3)
  by (simp add: count_line_def on_registry_def counter_increment_def counter_add_def Let_def touch_def)

section \<open>One message\<close>

abbreviation parsed_id :: meter_id where
  "parsed_id \<equiv> id_of ''spectatord.parsedCount'' []"

definition counting :: "'d server \<Rightarrow> bool" where
  \<comment> \<open>a server that is well formed and counts its lines where it announces them\<close>
  "counting S \<longleftrightarrow> server_inv S \<and> mm_find (am_counters (rg_meters (sv_registry S))) parsed_id = Some (sv_parsed_count S)"

definition counted :: "int \<Rightarrow> message \<Rightarrow> 'd server \<Rightarrow> 'd server" where
  \<comment> \<open>the reference: the number is added to the counter, and the line is counted\<close>
  "counted now m S =
     (let (r, R) = get_counter now (msg_id m) (sv_registry S)
      in count_line now None (S\<lparr>sv_registry := update_counter r (counter_add now (msg_number m)) R\<rparr>))"

lemma message_parses:
  assumes "msg_ok m"
  shows "NUL \<notin> set (msg_line m)"
    and "parse_line A now steady (msg_line m @ NUL # r) S = Some (S\<lparr>sv_registry :=
      update_counter (fst (get_counter now (msg_id m) (sv_registry S))) (counter_add now (msg_number m))
        (snd (get_counter now (msg_id m) (sv_registry S)))\<rparr>, None)"
proof -
  have m: "name_ok (msg_name m)" "msg_name m \<noteq> []" "tags_ok (msg_tags m)" "NUL \<notin> set (msg_value m)" "snd (strtod (msg_value m)) \<noteq> 0"
    using assms by (simp_all add: msg_ok_def)
  show "NUL \<notin> set (msg_line m)"
    using m(1,4) tags_text_no_nul [OF m(3)]
    by (auto simp: msg_line_def line_text_def extra_text_def name_ok_def NUL_neq) (simp_all add: NUL_def)
  show "parse_line A now steady (msg_line m @ NUL # r) S = Some (S\<lparr>sv_registry :=
      update_counter (fst (get_counter now (msg_id m) (sv_registry S))) (counter_add now (msg_number m))
        (snd (get_counter now (msg_id m) (sv_registry S)))\<rparr>, None)"
    using parse_line_text [OF m(1-4), of None A now steady "CHR ''c''" r S] m(5)
    by (simp add: msg_line_def msg_id_def msg_number_def convert_value_def apply_measurement_def Let_def split_beta read_d_def)
qed

text \<open>These lines are read without looking beyond them, even if their value ends in a comma.\<close>

interpretation messages: local_parser "parse_line A now steady" "\<lambda>l. \<exists>m. msg_ok m \<and> l = msg_line m" for A now steady
  by unfold_locales (auto simp: message_parses(2))

lemma text_lines_join:
  "list_all (\<lambda>l. l \<noteq> [] \<and> CHR 0x0A \<notin> set l) ls \<Longrightarrow> text_lines (join_lines ls) = ls"
proof (induction ls)
  case Nil
  then show ?case by (simp add: text_lines_simps)
next
  case (Cons l ls)
  then have l: "l \<noteq> []" "CHR 0x0A \<notin> set l" and ls: "text_lines (join_lines ls) = ls" by simp_all
  show ?case
  proof (cases ls)
    case Nil
    then show ?thesis using l by (simp add: text_lines_simps)
  next
    case (Cons l' ls')
    then have "hd (join_lines ls) \<noteq> CHR 0x0A" using Cons.prems by (cases l') auto
    then have "dropWhile (\<lambda>c. c = CHR 0x0A) (join_lines ls) = join_lines ls"
      by (cases "join_lines ls") auto
    then show ?thesis using l ls Cons by (simp add: text_lines_simps(3))
  qed
qed

lemma run_messages:
  "list_all msg_ok ms \<Longrightarrow> run_lines (parse_line A now steady) now (map msg_line ms) err S = Some (fold (counted now) ms S, err)"
  by (induction ms arbitrary: S) (simp_all add: message_parses(2) counted_def split_beta Let_def)

definition counted_datagram :: "datagram \<Rightarrow> 'd server \<Rightarrow> 'd server" where
  "counted_datagram d = fold (counted (dg_time d)) (dg_messages d)"

lemma datagram_runs:
  assumes "dg_ok (length buf) d"
  shows "\<exists>b. on_datagram (parse A (dg_time d) steady) buf (dg_text d) S = Some (b, counted_datagram d S) \<and> length b = length buf"
proof (cases "dg_messages d = []")
  case True
  then show ?thesis by (simp add: on_datagram_def dg_text_def counted_datagram_def)
next
  case False
  have ok: "list_all msg_ok (dg_messages d)" "length (dg_text d) < length buf" using assms by (simp_all add: dg_ok_def)
  let ?ls = "map msg_line (dg_messages d)" and ?m = "dg_text d @ NUL # drop (Suc (length (dg_text d))) buf"
  have each: "list_all (\<lambda>l. l \<noteq> [] \<and> CHR 0x0A \<notin> set l) ?ls" "list_all (\<lambda>l. \<exists>m. msg_ok m \<and> l = msg_line m) ?ls"
    "list_all (\<lambda>l. NUL \<notin> set l) ?ls"
    using ok(1) message_parses(1) by (auto simp: list_all_iff msg_ok_def) (auto simp: msg_line_def line_text_def)
  have lines: "text_lines (dg_text d) = ?ls" unfolding dg_text_def by (rule text_lines_join [OF each(1)])
  have "list_all (\<lambda>l. NUL \<notin> set l) ls \<Longrightarrow> NUL \<notin> set (join_lines ls)" for ls by (induction ls) (auto simp: NUL_def)
  then have nul: "NUL \<notin> set (dg_text d)" using each(3) by (simp add: dg_text_def)
  have "parse A (dg_time d) steady ?m S = Some (counted_datagram d S, [])"
    using messages.parse_lines_run [OF nul, of A "dg_time d" steady "dg_time d" "drop (Suc (length (dg_text d))) buf" "[]" S] each(2)
    by (simp add: parse_def lines run_messages [OF ok(1)] counted_datagram_def)
  moreover have "dg_text d \<noteq> []" using lines False by (auto simp: text_lines_simps)
  ultimately show ?thesis
    using ok(2) by (simp add: on_datagram_def receive_fits [OF ok(2)] length_after_parse)
qed

lemma receive_all_counted:
  "list_all (dg_ok (length buf)) ds \<Longrightarrow> \<exists>b. receive_all A steady ds buf S = Some (b, fold counted_datagram ds S)"
proof (induction ds arbitrary: buf S)
  case (Cons d ds)
  then obtain b where b: "on_datagram (parse A (dg_time d) steady) buf (dg_text d) S = Some (b, counted_datagram d S)"
    "length b = length buf" using datagram_runs [of buf d A steady S] by auto
  then show ?case using Cons.IH [of b "counted_datagram d S"] Cons.prems by simp
qed simp

lemma message_counted:
  fixes S :: "'d server"
  assumes "counting S" and "msg_ok m" and "t \<le> now" and "i \<noteq> parsed_id"
  shows "counting (counted now m S)"
    and "count_of (sv_registry (counted now m S)) i =
      (if i = msg_id m then added (msg_number m) (count_of (sv_registry S) i) else count_of (sv_registry S) i)"
    and "touched_since t (sv_registry S) i \<or> i = msg_id m \<Longrightarrow> touched_since t (sv_registry (counted now m S)) i"
proof -
  let ?R = "sv_registry S" and ?S1 = "counted now m S"
  let ?R1 = "update_counter (fst (get_counter now (msg_id m) ?R)) (counter_add now (msg_number m))
    (snd (get_counter now (msg_id m) ?R))"
  have S1: "?S1 = count_line now None (S\<lparr>sv_registry := ?R1\<rparr>)" by (simp add: counted_def split_beta Let_def)
  have S: "server_inv S" "registry_inv ?R" "mm_find (am_counters (rg_meters ?R)) parsed_id = Some (sv_parsed_count S)"
    using assms(1) by (simp_all add: counting_def server_inv_def)
  have wf: "wf_id (msg_id m)" by (simp add: msg_id_def wf_id_of)
  have R1: "registry_inv ?R1" by (intro updates_keep registry_inv_get S(2) wf)
  have inv: "server_inv ?S1"
    unfolding S1 by (rule count_line_keeps [OF parse_line_keeps [OF S(1) message_parses(2) [OF assms(2)]]])
  have "mm_find (am_counters (rg_meters ?R1)) parsed_id = Some (sv_parsed_count S)"
    using meters.look_put_keeps [OF counters_inv [OF S(2)] S(3), of "new_counter now (msg_id m)"]
    by (simp add: get_counter_def split_beta)
  then have found: "mm_find (am_counters (rg_meters (sv_registry ?S1))) parsed_id = Some (sv_parsed_count S)"
    by (simp add: S1 count_line_def on_registry_def)
  moreover have "registry_inv (sv_registry ?S1)" using inv by (simp add: server_inv_def)
  ultimately have "mm_find (am_counters (rg_meters (sv_registry ?S1))) i \<noteq> Some (sv_parsed_count S)"
    using meters.look_inj [OF counters_inv] assms(4) by blast
  then have "count_of (sv_registry ?S1) i = count_of ?R1 i"
    using R1 by (auto simp: S1 count_line_def on_registry_def count_of_update_counter)
  then show "count_of (sv_registry ?S1) i =
      (if i = msg_id m then added (msg_number m) (count_of ?R i) else count_of ?R i)"
    by (simp add: count_added [OF S(2) wf])
  have "sv_parsed_count ?S1 = sv_parsed_count S" by (simp add: S1 count_line_def on_registry_def)
  then show "counting ?S1" using inv found by (simp add: counting_def)
  assume tch: "touched_since t ?R i \<or> i = msg_id m"
  have "touched_since t ?R1 i"
  proof (cases "i = msg_id m")
    case True
    then show ?thesis using touched_add [OF S(2) wf assms(3)] by simp
  next
    case False
    then have "touched_since t (snd (get_counter now (msg_id m) ?R)) i" using tch touched_get [OF S(2)] by blast
    then show ?thesis
      using assms(3) by (intro touched_update registry_inv_get S(2) wf) (simp_all add: counter_add_def Let_def touch_def)
  qed
  then show "touched_since t (sv_registry ?S1) i"
    using count_line_touched [of "S\<lparr>sv_registry := ?R1\<rparr>" t now i] R1 assms(3) by (simp add: S1)
qed

section \<open>Many messages\<close>

lemma only_counters_change:
  "am_age_gauges (rg_meters (sv_registry (counted now m S))) = am_age_gauges (rg_meters (sv_registry S))"
  "rg_config (sv_registry (counted now m S)) = rg_config (sv_registry S)"
  "rg_meter_ttl (sv_registry (counted now m S)) = rg_meter_ttl (sv_registry S)"
  by (simp_all add: counted_def count_line_def on_registry_def update_counter_def get_counter_def split_beta Let_def)

lemma numbers_for_simps [simp]:
  "numbers_for i [] = []" "numbers_for i (ms @ ms') = numbers_for i ms @ numbers_for i ms'"
  "numbers_for i (m # ms) = (if i = msg_id m then msg_number m # numbers_for i ms else numbers_for i ms)"
  by (auto simp: numbers_for_def)

definition same_others :: "'d server \<Rightarrow> 'd server \<Rightarrow> bool" where
  "same_others S S' \<longleftrightarrow> am_age_gauges (rg_meters (sv_registry S')) = am_age_gauges (rg_meters (sv_registry S)) \<and>
     rg_config (sv_registry S') = rg_config (sv_registry S) \<and> rg_meter_ttl (sv_registry S') = rg_meter_ttl (sv_registry S)"

lemma messages_counted:
  fixes S :: "'d server"
  assumes "counting S" and "list_all msg_ok ms" and "t \<le> now" and "i \<noteq> parsed_id"
  shows "counting (fold (counted now) ms S) \<and>
    count_of (sv_registry (fold (counted now) ms S)) i = fold added (numbers_for i ms) (count_of (sv_registry S) i) \<and>
    (touched_since t (sv_registry S) i \<or> i \<in> msg_id ` set ms \<longrightarrow> touched_since t (sv_registry (fold (counted now) ms S)) i) \<and>
    same_others S (fold (counted now) ms S)"
  using assms(1,2)
proof (induction ms arbitrary: S)
  case Nil
  then show ?case by (simp add: same_others_def)
next
  case (Cons m ms)
  have m: "msg_ok m" "list_all msg_ok ms" using Cons.prems(2) by simp_all
  note one = message_counted [OF Cons.prems(1) m(1) assms(3,4)]
  show ?case
    using Cons.IH [OF one(1) m(2)] one(2,3) only_counters_change [of now m S] by (auto simp: same_others_def)
qed

lemma datagrams_counted:
  fixes S :: "'d server"
  assumes "counting S" and "list_all (dg_ok sz) ds" and "list_all (\<lambda>d. t \<le> dg_time d) ds" and "i \<noteq> parsed_id"
  shows "counting (fold counted_datagram ds S) \<and>
    count_of (sv_registry (fold counted_datagram ds S)) i = fold added (numbers_for i (messages_of ds)) (count_of (sv_registry S) i) \<and>
    (touched_since t (sv_registry S) i \<or> i \<in> msg_id ` set (messages_of ds) \<longrightarrow>
      touched_since t (sv_registry (fold counted_datagram ds S)) i) \<and>
    same_others S (fold counted_datagram ds S)"
  using assms(1-3)
proof (induction ds arbitrary: S)
  case Nil
  then show ?case by (simp add: same_others_def messages_of_def)
next
  case (Cons d ds)
  have d: "list_all msg_ok (dg_messages d)" "t \<le> dg_time d" using Cons.prems by (simp_all add: dg_ok_def)
  have of: "messages_of (d # ds) = dg_messages d @ messages_of ds" by (simp add: messages_of_def)
  note one = messages_counted [OF Cons.prems(1) d assms(4), folded counted_datagram_def]
  show ?case
    using Cons.IH [of "counted_datagram d S"] one Cons.prems(2,3) unfolding of by (auto simp: same_others_def)
qed

lemma sum_of_numbers:
  "map msg_number (filter (\<lambda>m. msg_id m = i) ms) = map (\<lambda>k. dint (int k)) ks \<Longrightarrow> p + sum_list ks \<le> 2 ^ 53 \<Longrightarrow>
   fold added (numbers_for i ms) (dint (int p)) = dint (int (p + sum_list ks))"
proof -
  have "p + sum_list ks \<le> 2 ^ 53 \<Longrightarrow> fold added (map (\<lambda>k. dint (int k)) ks) (dint (int p)) = dint (int (p + sum_list ks))" for ks p
  proof (induction ks arbitrary: p)
    case (Cons k ks)
    then have "\<bar>int k\<bar> \<le> 2 ^ 53" "\<bar>int p\<bar> \<le> 2 ^ 53" "\<bar>int p + int k\<bar> \<le> 2 ^ 53" by simp_all
    then have "added (dint (int k)) (dint (int p)) = dint (int (p + k))"
      using dlt_dint_pos0(1) [of "int k"] dadd_dint [of "int p" "int k"] by (simp add: added_def)
    then show ?case using Cons.IH [of "p + k"] Cons.prems by (simp add: add.assoc)
  qed simp
  then show "map msg_number (filter (\<lambda>m. msg_id m = i) ms) = map (\<lambda>k. dint (int k)) ks \<Longrightarrow> p + sum_list ks \<le> 2 ^ 53 \<Longrightarrow>
   fold added (numbers_for i ms) (dint (int p)) = dint (int (p + sum_list ks))" by (simp add: numbers_for_def)
qed

section \<open>Until they are published\<close>

lemma pending_count_reported:
  assumes "registry_inv R" and "dlt dpos0 (count_of R i)" and "touched_since t R i" and "now - t \<le> ttl"
  shows "measured (with_default_stat r_count i) (count_of R i) \<in> set (all_reports now ttl (rg_meters R))"
proof -
  let ?s = "am_counters (rg_meters R)"
  obtain r where r: "mm_find ?s i = Some r" "t \<le> mt_updated (mm_objs ?s ! r)"
    using assms(3) by (auto simp: touched_since_def counter_at_def split: option.splits)
  let ?c = "mm_objs ?s ! r"
  have inv: "mm_inv counter_ok ?s" by (rule counters_inv [OF assms(1)])
  have entry: "(i, r) \<in> set (mm_table ?s)" using r(1) by (auto simp: mm_find_def dest: map_of_SomeD)
  then have c: "counter_ok ?c" "mt_id ?c = i" using inv by (auto simp: mm_inv_def)
  have count: "c_count ?c = count_of R i" using r(1) by (simp add: count_of_def)
  have "snd (counter_measure ?c) = [measured (with_default_stat r_count i) (count_of R i)]"
    using c lazy_cached(1) assms(2) by (simp add: counter_measure_def count counter_ok_def Let_def)
  moreover have "?c \<in> set (mm_get_values ?s)" using entry by (force simp: mm_get_values_def)
  moreover have "\<not> is_meter_expired now ttl ?c" using r(2) assms(4) by (simp add: is_meter_expired_def)
  ultimately have "measured (with_default_stat r_count i) (count_of R i) \<in> set (live_reports (is_meter_expired now ttl) counter_measure ?s)"
    by (force simp: live_reports_def)
  then show ?thesis by (simp add: all_reports_def)
qed

text \<open>
  C1. What clients count is published: for any sequence of datagrams, each of any number of counter lines that fit the receive
  buffer, whatever the buffer held before, a round of the publisher that follows within the life time of a meter posts, among
  its payloads, one that decodes, for every identity that was counted, to the sum of the numbers sent for it, added in the order
  of arrival to what was pending before, under that identity with its statistic and the common tags. The lines are those of
  the documented form whose value starts with a number (fractions included; negative ones are ignored). The sum is that of
  the machine's doubles; where the numbers are whole and their sum is at most 2^53 it is the exact sum. Sums
  that are not positive are not sent, and the identity of the counter that counts the lines themselves is left out. The
  payloads must fit the encoding and the batch size be positive.
\<close>

theorem counted_messages_are_published:
  assumes "counting S" and "list_all (dg_ok (length buf)) ds" and "list_all (\<lambda>d. t \<le> dg_time d) ds"
    and "i \<in> msg_id ` set (messages_of ds)" and "i \<noteq> parsed_id"
    and "v = fold added (numbers_for i (messages_of ds)) (count_of (sv_registry S) i)" and "dlt dpos0 v"
    and "now - t \<le> rg_meter_ttl (sv_registry S)" and "ages_defined now (rg_meters (sv_registry S))"
    and "0 < cf_batch_size (rg_config (sv_registry S))"
    and "iter_laws iter" and "tags_sane (pb_common_tags P)" and "replies_ok J post" and "\<And>xs. mset (order xs) = mset xs"
  shows "(\<exists>buf' S'. receive_all A steady ds buf S = Some (buf', S') \<and> counting S' \<and>
      (payload_fits iter (pb_common_tags P) (all_reports now (rg_meter_ttl (sv_registry S')) (rg_meters (sv_registry S'))) \<longrightarrow>
        (\<exists>payloads P' w' R' b. send_metrics iter J post order True now P w (sv_registry S') = Some (payloads, P', w', R') \<and>
          Some b \<in> read_payload ` set payloads \<and>
          published (pb_common_tags P) (measured (with_default_stat r_count i) v) \<in> set b))) \<and>
    (\<forall>p ks. count_of (sv_registry S) i = dint (int p) \<and> numbers_for i (messages_of ds) = map (\<lambda>k. dint (int k)) ks \<and>
      p + sum_list ks \<le> 2 ^ 53 \<longrightarrow> v = dint (int (p + sum_list ks)))"
proof (intro conjI allI impI)
  show "v = dint (int (p + sum_list ks))" if "count_of (sv_registry S) i = dint (int p) \<and>
      numbers_for i (messages_of ds) = map (\<lambda>k. dint (int k)) ks \<and> p + sum_list ks \<le> 2 ^ 53" for p ks
    using that sum_of_numbers [of i "messages_of ds" ks p] by (simp add: assms(6) numbers_for_def)
  define S' where "S' = fold counted_datagram ds S"
  obtain buf' where run: "receive_all A steady ds buf S = Some (buf', S')"
    using receive_all_counted [OF assms(2), of A steady S] by (auto simp: S'_def)
  have S': "counting S'" "count_of (sv_registry S') i = v" "touched_since t (sv_registry S') i" "same_others S S'"
    using datagrams_counted [OF assms(1-3,5)] assms(4) by (simp_all add: S'_def assms(6))
  let ?R = "sv_registry S'"
  let ?reports = "all_reports now (rg_meter_ttl ?R) (rg_meters ?R)"
  have R: "registry_inv ?R" using S' by (simp add: counting_def server_inv_def)
  have m: "measured (with_default_stat r_count i) v \<in> set ?reports" (is "?m \<in> _")
    using pending_count_reported [OF R _ S'(3), of now "rg_meter_ttl ?R"] S'(2,4) assms(7,8) by (simp add: same_others_def)
  have ages: "ages_defined now (rg_meters ?R)" "0 < cf_batch_size (rg_config ?R)"
    using assms(9,10) S'(4) by (simp_all add: ages_defined_def same_others_def)
  have "\<exists>payloads P' w' R' b. send_metrics iter J post order True now P w ?R = Some (payloads, P', w', R') \<and>
      Some b \<in> read_payload ` set payloads \<and> published (pb_common_tags P) ?m \<in> set b"
    if fits: "payload_fits iter (pb_common_tags P) ?reports"
  proof -
    obtain payloads P' w' R' bs where send: "send_metrics iter J post order True now P w ?R = Some (payloads, P', w', R')"
      and bs: "concat bs = ?reports"
      "mset (map read_payload payloads) = mset (map (\<lambda>b. Some (map (published (pb_common_tags P)) b)) bs)"
      using send_spec [OF R ages assms(11,12) fits assms(13,14), of w] by metis
    obtain b where b: "b \<in> set bs" "?m \<in> set b" using m bs(1) by (metis UN_E set_concat)
    have "Some (map (published (pb_common_tags P)) b) \<in> read_payload ` set payloads"
      using arg_cong [OF bs(2), of set_mset] b(1) by (simp add: image_iff) blast
    moreover have "published (pb_common_tags P) ?m \<in> set (map (published (pb_common_tags P)) b)" using b(2) by simp
    ultimately show ?thesis using send by blast
  qed
  with run S'(1) show "\<exists>buf' S'. receive_all A steady ds buf S = Some (buf', S') \<and> counting S' \<and>
      (payload_fits iter (pb_common_tags P) (all_reports now (rg_meter_ttl (sv_registry S')) (rg_meters (sv_registry S'))) \<longrightarrow>
        (\<exists>payloads P' w' R' b. send_metrics iter J post order True now P w (sv_registry S') = Some (payloads, P', w', R') \<and>
          Some b \<in> read_payload ` set payloads \<and> published (pb_common_tags P) ?m \<in> set b))" by blast
qed

text \<open>A client counts the same thing twice in a datagram, 40 and 2.\<close>

definition first_message :: message where
  "first_message = \<lparr>msg_name = ''requests'', msg_tags = [(''id'', ''x'')], msg_value = ''40''\<rparr>"

definition second_message :: message where
  "second_message = \<lparr>msg_name = ''requests'', msg_tags = [(''id'', ''x'')], msg_value = ''2''\<rparr>"

definition two_lines :: datagram where
  "two_lines = \<lparr>dg_time = 3, dg_messages = [first_message, second_message]\<rparr>"

definition plain_id :: "string \<Rightarrow> meter_id" where
  "plain_id name = \<lparr>id_name = name, id_tags = []\<rparr>"

definition requests_id :: meter_id where
  "requests_id = \<lparr>id_name = ''requests'', id_tags = [(''id'', ''x'')]\<rparr>"

definition sample_counters :: "(meter_id \<times> int \<times> int) list \<Rightarrow> counter meter_map" where
  \<comment> \<open>counters with their last update and their pending count\<close>
  "sample_counters cs =
     \<lparr>mm_objs = map (\<lambda>(i, t, n). \<lparr>mt_id = i, mt_updated = t, c_count_id = None, c_count = dint n\<rparr>) cs,
      mm_table = zip (map fst cs) [0..<length cs]\<rparr>"

lemma sample_ids:
  "id_of ''requests'' (intern_tags [(''id'', ''x'')]) = requests_id"
  "id_of ''spectatord.parsedCount'' [] = plain_id ''spectatord.parsedCount''"
  "id_of ''spectatord.parseErrors'' [] = plain_id ''spectatord.parseErrors''"
  by code_simp+

lemma distinct_ids:
  "requests_id \<noteq> plain_id name" "plain_id ''spectatord.parsedCount'' \<noteq> plain_id ''spectatord.parseErrors''"
  by (simp_all add: requests_id_def plain_id_def)

lemma message_numbers: "msg_number first_message = dint 40" "msg_number second_message = dint 2"
proof -
  have "show_nat 40 = ''40''" "show_nat 2 = ''2''" by code_simp+
  then show "msg_number first_message = dint 40" "msg_number second_message = dint 2"
    using strtod_show_nat [of 40] strtod_show_nat [of 2] by (simp_all add: msg_number_def first_message_def second_message_def)
qed

lemma counted_meters:
  assumes "cf_status_metrics_enabled (rg_config (sv_registry S))"
  shows "rg_meters (sv_registry (counted now m S)) = (rg_meters (sv_registry S))\<lparr>am_counters :=
      (let (r, s) = mm_insert (new_counter now (msg_id m)) (am_counters (rg_meters (sv_registry S)))
       in mm_update (sv_parsed_count S) (counter_increment now)
            (mm_update r (counter_add now (msg_number m)) s))\<rparr>"
    and "sv_parsed_count (counted now m S) = sv_parsed_count S"
  using assms by (simp_all add: counted_def count_line_def on_registry_def update_counter_def get_counter_def split_beta Let_def)

lemma sample_meters:
  "sv_parsed_count sample_server = 0" "rg_config (sv_registry sample_server) = sample_config 1"
  "rg_meter_ttl (sv_registry sample_server) = 900 * 10 ^ 9"
  by (simp_all add: new_server_def get_counter_def split_beta Let_def new_registry_def sample_ids mm_insert_def mm_alloc_def
     no_meters_def empty_map_def new_counter_def sample_config_def ns_durations_def int64_min_def int64_max_def del: One_nat_def)

lemma sample_registry_counters: "am_counters (rg_meters (sample_registry n)) = empty_map"
  by (simp add: new_registry_def no_meters_def split_beta Let_def)

lemma sample_meters2:
  "rg_meters (sv_registry sample_server) = (rg_meters (sample_registry 1))\<lparr>am_counters := sample_counters
     [(plain_id ''spectatord.parsedCount'', 0, 0), (plain_id ''spectatord.parseErrors'', 0, 0)]\<rparr>"
  by (simp add: new_server_def get_counter_def split_beta Let_def sample_registry_counters sample_ids mm_insert_def mm_alloc_def
     new_counter_def sample_counters_def distinct_ids distinct_ids [symmetric] dpos0_def empty_map_def del: One_nat_def)

lemma sample_sums:
  "to_double False 1 = Fin 1" "to_double False 2 = Fin 2" "to_double False 40 = Fin 40" "to_double False 42 = Fin 42"
  using dint_exact [of 1] dint_exact [of 2] dint_exact [of 40] dint_exact [of 42] by (simp_all add: dint_def)

lemma sample_status: "cf_status_metrics_enabled (sample_config n)"
  by (simp add: sample_config_def)

lemmas counted_eval = counted_meters sample_meters sample_meters2 sample_status only_counters_change
  mm_insert_def mm_alloc_def mm_update_def new_counter_def touch_def counter_increment_def counter_add_def dint_exact dpos0_def
  distinct_ids distinct_ids [symmetric] sample_ids sample_sums

lemma message_ids: "msg_id first_message = requests_id" "msg_id second_message = requests_id"
  by (simp_all add: msg_id_def first_message_def second_message_def sample_ids)

lemma after_first:
  "rg_meters (sv_registry (counted 3 first_message sample_server)) = (rg_meters (sample_registry 1))\<lparr>am_counters := sample_counters
     [(plain_id ''spectatord.parsedCount'', 3, 1), (plain_id ''spectatord.parseErrors'', 0, 0), (requests_id, 3, 40)]\<rparr>"
  by (simp add: counted_eval sample_counters_def message_ids message_numbers Let_def del: One_nat_def)

lemma after_second:
  "rg_meters (sv_registry (counted 3 second_message (counted 3 first_message sample_server))) = (rg_meters (sample_registry 1))\<lparr>am_counters := sample_counters
     [(plain_id ''spectatord.parsedCount'', 3, 2), (plain_id ''spectatord.parseErrors'', 0, 0), (requests_id, 3, 42)]\<rparr>"
  by (simp add: counted_eval after_first sample_counters_def message_ids message_numbers Let_def del: One_nat_def)

lemma two_messages_reports:
  "all_reports 5 (900 * 10 ^ 9) (rg_meters (sv_registry (counted 3 second_message (counted 3 first_message sample_server)))) =
   [measured (with_default_stat r_count (plain_id ''spectatord.parsedCount'')) (dint 2),
    measured (with_default_stat r_count requests_id) (dint 42)]"
  unfolding after_second
  by (simp add: all_reports_def no_meters_def live_reports_def mm_get_values_def empty_map_def sample_counters_def
      is_meter_expired_def counter_measure_def lazy_id_def Let_def dint_exact dpos0_def new_registry_def mm_insert_def
      mm_alloc_def dist_summary_measure_def new_dist_summary_def split_beta del: One_nat_def)

lemma sample_counting: "counting sample_server"
proof -
  have "mm_find (am_counters (rg_meters (sv_registry sample_server))) parsed_id = Some 0"
    by (simp add: sample_meters2 sample_ids mm_find_def sample_counters_def del: One_nat_def)
  then show ?thesis
    using server_inv_new [OF registry_inv_new, of 0 ns_durations 0 "sample_config 1"]
    by (simp add: counting_def sample_meters(1) del: One_nat_def)
qed

lemma datagram_ok: "dg_ok 65536 two_lines"
proof -
  have dg: "dg_text two_lines = ''c:requests,id=x:40'' @ CHR 0x0A # ''c:requests,id=x:2''"
    and l: "msg_line first_message = ''c:requests,id=x:40''" "msg_line second_message = ''c:requests,id=x:2''" by code_simp+
  have n: "name_ok ''requests''" "tags_ok [(''id'', ''x'')]" by (simp_all add: name_ok_def tags_ok_def key_ok_def NUL_def)
  have "show_nat 40 = ''40''" "show_nat 2 = ''2''" by code_simp+
  then have "snd (strtod ''40'') \<noteq> 0" "snd (strtod ''2'') \<noteq> 0"
    using strtod_show_nat [of 40] strtod_show_nat [of 2] by simp_all
  then have "msg_ok first_message" "msg_ok second_message"
    using n by (simp_all add: msg_ok_def l) (simp_all add: first_message_def second_message_def NUL_def)
  then show ?thesis by (simp add: dg_ok_def dg) (simp add: two_lines_def)
qed

lemma stat_ids:
  "with_default_stat r_count requests_id = \<lparr>id_name = ''requests'', id_tags = [(''id'', ''x''), (''statistic'', ''count'')]\<rparr>"
  "with_default_stat r_count (plain_id ''spectatord.parsedCount'') =
     \<lparr>id_name = ''spectatord.parsedCount'', id_tags = [(''statistic'', ''count'')]\<rparr>"
  by code_simp+

theorem counted_messages_are_published_witness:
  "\<exists>buf' S' payloads P' w' R' b. receive_all ns_durations 0 [two_lines] recv_buffer sample_server = Some (buf', S') \<and>
    send_metrics remdups five_errors (\<lambda>p s. (\<lparr>hr_status = 200, hr_body = [], hr_headers = []\<rparr>, s)) rev True 5
      \<lparr>pb_common_tags = [], pb_sent = 1, pb_invalid = 2, pb_dropped_http = 3, pb_dropped_other = 4, pb_last_success = 0\<rparr> ()
      (sv_registry S') = Some (payloads, P', w', R') \<and> Some b \<in> read_payload ` set payloads \<and>
    ([(''id'', ''x''), (''statistic'', ''count''), (''name'', ''requests'')], op_from_tags [(''id'', ''x''), (''statistic'', ''count'')],
      dint 42) \<in> set b"
proof -
  let ?ds = "[two_lines]" and ?i = requests_id
  let ?P = "\<lparr>pb_common_tags = [], pb_sent = 1, pb_invalid = 2, pb_dropped_http = 3, pb_dropped_other = 4, pb_last_success = 0\<rparr>"
  let ?post = "\<lambda>p s. (\<lparr>hr_status = 200, hr_body = [], hr_headers = []\<rparr>, s)"
  have all: "messages_of ?ds = [first_message, second_message]" by (simp add: messages_of_def two_lines_def)
  have ok: "list_all (dg_ok (length recv_buffer)) ?ds" using datagram_ok by (simp add: recv_buffer_def kRecvBuffer_def)
  have times: "list_all (\<lambda>d. 3 \<le> dg_time d) ?ds" by (simp add: two_lines_def)
  have count: "count_of (sv_registry sample_server) ?i = dint (int 0)"
    by (simp add: count_of_def sample_meters2 sample_counters_def mm_find_def distinct_ids [symmetric] distinct_ids dpos0_def del: One_nat_def)
  have ages: "ages_defined 5 (rg_meters (sv_registry sample_server))"
    unfolding sample_meters2
    by (simp add: ages_defined_def new_registry_def no_meters_def mm_get_values_def empty_map_def split_beta Let_def)
  have iter: "iter_laws remdups" by (simp add: iter_laws_def)
  have "fold added (numbers_for ?i (messages_of ?ds)) (count_of (sv_registry sample_server) ?i) = dint (int (0 + sum_list [40, 2]))"
    unfolding count by (rule sum_of_numbers) (simp_all add: all message_ids message_numbers)
  then have sum: "dint 42 = fold added (numbers_for ?i (messages_of ?ds)) (count_of (sv_registry sample_server) ?i)" "dlt dpos0 (dint 42)"
    using dlt_dint_pos0(2) [of 42] by simp_all
  have ttl0: "5 - 3 \<le> rg_meter_ttl (sv_registry sample_server)" "0 < cf_batch_size (rg_config (sv_registry sample_server))"
    unfolding sample_meters by (simp_all add: sample_config_def)
  have others: "?i \<in> msg_id ` set (messages_of ?ds)" "?i \<noteq> parsed_id" "tags_sane (pb_common_tags ?P)"
    "mset (rev xs) = mset xs" for xs :: "(nat \<times> byte list) list"
    by (simp_all add: all message_ids sample_ids distinct_ids tags_sane_def)
  obtain buf' S' where run: "receive_all ns_durations 0 ?ds recv_buffer sample_server = Some (buf', S')"
    and sent: "payload_fits remdups (pb_common_tags ?P) (all_reports 5 (rg_meter_ttl (sv_registry S')) (rg_meters (sv_registry S'))) \<longrightarrow>
      (\<exists>payloads P' w' R' b. send_metrics remdups five_errors ?post rev True 5 ?P () (sv_registry S') = Some (payloads, P', w', R') \<and>
        Some b \<in> read_payload ` set payloads \<and>
        published (pb_common_tags ?P) (measured (with_default_stat r_count ?i) (dint 42)) \<in> set b)"
    using counted_messages_are_published [OF sample_counting ok times others(1,2) sum ttl0(1) ages ttl0(2) iter
        others(3) five_errors_replies others(4), of ns_durations 0 ?post "()"] by blast
  have S': "S' = counted 3 second_message (counted 3 first_message sample_server)"
    using receive_all_counted [OF ok, of ns_durations 0 sample_server] run by (auto simp: counted_datagram_def two_lines_def)
  have ttl: "rg_meter_ttl (sv_registry S') = 900 * 10 ^ 9" by (simp only: S' only_counters_change sample_meters)
  have "wf_double (dint 2)" "wf_double (dint 42)" by simp_all
  then have "payload_fits remdups (pb_common_tags ?P) (all_reports 5 (rg_meter_ttl (sv_registry S')) (rg_meters (sv_registry S')))"
    unfolding ttl unfolding S' unfolding two_messages_reports by (simp add: payload_fits_def stat_ids payload_strings_def)
  moreover have "published (pb_common_tags ?P) (measured (with_default_stat r_count ?i) (dint 42)) =
      ([(''id'', ''x''), (''statistic'', ''count''), (''name'', ''requests'')], op_from_tags [(''id'', ''x''), (''statistic'', ''count'')],
       dint 42)"
    by (simp add: published_def stat_ids r_name_def)
  ultimately show ?thesis using sent run by metis
qed

end
