(* ===== verification/SenderPool.thy ===== *)
theory SenderPool
  imports Publisher
begin

text \<open>
  The tasks of \<open>send_metrics\<close> (\<open>spectator/publisher.h\<close>) on the thread pool: one task per batch, as many
  threads as payload buffers, a stack of free buffers and the list of responses, each under its
  mutex, and the counter that the sender waits for. Every step below is one critical section or one
  action outside of them, so that the runs of the relation are the interleavings of the threads.
\<close>

section \<open>The pool\<close>

datatype ('m, 'a) phase =
    Idle
  | Began "'m list"
  | Holding "'m list" nat
  | Written "'m list" nat
  | Answered "'m list" nat 'a
  | Recorded nat
  | Returned

record ('m, 'p, 'a) senders =
  sp_queue :: "'m list list"         \<comment> \<open>posted to the pool and not started\<close>
  sp_avail :: "nat list"             \<comment> \<open>\<open>avail_buffers\<close>, the back at the end\<close>
  sp_threads :: "('m, 'a) phase list"
  sp_buffers :: "'p list"            \<comment> \<open>\<open>buffers_\<close>\<close>
  sp_responses :: "(nat \<times> 'a) list"
  sp_todo :: int                     \<comment> \<open>\<open>batches_to_do\<close>\<close>

definition num_sender_threads :: "nat \<Rightarrow> nat" where
  "num_sender_threads hardware_concurrency = min 8 hardware_concurrency"

definition new_senders :: "nat \<Rightarrow> 'p \<Rightarrow> 'm list list \<Rightarrow> ('m, 'p, 'a) senders" where
  "new_senders n blank bs = \<lparr>sp_queue = bs, sp_avail = [0..<n], sp_threads = replicate n Idle,
     sp_buffers = replicate n blank, sp_responses = [], sp_todo = int (length bs)\<rparr>"

inductive pool_step :: "('m list \<Rightarrow> 'p) \<Rightarrow> ('p \<Rightarrow> 'a) \<Rightarrow> ('m, 'p, 'a) senders \<Rightarrow> ('m, 'p, 'a) senders \<Rightarrow> bool" for enc post where
  begin_task: "i < length (sp_threads s) \<Longrightarrow> sp_threads s ! i = Idle \<Longrightarrow> sp_queue s = b # q \<Longrightarrow>
    pool_step enc post s (s\<lparr>sp_threads := (sp_threads s)[i := Began b], sp_queue := q\<rparr>)"
| acquire: "i < length (sp_threads s) \<Longrightarrow> sp_threads s ! i = Began b \<Longrightarrow> sp_avail s \<noteq> [] \<Longrightarrow>
    pool_step enc post s (s\<lparr>sp_threads := (sp_threads s)[i := Holding b (last (sp_avail s))],
      sp_avail := butlast (sp_avail s)\<rparr>)"
| encode: "i < length (sp_threads s) \<Longrightarrow> sp_threads s ! i = Holding b k \<Longrightarrow>
    pool_step enc post s (s\<lparr>sp_threads := (sp_threads s)[i := Written b k],
      sp_buffers := (sp_buffers s)[k := enc b]\<rparr>)"
| send: "i < length (sp_threads s) \<Longrightarrow> sp_threads s ! i = Written b k \<Longrightarrow>
    pool_step enc post s (s\<lparr>sp_threads := (sp_threads s)[i := Answered b k (post (sp_buffers s ! k))]\<rparr>)"
| record_response: "i < length (sp_threads s) \<Longrightarrow> sp_threads s ! i = Answered b k a \<Longrightarrow>
    pool_step enc post s (s\<lparr>sp_threads := (sp_threads s)[i := Recorded k],
      sp_responses := sp_responses s @ [(length b, a)]\<rparr>)"
| release: "i < length (sp_threads s) \<Longrightarrow> sp_threads s ! i = Recorded k \<Longrightarrow>
    pool_step enc post s (s\<lparr>sp_threads := (sp_threads s)[i := Returned], sp_avail := sp_avail s @ [k]\<rparr>)"
| finish: "i < length (sp_threads s) \<Longrightarrow> sp_threads s ! i = Returned \<Longrightarrow>
    pool_step enc post s (s\<lparr>sp_threads := (sp_threads s)[i := Idle], sp_todo := sp_todo s - 1\<rparr>)"

definition pool_fault :: "('m, 'p, 'a) senders \<Rightarrow> bool" where
  \<comment> \<open>a thread takes the back of an empty vector\<close>
  "pool_fault s \<longleftrightarrow> (\<exists>b. Began b \<in> set (sp_threads s)) \<and> sp_avail s = []"

inductive pool_run :: "('m list \<Rightarrow> 'p) \<Rightarrow> ('p \<Rightarrow> 'a) \<Rightarrow> ('m, 'p, 'a) senders \<Rightarrow> ('m, 'p, 'a) senders \<Rightarrow> bool" for enc post where
  refl: "pool_run enc post s s"
| step: "pool_run enc post s t \<Longrightarrow> pool_step enc post t u \<Longrightarrow> pool_run enc post s u"

section \<open>Invariant\<close>

primrec held :: "('m, 'a) phase \<Rightarrow> nat list" where
  "held Idle = []"
| "held (Began b) = []"
| "held (Holding b k) = [k]"
| "held (Written b k) = [k]"
| "held (Answered b k a) = [k]"
| "held (Recorded k) = [k]"
| "held Returned = []"

primrec unanswered :: "('m, 'a) phase \<Rightarrow> 'm list list" where
  "unanswered Idle = []"
| "unanswered (Began b) = [b]"
| "unanswered (Holding b k) = [b]"
| "unanswered (Written b k) = [b]"
| "unanswered (Answered b k a) = [b]"
| "unanswered (Recorded k) = []"
| "unanswered Returned = []"

primrec busy :: "('m, 'a) phase \<Rightarrow> unit list" where
  "busy Idle = []"
| "busy (Began b) = [()]"
| "busy (Holding b k) = [()]"
| "busy (Written b k) = [()]"
| "busy (Answered b k a) = [()]"
| "busy (Recorded k) = [()]"
| "busy Returned = [()]"

primrec rank :: "('m, 'a) phase \<Rightarrow> unit list" where
  \<comment> \<open>the steps that are left of the task\<close>
  "rank Idle = []"
| "rank (Began b) = replicate 6 ()"
| "rank (Holding b k) = replicate 5 ()"
| "rank (Written b k) = replicate 4 ()"
| "rank (Answered b k a) = replicate 3 ()"
| "rank (Recorded k) = replicate 2 ()"
| "rank Returned = [()]"

definition over :: "(('m, 'a) phase \<Rightarrow> 'c list) \<Rightarrow> ('m, 'a) phase list \<Rightarrow> 'c multiset" where
  "over f ts = mset (concat (map f ts))"

lemma over_split:
  assumes "i < length ts" and "ts ! i = p"
  shows "over f ts = mset (f p) + over f (take i ts @ drop (Suc i) ts)"
    "over f (ts[i := x]) = mset (f x) + over f (take i ts @ drop (Suc i) ts)"
    "list_all P ts \<longleftrightarrow> P p \<and> list_all P (take i ts @ drop (Suc i) ts)"
    "list_all P (ts[i := x]) \<longleftrightarrow> P x \<and> list_all P (take i ts @ drop (Suc i) ts)"
proof -
  have ts: "ts = take i ts @ p # drop (Suc i) ts" using id_take_nth_drop [OF assms(1)] assms(2) by simp
  have "over f (take i ts @ p # drop (Suc i) ts) = mset (f p) + over f (take i ts @ drop (Suc i) ts)"
    by (simp add: over_def)
  then show "over f ts = mset (f p) + over f (take i ts @ drop (Suc i) ts)" using ts by simp
  show "over f (ts[i := x]) = mset (f x) + over f (take i ts @ drop (Suc i) ts)"
    using assms(1) by (simp add: over_def upd_conv_take_nth_drop)
  have "list_all P (take i ts @ p # drop (Suc i) ts) \<longleftrightarrow> P p \<and> list_all P (take i ts @ drop (Suc i) ts)" by auto
  then show "list_all P ts \<longleftrightarrow> P p \<and> list_all P (take i ts @ drop (Suc i) ts)" using ts by simp
  show "list_all P (ts[i := x]) \<longleftrightarrow> P x \<and> list_all P (take i ts @ drop (Suc i) ts)"
    using assms(1) by (auto simp: upd_conv_take_nth_drop)
qed

fun phase_ok :: "('m list \<Rightarrow> 'p) \<Rightarrow> ('p \<Rightarrow> 'a) \<Rightarrow> 'p list \<Rightarrow> ('m, 'a) phase \<Rightarrow> bool" where
  "phase_ok enc post bufs (Written b k) \<longleftrightarrow> bufs ! k = enc b"
| "phase_ok enc post bufs (Answered b k a) \<longleftrightarrow> a = post (enc b)"
| "phase_ok enc post bufs _ \<longleftrightarrow> True"

definition answer_of :: "('m list \<Rightarrow> 'p) \<Rightarrow> ('p \<Rightarrow> 'a) \<Rightarrow> 'm list \<Rightarrow> nat \<times> 'a" where
  "answer_of enc post b = (length b, post (enc b))"

definition senders_inv :: "('m list \<Rightarrow> 'p) \<Rightarrow> ('p \<Rightarrow> 'a) \<Rightarrow> nat \<Rightarrow> 'm list list \<Rightarrow> ('m, 'p, 'a) senders \<Rightarrow> bool" where
  "senders_inv enc post n bs s \<longleftrightarrow> length (sp_threads s) = n \<and> length (sp_buffers s) = n \<and>
     over held (sp_threads s) + mset (sp_avail s) = mset [0..<n] \<and>
     list_all (phase_ok enc post (sp_buffers s)) (sp_threads s) \<and>
     image_mset (answer_of enc post) (mset (sp_queue s) + over unanswered (sp_threads s)) + mset (sp_responses s) =
       image_mset (answer_of enc post) (mset bs) \<and>
     sp_todo s = int (length (sp_queue s) + size (over busy (sp_threads s)))"

lemma senders_inv_new: "senders_inv enc post n bs (new_senders n blank bs)"
  by (simp add: senders_inv_def new_senders_def over_def list_all_iff)

lemma phase_ok_other:
  "k \<notin># over held ts \<Longrightarrow> list_all (phase_ok enc post bufs) ts \<Longrightarrow> list_all (phase_ok enc post (bufs[k := x])) ts"
proof (induction ts)
  case Nil
  then show ?case by simp
next
  case (Cons p ts)
  then show ?case by (cases p) (auto simp: over_def)
qed

lemma single_buffer: "add_mset k M = mset [0..<n] \<Longrightarrow> k < n \<and> k \<notin># M"
proof -
  assume m: "add_mset k M = mset [0..<n]"
  then have "k \<in> set [0..<n]" by (metis set_mset_mset union_single_eq_member)
  moreover have "count (mset [0..<n]) k \<le> 1" using distinct_count_atmost_1 [of "[0..<n]"] by auto
  then have "count M k = 0" using m [symmetric] by simp
  ultimately show ?thesis by (simp add: not_in_iff)
qed

lemma senders_inv_step:
  assumes "senders_inv enc post n bs s" and "pool_step enc post s t"
  shows "senders_inv enc post n bs t"
  using assms(2)
proof cases
  case (begin_task i b q)
  then show ?thesis using assms(1) by (simp add: senders_inv_def over_split [OF begin_task(2,3)])
next
  case (acquire i b)
  have "mset (sp_avail s) = add_mset (last (sp_avail s)) (mset (butlast (sp_avail s)))"
    using append_butlast_last_id [OF acquire(4)] by (metis mset.simps(2) mset_append add_mset_add_single union_mset_add_mset_right mset.simps(1) add_0_right)
  then show ?thesis using acquire(1) assms(1) by (simp add: senders_inv_def over_split [OF acquire(2,3)])
next
  case (encode i b k)
  have inv: "add_mset k (over held (take i (sp_threads s) @ drop (Suc i) (sp_threads s)) + mset (sp_avail s)) = mset [0..<n]"
    using assms(1) by (simp add: senders_inv_def over_split [OF encode(2,3)])
  from single_buffer [OF this] have k: "k < n" "k \<notin># over held (take i (sp_threads s) @ drop (Suc i) (sp_threads s))"
    by auto
  have "list_all (phase_ok enc post (sp_buffers s)) (take i (sp_threads s) @ drop (Suc i) (sp_threads s))"
    using assms(1) by (simp add: senders_inv_def over_split [OF encode(2,3)])
  from phase_ok_other [OF k(2) this, of "enc b"] show ?thesis
    using encode(1) assms(1) k(1) by (simp add: senders_inv_def over_split [OF encode(2,3)])
next
  case (send i b k)
  then show ?thesis using assms(1) by (simp add: senders_inv_def over_split [OF send(2,3)])
next
  case (record_response i b k a)
  then show ?thesis using assms(1) by (simp add: senders_inv_def over_split [OF record_response(2,3)] answer_of_def)
next
  case (release i k)
  then show ?thesis using assms(1) by (simp add: senders_inv_def over_split [OF release(2,3)])
next
  case (finish i)
  then show ?thesis using assms(1) by (simp add: senders_inv_def over_split [OF finish(2,3)])
qed

lemma senders_inv_run: "pool_run enc post s t \<Longrightarrow> senders_inv enc post n bs s \<Longrightarrow> senders_inv enc post n bs t"
  by (induction rule: pool_run.induct) (auto intro: senders_inv_step)

section \<open>The buffers suffice\<close>

lemma held_bound: "length (held p) \<le> 1"
  by (cases p) simp_all

lemma over_held_bound: "size (over held ts) \<le> length ts"
proof (induction ts)
  case Nil
  then show ?case by (simp add: over_def)
next
  case (Cons p ts)
  then show ?case using held_bound [of p] by (simp add: over_def)
qed

lemma pool_no_fault: "senders_inv enc post n bs s \<Longrightarrow> \<not> pool_fault s"
proof
  assume inv: "senders_inv enc post n bs s" and "pool_fault s"
  then obtain b i where i: "i < length (sp_threads s)" "sp_threads s ! i = Began b" and e: "sp_avail s = []"
    by (auto simp: pool_fault_def in_set_conv_nth)
  have "size (over held (sp_threads s)) = n" using inv e by (simp add: senders_inv_def)
  moreover have "size (over held (sp_threads s)) \<le> length (take i (sp_threads s) @ drop (Suc i) (sp_threads s))"
    using over_held_bound [of "take i (sp_threads s) @ drop (Suc i) (sp_threads s)"]
    unfolding over_split(1) [OF i] by simp
  ultimately show False using inv i(1) by (simp add: senders_inv_def)
qed

section \<open>The wait ends\<close>

definition work :: "('m, 'p, 'a) senders \<Rightarrow> nat" where
  "work s = 7 * length (sp_queue s) + size (over rank (sp_threads s))"

lemma pool_step_work: "pool_step enc post s t \<Longrightarrow> work t < work s"
  by (erule pool_step.cases) (simp_all add: work_def over_split(1,2))

lemma pool_progress:
  assumes "senders_inv enc post n bs s" and "0 < n" and "sp_todo s \<noteq> 0"
  shows "\<exists>t. pool_step enc post s t"
proof (cases "\<exists>i < length (sp_threads s). sp_threads s ! i \<noteq> Idle")
  case True
  then obtain i where i: "i < length (sp_threads s)" "sp_threads s ! i \<noteq> Idle" by blast
  have "sp_avail s \<noteq> []" if "sp_threads s ! i = Began b" for b
    using pool_no_fault [OF assms(1)] that i(1) nth_mem [OF i(1)] by (fastforce simp: pool_fault_def)
  then show ?thesis using i by (cases "sp_threads s ! i") (blast intro: pool_step.intros)+
next
  case False
  then have idle: "\<forall>p \<in> set (sp_threads s). p = Idle" by (auto simp: in_set_conv_nth)
  then have "concat (map busy (sp_threads s)) = []" by auto
  then have "over busy (sp_threads s) = {#}" by (simp add: over_def)
  then have "sp_queue s \<noteq> []" using assms(1,3) by (auto simp: senders_inv_def)
  then obtain b q where "sp_queue s = b # q" by (cases "sp_queue s") auto
  moreover have "0 < length (sp_threads s)" "sp_threads s ! 0 = Idle" using assms(1,2) idle by (auto simp: senders_inv_def)
  ultimately show ?thesis by (blast intro: pool_step.begin_task)
qed

lemma pool_stuck: "pool_run enc post s t \<Longrightarrow> sp_threads s = [] \<Longrightarrow> t = s"
  by (induction rule: pool_run.induct) (auto elim: pool_step.cases)

lemma busy_unanswered: "busy p = [] \<Longrightarrow> unanswered p = []"
  by (cases p) simp_all

lemma pool_done:
  assumes "senders_inv enc post n bs s" and "sp_todo s = 0"
  shows "mset (sp_responses s) = mset (map (answer_of enc post) bs)"
proof -
  have "length (sp_queue s) + length (concat (map busy (sp_threads s))) = 0"
    using assms unfolding senders_inv_def over_def size_mset by linarith
  then have q: "sp_queue s = []" "concat (map busy (sp_threads s)) = []" by simp_all
  then have "concat (map unanswered (sp_threads s)) = []" using busy_unanswered by auto
  then have "over unanswered (sp_threads s) = {#}" unfolding over_def by (simp only: mset.simps)
  then show ?thesis using assms(1) q(1) by (simp add: senders_inv_def)
qed

text \<open>
  C15. However the threads of the pool interleave, the senders work: no thread ever finds the stack of
  free buffers empty, no buffer is in two hands, and what is posted for a batch is the payload of that
  batch. Every step brings the end nearer and, with at least one thread, there is a step until the counter is zero;
  then every batch has exactly one response. Without threads (the hardware concurrency is unknown) the sender waits forever.
\<close>

theorem senders_answer_every_batch_once:
  assumes "pool_run enc post (new_senders n blank bs) s"
  shows "\<not> pool_fault s \<and> over held (sp_threads s) + mset (sp_avail s) = mset [0..<n] \<and>
    list_all (phase_ok enc post (sp_buffers s)) (sp_threads s) \<and>
    (\<forall>t. pool_step enc post s t \<longrightarrow> work t < work s) \<and>
    (0 < n \<and> sp_todo s \<noteq> 0 \<longrightarrow> (\<exists>t. pool_step enc post s t)) \<and>
    (sp_todo s = 0 \<longrightarrow> mset (sp_responses s) = mset (map (answer_of enc post) bs)) \<and>
    (n = 0 \<and> bs \<noteq> [] \<longrightarrow> sp_todo s \<noteq> 0)"
proof -
  have inv: "senders_inv enc post n bs s" by (rule senders_inv_run [OF assms senders_inv_new])
  have "n = 0 \<Longrightarrow> s = new_senders n blank bs" using pool_stuck [OF assms] by (simp add: new_senders_def)
  then have "n = 0 \<and> bs \<noteq> [] \<longrightarrow> sp_todo s \<noteq> 0" by (auto simp: new_senders_def)
  then show ?thesis
    using inv pool_no_fault [OF inv] pool_step_work [of enc post s] pool_progress [OF inv] pool_done [OF inv]
    by (auto simp: senders_inv_def)
qed

text \<open>One thread and one batch.\<close>

theorem senders_answer_every_batch_once_witness:
  "\<exists>s. pool_run length (\<lambda>p. p + 1) (new_senders 1 0 [[7, 8 :: int]]) s \<and> sp_responses s = [(2, 3)]"
proof -
  let ?run = "pool_run length (\<lambda>p. p + 1) (new_senders 1 0 [[7, 8 :: int]])"
  let ?fin = "\<lparr>sp_queue = [], sp_avail = [0], sp_threads = [Idle], sp_buffers = [2 :: nat],
      sp_responses = [(2, 3)], sp_todo = 0\<rparr> :: (int, nat, nat) senders"
  note go = pool_run.step
  have "?run \<lparr>sp_queue = [[7, 8]], sp_avail = [0], sp_threads = [Idle], sp_buffers = [0], sp_responses = [], sp_todo = 1\<rparr>"
    using pool_run.refl [of length "\<lambda>p. p + 1" "new_senders 1 0 [[7, 8 :: int]]"] by (simp add: new_senders_def)
  from go [OF this pool_step.begin_task [of 0]]
  have "?run \<lparr>sp_queue = [], sp_avail = [0], sp_threads = [Began [7, 8]], sp_buffers = [0], sp_responses = [], sp_todo = 1\<rparr>"
    by simp
  from go [OF this pool_step.acquire [of 0]]
  have "?run \<lparr>sp_queue = [], sp_avail = [], sp_threads = [Holding [7, 8] 0], sp_buffers = [0], sp_responses = [], sp_todo = 1\<rparr>"
    by simp
  from go [OF this pool_step.encode [of 0]]
  have "?run \<lparr>sp_queue = [], sp_avail = [], sp_threads = [Written [7, 8] 0], sp_buffers = [2], sp_responses = [], sp_todo = 1\<rparr>"
    by (simp add: numeral_2_eq_2)
  from go [OF this pool_step.send [of 0]]
  have "?run \<lparr>sp_queue = [], sp_avail = [], sp_threads = [Answered [7, 8] 0 3], sp_buffers = [2], sp_responses = [], sp_todo = 1\<rparr>"
    by simp
  from go [OF this pool_step.record_response [of 0]]
  have "?run \<lparr>sp_queue = [], sp_avail = [], sp_threads = [Recorded 0], sp_buffers = [2], sp_responses = [(2, 3)], sp_todo = 1\<rparr>"
    by (simp add: numeral_2_eq_2)
  from go [OF this pool_step.release [of 0]]
  have "?run \<lparr>sp_queue = [], sp_avail = [0], sp_threads = [Returned], sp_buffers = [2], sp_responses = [(2, 3)], sp_todo = 1\<rparr>"
    by simp
  from go [OF this pool_step.finish [of 0]] have run: "?run ?fin" by simp
  from senders_answer_every_batch_once [OF this]
  have "mset (sp_responses ?fin) = mset (map (answer_of length (\<lambda>p. p + 1)) [[7, 8 :: int]])" by simp
  with run show ?thesis by (intro exI [of _ ?fin]) simp
qed

end
