(* ===== verification/Lifecycle.thy ===== *)
theory Lifecycle
  imports Prelude
begin

text \<open>
  Starting and stopping: \<open>Publisher::Start\<close>, \<open>Stop\<close> and the loop of its thread
  (\<open>spectator/publisher.h\<close>), \<open>Registry::Start\<close>, \<open>Stop\<close> and the loop of the expirer
  (\<open>spectator/registry.cc\<close>), and the global state of curl (\<open>spectator/http_client.cc\<close>). A thread
  is a state of its handle; what the loops do in an iteration is counted here and modelled elsewhere.
\<close>

section \<open>State and operations\<close>

datatype thread = No_thread | Running | Finished

definition joinable :: "thread \<Rightarrow> bool" where
  "joinable t \<longleftrightarrow> t \<noteq> No_thread"

record life_config =
  lc_uri :: string
  lc_batch_size :: int
  lc_expires :: bool   \<comment> \<open>the expiration frequency is not zero\<close>

record life =
  lf_started :: bool
  lf_http_initialized :: bool
  lf_should_stop :: bool
  lf_sender :: thread
  lf_sends :: nat         \<comment> \<open>calls of \<open>send_metrics\<close> by the loop\<close>
  lf_flushes :: nat       \<comment> \<open>and by \<open>Stop\<close>\<close>
  lf_curl_init :: bool    \<comment> \<open>the static variables of \<open>GlobalInit\<close> and \<open>GlobalShutdown\<close>\<close>
  lf_curl_shutdown :: bool
  lf_expirer_stop :: bool \<comment> \<open>\<open>Registry::should_stop_\<close>\<close>
  lf_expirer :: thread
  lf_sweeps :: nat

definition new_life :: life where
  "new_life = \<lparr>lf_started = False, lf_http_initialized = False, lf_should_stop = False, lf_sender = No_thread,
     lf_sends = 0, lf_flushes = 0, lf_curl_init = False, lf_curl_shutdown = False, lf_expirer_stop = True,
     lf_expirer = No_thread, lf_sweeps = 0\<rparr>"

definition global_init :: "life \<Rightarrow> life" where
  "global_init s = (if lf_curl_init s then s else s\<lparr>lf_curl_init := True\<rparr>)"

definition global_shutdown :: "life \<Rightarrow> life" where
  "global_shutdown s = (if lf_curl_shutdown s then s else s\<lparr>lf_curl_shutdown := True\<rparr>)"

definition publisher_start :: "life_config \<Rightarrow> life \<Rightarrow> bool \<times> life" where
  \<comment> \<open>\<open>False\<close>: the exception \<open>std::invalid_argument\<close>, or the end of the process because a thread is
    assigned to a handle that is still joinable\<close>
  "publisher_start C s =
     (let s1 = (if lf_http_initialized s then s else global_init (s\<lparr>lf_http_initialized := True\<rparr>))
      in if lc_uri C = [] then (True, s1)
         else if lf_started s1 then (True, s1)
         else let s2 = s1\<lparr>lf_started := True\<rparr>
              in if lc_batch_size C \<le> 0 \<or> joinable (lf_sender s2) then (False, s2) else (True, s2\<lparr>lf_sender := Running\<rparr>))"

definition publisher_stop :: "life \<Rightarrow> life option" where
  \<comment> \<open>\<open>None\<close>: \<open>join\<close> throws, the thread is not joinable\<close>
  "publisher_stop s =
     (let s1 = (if lf_started s
                then if joinable (lf_sender s)
                     then Some (s\<lparr>lf_started := False, lf_should_stop := True, lf_sender := No_thread,
                                  lf_flushes := lf_flushes s + 1\<rparr>)
                     else None
                else Some s)
      in map_option (\<lambda>s2. if lf_http_initialized s2 then global_shutdown (s2\<lparr>lf_http_initialized := False\<rparr>) else s2) s1)"

definition registry_start :: "life_config \<Rightarrow> life \<Rightarrow> life option" where
  \<comment> \<open>\<open>None\<close>: an exception leaves a function that is \<open>noexcept\<close>\<close>
  "registry_start C s =
     (let (ok, s1) = publisher_start C s
      in if \<not> ok then None
         else if \<not> lf_expirer_stop s1 then Some s1
         else if joinable (lf_expirer s1) then None
         else Some (s1\<lparr>lf_expirer_stop := False, lf_expirer := Running\<rparr>))"

definition registry_stop :: "life \<Rightarrow> life option" where
  "registry_stop s = (case publisher_stop s of
     None \<Rightarrow> None
   | Some s1 \<Rightarrow>
       if lf_expirer_stop s1 then Some s1
       else if joinable (lf_expirer s1) then Some (s1\<lparr>lf_expirer_stop := True, lf_expirer := No_thread\<rparr>)
       else None)"

section \<open>The threads\<close>

definition sender_turn :: "life \<Rightarrow> life" where
  \<comment> \<open>one turn of \<open>Publisher::sender\<close>\<close>
  "sender_turn s = (if lf_should_stop s then s\<lparr>lf_sender := Finished\<rparr> else s\<lparr>lf_sends := lf_sends s + 1\<rparr>)"

definition expirer_turn :: "life_config \<Rightarrow> life \<Rightarrow> life" where
  \<comment> \<open>one turn of \<open>Registry::expirer\<close>\<close>
  "expirer_turn C s = (if \<not> lc_expires C \<or> lf_expirer_stop s then s\<lparr>lf_expirer := Finished\<rparr>
     else s\<lparr>lf_sweeps := lf_sweeps s + 1\<rparr>)"

inductive life_step :: "life_config \<Rightarrow> life \<Rightarrow> life \<Rightarrow> bool" for C where
  start: "registry_start C s = Some s' \<Longrightarrow> life_step C s s'"
| stop: "registry_stop s = Some s' \<Longrightarrow> life_step C s s'"
| send: "lf_sender s = Running \<Longrightarrow> life_step C s (sender_turn s)"
| sweep: "lf_expirer s = Running \<Longrightarrow> life_step C s (expirer_turn C s)"

inductive life_steps :: "life_config \<Rightarrow> life \<Rightarrow> life \<Rightarrow> bool" for C where
  refl: "life_steps C s s"
| step: "life_steps C s t \<Longrightarrow> life_step C t u \<Longrightarrow> life_steps C s u"

inductive_cases life_stepE: "life_step C s s'"

section \<open>Invariant\<close>

definition life_inv :: "life \<Rightarrow> bool" where
  "life_inv s \<longleftrightarrow> (lf_started s \<longleftrightarrow> lf_sender s \<noteq> No_thread) \<and> (lf_expirer_stop s \<longleftrightarrow> lf_expirer s = No_thread) \<and>
     (lf_sender s = Finished \<longrightarrow> lf_should_stop s) \<and> (lf_started s \<longrightarrow> lf_http_initialized s) \<and>
     (lf_http_initialized s \<longrightarrow> lf_curl_init s)"

lemmas life_defs = registry_start_def registry_stop_def publisher_start_def publisher_stop_def sender_turn_def
  expirer_turn_def global_init_def global_shutdown_def joinable_def

lemma life_inv_step: "life_step C s s' \<Longrightarrow> life_inv s \<Longrightarrow> life_inv s'"
  by (erule life_stepE) (auto simp: life_inv_def life_defs Let_def split: if_splits option.splits prod.splits)

lemma life_inv_steps: "life_steps C s s' \<Longrightarrow> life_inv s \<Longrightarrow> life_inv s'"
  by (induction rule: life_steps.induct) (auto intro: life_inv_step)

lemma life_inv_new: "life_inv new_life"
  by (simp add: life_inv_def new_life_def)

lemma stop_is_final_step:
  "life_step C s s' \<Longrightarrow> lf_should_stop s \<Longrightarrow> lf_should_stop s' \<and> lf_sends s' = lf_sends s"
  by (erule life_stepE) (auto simp: life_defs Let_def split: if_splits option.splits prod.splits)

lemma invalid_step:
  "life_step C s s' \<Longrightarrow> lc_batch_size C \<le> 0 \<Longrightarrow> lc_uri C \<noteq> [] \<Longrightarrow> \<not> lf_started s \<Longrightarrow> \<not> lf_started s'"
  by (erule life_stepE) (auto simp: life_defs Let_def split: if_splits option.splits prod.splits)

lemma invalid_never_started:
  assumes "life_steps C s s'" and "lc_batch_size C \<le> 0" and "lc_uri C \<noteq> []"
  shows "\<not> lf_started s \<Longrightarrow> \<not> lf_started s'"
  using assms(1) by (induction rule: life_steps.induct) (auto dest: invalid_step [OF _ assms(2,3)])

text \<open>
  C34. With a positive batch size (or no address to publish to) starting and stopping never fail, in
  whatever order they are called and whatever the threads do between: no exception reaches
  \<open>Registry::Start\<close>, and a thread is joined exactly when there is one. With an invalid batch size the
  publisher is left started without a thread: \<open>Start\<close> throws, and the \<open>Stop\<close> of the destructor
  throws in turn.
\<close>

theorem starting_and_stopping_never_fail:
  assumes "life_steps C new_life s"
  shows "(0 < lc_batch_size C \<or> lc_uri C = [] \<longrightarrow>
      registry_start C s \<noteq> None \<and> registry_stop s \<noteq> None \<and> (lf_started s \<longleftrightarrow> joinable (lf_sender s))) \<and>
    (lc_batch_size C \<le> 0 \<and> lc_uri C \<noteq> [] \<longrightarrow>
      registry_start C s = None \<and> publisher_stop (snd (publisher_start C s)) = None)"
proof -
  have inv: "life_inv s" by (rule life_inv_steps [OF assms life_inv_new])
  have stopped: "\<not> lf_started s" if "lc_batch_size C \<le> 0" "lc_uri C \<noteq> []"
    using invalid_never_started [OF assms that] by (simp add: new_life_def)
  show ?thesis
    using inv stopped by (auto simp: life_inv_def life_defs Let_def split: if_splits)
qed

text \<open>One start, one iteration of each loop, one stop.\<close>

definition sample_life :: life_config where
  "sample_life = \<lparr>lc_uri = ''http://localhost'', lc_batch_size = 10000, lc_expires = True\<rparr>"

lemma sample_start: "life_steps sample_life new_life (the (registry_start sample_life new_life))"
proof -
  have "registry_start sample_life new_life = Some (the (registry_start sample_life new_life))" by code_simp
  then show ?thesis by (rule life_steps.step [OF life_steps.refl life_step.start])
qed

theorem starting_and_stopping_never_fail_witness:
  "registry_stop (the (registry_start sample_life new_life)) \<noteq> None"
  using starting_and_stopping_never_fail [OF sample_start] by (simp add: sample_life_def)

text \<open>
  C33. A publisher that has been stopped never sends again by itself: \<open>Start\<close> does not reset
  \<open>should_stop_\<close>, so the thread of a restarted publisher ends at once and what the registry collects
  stays until the next \<open>Stop\<close> flushes it, through a curl library that has been shut down. The expirer, in contrast,
  runs again.
\<close>

theorem stopped_publisher_never_sends_again:
  assumes "life_steps C s s'" and "lf_should_stop s"
  shows "lf_should_stop s' \<and> lf_sends s' = lf_sends s"
  using assms
proof (induction rule: life_steps.induct)
  case (refl s)
  then show ?case by simp
next
  case (step s t u)
  then show ?case using stop_is_final_step by fastforce
qed

definition restarted :: life where
  "restarted = the (registry_start sample_life (the (registry_stop (the (registry_start sample_life new_life)))))"

theorem stopped_publisher_never_sends_again_witness:
  "lf_sender restarted = Running \<and> lf_sends (sender_turn restarted) = 0 \<and> lf_curl_shutdown restarted \<and>
   lf_expirer restarted = Running \<and> lf_sweeps (expirer_turn sample_life restarted) = 1"
proof -
  have r: "lf_sender restarted = Running" "lf_should_stop restarted" "lf_sends restarted = 0" "lf_curl_shutdown restarted"
    "lf_expirer restarted = Running" "lf_sweeps (expirer_turn sample_life restarted) = 1" by code_simp+
  have "life_steps sample_life restarted (sender_turn restarted)"
    by (rule life_steps.step [OF life_steps.refl life_step.send]) (rule r)
  from stopped_publisher_never_sends_again [OF this r(2)] r show ?thesis by simp
qed

end
