(* ===== verification/Admin.thy ===== *)
theory Admin
  imports ServerLaws HttpClient
begin

text \<open>
  The administration server (\<open>admin/admin_server.cc\<close>): its routes, the configuration and the meters
  as JSON, the update of the common tags and the deletion of meters. Poco is a library: the JSON
  parser is a parameter, and a reply that is a document stands for its printed form.
\<close>

section \<open>Requests, documents and replies\<close>

datatype json =
    J_String string
  | J_Int int
  | J_Double double
  | J_Bool bool
  | J_Array "json list"
  | J_Object "(string \<times> json) list"

record admin_request =
  aq_method :: string
  aq_uri :: string
  aq_host :: string
  aq_body :: string

datatype reply_body = No_body | Text string | Document json

record reply =
  rp_status :: int
  rp_reason :: "string option"
  rp_type :: "string option"
  rp_body :: reply_body

record 'd admin_lib =
  al_version :: string
  al_parse :: "string \<Rightarrow> json option"       \<comment> \<open>\<open>None\<close>: the parser throws\<close>
  al_millis :: "'d \<Rightarrow> double"
  al_show :: "double \<Rightarrow> string"              \<comment> \<open>\<open>fmt::format\<close>\<close>
  al_now :: int

definition json_reply :: "reply_body \<Rightarrow> reply" where
  "json_reply body = \<lparr>rp_status = 200, rp_reason = None, rp_type = Some ''application/json'', rp_body = body\<rparr>"

definition bad_request :: "reply_body \<Rightarrow> reply" where
  "bad_request body = \<lparr>rp_status = 400, rp_reason = Some ''Bad Request'',
     rp_type = (if body = No_body then None else Some ''application/json''), rp_body = body\<rparr>"

definition not_found :: reply where
  "not_found = \<lparr>rp_status = 404, rp_reason = Some ''Not Found'', rp_type = None, rp_body = No_body\<rparr>"

definition ok_reply :: reply where
  "ok_reply = \<lparr>rp_status = 200, rp_reason = None, rp_type = None, rp_body = No_body\<rparr>"

definition kAllowedTags :: "string list" where
  "kAllowedTags = [''mantisJobId'', ''mantisJobName'', ''mantisUser'', ''mantisWorkerIndex'', ''mantisWorkerNumber'',
     ''mantisWorkerStageNumber'']"

definition join :: "string list \<Rightarrow> string \<Rightarrow> string option" where
  \<comment> \<open>\<open>None\<close>: the first element of an empty vector\<close>
  "join strings delimiter = (case strings of [] \<Rightarrow> None
     | s # ss \<Rightarrow> Some (fold (\<lambda>b a. a @ delimiter @ b) ss s))"

section \<open>The configuration\<close>

definition quoted :: "string \<Rightarrow> string" where
  "quoted s = CHR 0x22 # s @ [CHR 0x22]"

definition GET_root :: "'d admin_lib \<Rightarrow> string \<Rightarrow> reply" where
  "GET_root L host = json_reply (Text (
     ''{'' @ quoted ''description'' @ '': '' @ quoted (''SpectatorD Admin Server '' @ al_version L) @ '','' @
     quoted ''endpoints'' @ '': ['' @ quoted (''http://'' @ host) @ '','' @ quoted (''http://'' @ host @ ''/config'') @ '','' @
     quoted (''http://'' @ host @ ''/config/common_tags'') @ '','' @ quoted (''http://'' @ host @ ''/metrics'') @ '']'' @ ''}''))"

definition GET_config :: "'d admin_lib \<Rightarrow> 'd config \<Rightarrow> reply" where
  "GET_config L cfg = json_reply (Document (J_Object
     [(''age_gauge_limit'', J_Int (int (cf_age_gauge_limit cfg))),
      (''batch_size'', J_Int (cf_batch_size cfg)),
      (''common_tags'', J_Object (map (\<lambda>t. (fst t, J_String (snd t))) (cf_common_tags cfg))),
      (''connect_timeout'', J_Double (al_millis L (cf_connect_timeout cfg))),
      (''expiration_frequency'', J_Double (al_millis L (cf_expiration_frequency cfg))),
      (''external_enabled'', J_Bool (cf_external_enabled cfg)),
      (''frequency'', J_Double (al_millis L (cf_frequency cfg))),
      (''metatron_dir'', J_String (cf_metatron_dir cfg)),
      (''meter_ttl'', J_Double (al_millis L (cf_meter_ttl cfg))),
      (''read_timeout'', J_Double (al_millis L (cf_read_timeout cfg))),
      (''status_metrics_enabled'', J_Bool (cf_status_metrics_enabled cfg)),
      (''uri'', J_String (cf_uri cfg))]))"

definition GET_config_common_tags :: "string \<Rightarrow> reply" where
  "GET_config_common_tags allowed_tags = json_reply (Text (''{'' @ quoted ''usage'' @ '':'' @ quoted (
     ''To configure SpectatorD common tags, POST a JSON object to this endpoint with '' @
     ''key-value pairs defining the desired common tags. To delete a tag, set the value '' @
     ''to an empty string. Attempting to configure any other tags besides the allowed '' @
     ''set will return an error. Only the following tags may be modified: '' @ allowed_tags @ ''.'') @ ''}''))"

definition message :: "string \<Rightarrow> reply_body" where
  "message s = Text (''{'' @ quoted ''message'' @ '': '' @ quoted s @ ''}'')"

primrec check_tags :: "string list \<Rightarrow> (string \<times> json) list \<Rightarrow> reply option" where
  \<comment> \<open>the first loop: \<open>None\<close> when every entry may be set\<close>
  "check_tags allowed [] = None"
| "check_tags allowed (it # rest) =
     (if fst it \<notin> set allowed then Some (bad_request (message ''only allowed tags may be set''))
      else case snd it of J_String s \<Rightarrow> check_tags allowed rest
      | _ \<Rightarrow> Some (bad_request (message ''tag values must be strings'')))"

definition set_tag :: "string \<times> json \<Rightarrow> 'd registry \<Rightarrow> 'd registry" where
  "set_tag it R = (case snd it of
     J_String s \<Rightarrow> if s = [] then erase_common_tag (fst it) R else update_common_tag (fst it) s R
   | _ \<Rightarrow> R)"

definition POST_config_common_tags :: "'d admin_lib \<Rightarrow> string list \<Rightarrow> string \<Rightarrow> 'd registry \<Rightarrow> reply \<times> 'd registry" where
  "POST_config_common_tags L allowed body R = (case al_parse L body of
     None \<Rightarrow> (bad_request (message ''json parse exception''), R)
   | Some (J_Object members) \<Rightarrow>
       (case check_tags allowed members of
          Some r \<Rightarrow> (r, R)
        | None \<Rightarrow> (json_reply (message ''common tags updated''), fold set_tag members R))
   | Some _ \<Rightarrow> (bad_request (message ''expected a json object''), R))"

section \<open>The meters\<close>

definition fmt_meter_object :: "meter_id \<Rightarrow> string \<Rightarrow> json" where
  \<comment> \<open>with the value that every caller adds; a tag is a member, set in order\<close>
  "fmt_meter_object i shown = J_Object [(''name'', J_String (id_name i)),
     (''tags'', J_Object (map (\<lambda>t. (fst t, J_String (snd t))) (id_tags i))), (''value'', J_String shown)]"

definition fmt_meters :: "('x meter_scheme \<Rightarrow> string) \<Rightarrow> 'x meter_scheme meter_map \<Rightarrow> json" where
  "fmt_meters shown s = J_Array (map (\<lambda>m. fmt_meter_object (mt_id m) (shown m)) (mm_get_values s))"

definition GET_metrics :: "'d admin_lib \<Rightarrow> 'd registry \<Rightarrow> reply option" where
  \<comment> \<open>\<open>None\<close>: the age of an age gauge overflows\<close>
  "GET_metrics L R = (let a = rg_meters R in
     if \<exists>g \<in> set (mm_get_values (am_age_gauges a)). age_gauge_value (al_now L) g = None then None
     else Some (json_reply (Document (J_Object
       [(''age_gauges'', fmt_meters (\<lambda>g. al_show L (the (age_gauge_value (al_now L) g))) (am_age_gauges a)),
        (''counters'', fmt_meters (\<lambda>c. al_show L (c_count c)) (am_counters a)),
        (''dist_summaries'', fmt_meters (\<lambda>d. al_show L (d_total d)) (am_dist_sums a)),
        (''gauges'', fmt_meters (\<lambda>g. al_show L (g_value g)) (am_gauges a)),
        (''max_gauges'', fmt_meters (\<lambda>g. al_show L (max_gauge_get g)) (am_max_gauges a)),
        (''mono_counters'', fmt_meters (\<lambda>c. al_show L (mono_delta c)) (am_mono_counters a)),
        (''mono_counters_uint'', fmt_meters (\<lambda>c. al_show L (mono_uint_delta c)) (am_mono_counters_uint a)),
        (''timers'', fmt_meters (\<lambda>t. show_int (t_total t)) (am_timers a)),
        (''stats'', let n = \<lambda>k. J_Int (int k) in J_Object
           [(''age_gauges.size'', n (mm_size (am_age_gauges a))), (''counters.size'', n (mm_size (am_counters a))),
            (''dist_summaries.size'', n (mm_size (am_dist_sums a))), (''gauges.size'', n (mm_size (am_gauges a))),
            (''max_gauges.size'', n (mm_size (am_max_gauges a))),
            (''mono_counters.size'', n (mm_size (am_mono_counters a))),
            (''mono_counters_uint.size'', n (mm_size (am_mono_counters_uint a))),
            (''timers.size'', n (mm_size (am_timers a))),
            (''total.size'', n (mm_size (am_age_gauges a) + mm_size (am_counters a) + mm_size (am_dist_sums a) +
               mm_size (am_gauges a) + mm_size (am_max_gauges a) + mm_size (am_mono_counters a) +
               mm_size (am_mono_counters_uint a) + mm_size (am_timers a)))])]))))"

section \<open>Deleting meters\<close>

function id_loop :: "string \<Rightarrow> nat \<Rightarrow> tag_list \<Rightarrow> tag_list" where
  "id_loop s pos tags = (case find_from (\<lambda>c. c = CHR ''='') s (Suc pos) of
     None \<Rightarrow> tags
   | Some k_pos \<Rightarrow>
       let key = sanitize (substr s (Suc pos) (k_pos - Suc pos))
       in case find_from (\<lambda>c. c = CHR '','') s (Suc k_pos) of
            None \<Rightarrow> tag_put key (sanitize (substr s (Suc k_pos) (length s - Suc k_pos))) tags
          | Some v_pos \<Rightarrow> id_loop s v_pos (tag_put key (sanitize (substr s (Suc k_pos) (v_pos - Suc k_pos))) tags))"
  by pat_completeness auto
termination
  by (relation "measure (\<lambda>(s, pos, tags). length s - pos)") (auto dest!: find_from_Some)

declare id_loop.simps [simp del]

definition parse_id :: "string \<Rightarrow> meter_id" where
  "parse_id id_str = (case find_from (\<lambda>c. c = CHR '','') id_str 0 of
     None \<Rightarrow> id_of id_str []
   | Some pos \<Rightarrow> id_of (substr id_str 0 pos) (id_loop id_str pos []))"

definition DELETE_metrics :: "string \<Rightarrow> string \<Rightarrow> 'd registry \<Rightarrow> reply \<times> 'd registry" where
  "DELETE_metrics type uri R =
     (if length uri = 10 then (ok_reply, delete_all_meters type R)
      else let (found, R1) = delete_meter type (parse_id (drop 11 uri)) R
           in (if found then ok_reply else not_found, R1))"

section \<open>Routes\<close>

definition contains :: "string \<Rightarrow> string \<Rightarrow> bool" where
  "contains s t \<longleftrightarrow> (\<exists>i \<le> length s. take (length t) (drop i s) = t)"

definition localhost_found :: "string \<Rightarrow> bool" where
  \<comment> \<open>a search for a substring, not a test that the host is the local one\<close>
  "localhost_found host \<longleftrightarrow> contains host ''localhost'' \<or> contains host ''127.0.0.1'' \<or> contains host ''[::1]''"

definition starts_with :: "string \<Rightarrow> string \<Rightarrow> bool" where
  "starts_with s t \<longleftrightarrow> take (length t) s = t"

definition handleRequest :: "'d admin_lib \<Rightarrow> admin_request \<Rightarrow> 'd registry \<Rightarrow> (reply \<times> 'd registry) option" where
  "handleRequest L rq R =
     (let uri = aq_uri rq; mth = aq_method rq; localhost = localhost_found (aq_host rq)
      in if uri = ''/'' \<and> mth = ''GET'' then Some (GET_root L (aq_host rq), R)
         else if uri = ''/config'' \<and> mth = ''GET'' then Some (GET_config L (rg_config R), R)
         else if uri = ''/config/common_tags'' \<and> mth = ''GET''
         then map_option (\<lambda>tags. (GET_config_common_tags tags, R)) (join kAllowedTags '', '')
         else if uri = ''/config/common_tags'' \<and> mth = ''POST''
         then Some (if localhost then POST_config_common_tags L kAllowedTags (aq_body rq) R else (bad_request No_body, R))
         else if uri = ''/metrics'' \<and> mth = ''GET'' then map_option (\<lambda>r. (r, R)) (GET_metrics L R)
         else if starts_with uri ''/metrics/A'' \<and> mth = ''DELETE''
         then Some (if localhost then DELETE_metrics ''A'' uri R else (bad_request No_body, R))
         else if starts_with uri ''/metrics/g'' \<and> mth = ''DELETE''
         then Some (if localhost then DELETE_metrics ''g'' uri R else (bad_request No_body, R))
         else Some (not_found, R))"

section \<open>What the routes promise\<close>

lemma DELETE_metrics_config: "rg_config (snd (DELETE_metrics type uri R)) = rg_config R"
  by (simp add: DELETE_metrics_def delete_meter_def delete_all_meters_def split_beta)

lemma sorted_tags_filter: "sorted_tags ts \<Longrightarrow> sorted_tags (filter P ts)"
  by (simp add: sorted_tags_def sorted_wrt_map sorted_wrt_filter)

lemma set_tag_facts: "rg_meters (set_tag it R) = rg_meters R"
  "sorted_tags (cf_common_tags (rg_config R)) \<Longrightarrow> sorted_tags (cf_common_tags (rg_config (set_tag it R)))"
  by (simp_all add: set_tag_def erase_common_tag_def update_common_tag_def sorted_tags_filter split: json.split)

lemma map_of_without: "map_of (filter (\<lambda>t. fst t \<noteq> k) ts) = (map_of ts)(k := None)"
  by (induction ts) auto

definition tag_setting :: "string \<times> json \<Rightarrow> (string \<rightharpoonup> string) \<Rightarrow> (string \<rightharpoonup> string)" where
  \<comment> \<open>the reference: an empty value deletes\<close>
  "tag_setting it f = (case snd it of J_String s \<Rightarrow> f(fst it := (if s = [] then None else Some s)) | _ \<Rightarrow> f)"

lemma set_tag_map:
  "sorted_tags (cf_common_tags (rg_config R)) \<Longrightarrow>
   map_of (cf_common_tags (rg_config (set_tag it R))) = tag_setting it (map_of (cf_common_tags (rg_config R)))"
  by (simp add: set_tag_def tag_setting_def erase_common_tag_def update_common_tag_def map_of_without
      map_of_tag_put split: json.split)

lemma set_tags_map:
  "sorted_tags (cf_common_tags (rg_config R)) \<Longrightarrow>
   map_of (cf_common_tags (rg_config (fold set_tag its R))) = fold tag_setting its (map_of (cf_common_tags (rg_config R))) \<and>
   rg_meters (fold set_tag its R) = rg_meters R"
  by (induction its arbitrary: R) (simp_all add: set_tag_map set_tag_facts)

lemma check_tags_None:
  "check_tags allowed its = None \<longleftrightarrow> (\<forall>it \<in> set its. fst it \<in> set allowed \<and> (\<exists>s. snd it = J_String s))"
  by (induction its) (auto split: json.split)

lemma check_tags_Some: "check_tags allowed its = Some r \<Longrightarrow> rp_status r = 400"
  by (induction its) (auto simp: bad_request_def split: if_splits json.splits)

text \<open>
  C31. The common tags are updated completely or not at all: the request succeeds exactly when its
  body is a JSON object all of whose members are allowed tags with strings, every other body is
  answered with 400 and changes nothing, and after a success every tag has the value of its last
  member, is gone when that value is empty, and is as before when the object does not name it.
\<close>

theorem common_tags_all_or_nothing:
  assumes "sorted_tags (cf_common_tags (rg_config R))"
  shows "let (r, R') = POST_config_common_tags L allowed body R in
    (rp_status r = 200 \<longleftrightarrow> (\<exists>its. al_parse L body = Some (J_Object its) \<and>
       (\<forall>it \<in> set its. fst it \<in> set allowed \<and> (\<exists>s. snd it = J_String s)))) \<and>
    (rp_status r = 200 \<or> rp_status r = 400 \<and> R' = R) \<and>
    (\<forall>its. rp_status r = 200 \<and> al_parse L body = Some (J_Object its) \<longrightarrow> rg_meters R' = rg_meters R \<and>
       map_of (cf_common_tags (rg_config R')) = fold tag_setting its (map_of (cf_common_tags (rg_config R))))"
proof (cases "al_parse L body")
  case None
  then show ?thesis by (simp add: POST_config_common_tags_def bad_request_def)
next
  case (Some j)
  show ?thesis
  proof (cases j)
    case (J_Object its)
    show ?thesis
    proof (cases "check_tags allowed its")
      case None
      then have "\<forall>it \<in> set its. fst it \<in> set allowed \<and> (\<exists>s. snd it = J_String s)" by (simp add: check_tags_None)
      then show ?thesis using Some J_Object None set_tags_map [OF assms, of its]
        by (simp add: POST_config_common_tags_def json_reply_def)
    next
      case bad: (Some r)
      have "\<not> (\<forall>it \<in> set its. fst it \<in> set allowed \<and> (\<exists>s. snd it = J_String s))"
        using check_tags_None [of allowed its] bad by simp
      then show ?thesis using Some J_Object bad check_tags_Some [OF bad]
        by (simp add: POST_config_common_tags_def)
    qed
  qed (use Some in \<open>simp_all add: POST_config_common_tags_def bad_request_def\<close>)
qed

text \<open>An object with a member that deletes a tag, and one that is not allowed.\<close>

definition sample_admin :: "int admin_lib" where
  "sample_admin = \<lparr>al_version = ''1.0'',
     al_parse = (\<lambda>s. Some (J_Object ((''mantisUser'', J_String []) # (if s = [] then [] else [(''nf.app'', J_String ''x'')])))),
     al_millis = (\<lambda>d. dint d), al_show = (\<lambda>d. []), al_now = 0\<rparr>"

theorem common_tags_all_or_nothing_witness:
  "let R = update_common_tag ''mantisUser'' ''joe'' (sample_registry 1)
   in map_of (cf_common_tags (rg_config (snd (POST_config_common_tags sample_admin kAllowedTags [] R)))) ''mantisUser'' = None \<and>
      snd (POST_config_common_tags sample_admin kAllowedTags ''x'' R) = R"
proof -
  let ?R = "update_common_tag ''mantisUser'' ''joe'' (sample_registry 1)"
  have R: "sorted_tags (cf_common_tags (rg_config ?R))"
    by (simp add: update_common_tag_def new_registry_def sample_config_def Let_def split_beta sorted_tags_def)
  have p: "al_parse sample_admin [] = Some (J_Object [(''mantisUser'', J_String [])])"
    "al_parse sample_admin ''x'' = Some (J_Object [(''mantisUser'', J_String []), (''nf.app'', J_String ''x'')])"
    by (simp_all add: sample_admin_def)
  have k: "''mantisUser'' \<in> set kAllowedTags" "''nf.app'' \<notin> set kAllowedTags" by (simp_all add: kAllowedTags_def)
  show ?thesis
    using common_tags_all_or_nothing [OF R, of sample_admin kAllowedTags "[]"]
      common_tags_all_or_nothing [OF R, of sample_admin kAllowedTags "''x''"]
    by (auto simp: p k tag_setting_def Let_def split_beta)
qed

section \<open>Identities in addresses\<close>

definition id_tags_ok :: "(string \<times> string) list \<Rightarrow> bool" where
  "id_tags_ok ts \<longleftrightarrow> list_all (\<lambda>t. CHR ''='' \<notin> set (fst t) \<and> CHR '','' \<notin> set (snd t)) ts"

lemma find_from_none: "\<forall>c \<in> set b. \<not> P c \<Longrightarrow> find_from P (a @ b) (length a) = None"
  by (simp add: find_from_def Let_def takeWhile_eq_all_conv [THEN iffD2])

lemma id_loop_text:
  "id_tags_ok (t # ts) \<Longrightarrow> id_loop (pre @ tags_text (t # ts)) (length pre) acc =
     fold (\<lambda>(k, v). tag_put (sanitize k) (sanitize v)) (t # ts) acc"
proof (induction ts arbitrary: t pre acc)
  case Nil
  obtain k v where t: "t = (k, v)" by fastforce
  have k: "\<forall>c \<in> set k. c \<noteq> CHR ''=''" and v: "\<forall>c \<in> set v. c \<noteq> CHR '',''" using Nil by (auto simp: id_tags_ok_def t)
  let ?s = "pre @ tags_text [t]" and ?a = "pre @ [CHR '','']" and ?b = "pre @ CHR '','' # k @ [CHR ''='']"
  have f1: "find_from (\<lambda>c. c = CHR ''='') ?s (Suc (length pre)) = Some (Suc (length pre) + length k)"
    using find_from_at [of k "\<lambda>c. c = CHR ''=''" "CHR ''=''" ?a v] k by (simp add: t)
  have f2: "find_from (\<lambda>c. c = CHR '','') ?s (Suc (Suc (length pre) + length k)) = None"
    using find_from_none [of v "\<lambda>c. c = CHR '',''" ?b] v by (simp add: t)
  have k': "substr ?s (Suc (length pre)) (Suc (length pre) + length k - Suc (length pre)) = k"
    using substr_mid [of ?a k "CHR ''='' # v"] by (simp add: t)
  have v': "substr ?s (Suc (Suc (length pre) + length k)) (length ?s - Suc (Suc (length pre) + length k)) = v"
    using substr_mid [of ?b v "[]"] by (simp add: t)
  show ?case unfolding id_loop.simps [of ?s "length pre"] f1 option.case Let_def f2 k' v' by (simp add: t)
next
  case (Cons u ts)
  obtain k v where t: "t = (k, v)" by fastforce
  have k: "\<forall>c \<in> set k. c \<noteq> CHR ''=''" and v: "\<forall>c \<in> set v. c \<noteq> CHR '',''"
    using Cons.prems by (auto simp: id_tags_ok_def t)
  let ?s = "pre @ tags_text (t # u # ts)" and ?a = "pre @ [CHR '','']" and ?b = "pre @ CHR '','' # k @ [CHR ''='']"
  have f1: "find_from (\<lambda>c. c = CHR ''='') ?s (Suc (length pre)) = Some (Suc (length pre) + length k)"
    using find_from_at [of k "\<lambda>c. c = CHR ''=''" "CHR ''=''" ?a "v @ tags_text (u # ts)"] k by (simp add: t)
  have f2: "find_from (\<lambda>c. c = CHR '','') ?s (Suc (Suc (length pre) + length k)) = Some (length ?b + length v)"
    using find_from_at [of v "\<lambda>c. c = CHR '',''" "CHR '',''" ?b] v by (simp add: t)
  have k': "substr ?s (Suc (length pre)) (Suc (length pre) + length k - Suc (length pre)) = k"
    using substr_mid [of ?a k "CHR ''='' # v @ tags_text (u # ts)"] by (simp add: t)
  have v': "substr ?s (Suc (Suc (length pre) + length k)) (length ?b + length v - Suc (Suc (length pre) + length k)) = v"
    using substr_mid [of ?b v "tags_text (u # ts)"] by (simp add: t)
  have "id_loop ?s (length pre) acc = id_loop ?s (length (?b @ v)) (tag_put (sanitize k) (sanitize v) acc)"
    unfolding id_loop.simps [of ?s "length pre"] f1 option.case Let_def f2 k' v' by (simp add: add.assoc)
  also have "?s = (?b @ v) @ tags_text (u # ts)" by (simp add: t)
  also have "id_loop ((?b @ v) @ tags_text (u # ts)) (length (?b @ v)) (tag_put (sanitize k) (sanitize v) acc) =
      fold (\<lambda>(k, v). tag_put (sanitize k) (sanitize v)) (u # ts) (tag_put (sanitize k) (sanitize v) acc)"
    by (rule Cons.IH) (use Cons.prems in \<open>simp add: id_tags_ok_def\<close>)
  finally show ?case by (simp add: t)
qed

lemma parse_id_text:
  assumes "CHR '','' \<notin> set name" and "id_tags_ok tags"
  shows "parse_id (name @ tags_text tags) = id_of name (intern_tags tags)"
proof (cases tags)
  case Nil
  have "find_from (\<lambda>c. c = CHR '','') ([] @ name) (length ([] :: string)) = None"
    by (rule find_from_none) (use assms(1) in auto)
  then show ?thesis by (simp add: Nil parse_id_def intern_tags_def tag_put_all_def)
next
  case (Cons t ts)
  have "find_from (\<lambda>c. c = CHR '','') (name @ tags_text tags) 0 = Some (length name)"
    using find_from_at [of name "\<lambda>c. c = CHR '',''" "CHR '',''" "[]"] assms(1) by (auto simp: Cons)
  moreover have "substr (name @ tags_text tags) 0 (length name) = name" by (simp add: substr_def)
  moreover have "id_loop (name @ tags_text tags) (length name) [] = intern_tags tags"
    using id_loop_text [of t ts name "[]"] assms(2) by (simp add: Cons intern_tags_fold)
  ultimately show ?thesis by (simp add: parse_id_def)
qed

lemma mm_remove_one_find:
  "fst (mm_remove_one i s) = (mm_find s i \<noteq> None)"
  "mm_find (snd (mm_remove_one i s)) j = (if j = i then None else mm_find s j)"
  by (auto simp: mm_remove_one_def mm_contains_def mm_find_def keys_def map_of_without map_of_eq_None_iff)

text \<open>
  C30. Deleting a gauge by its address deletes exactly that gauge: when the address holds a printed name
  and tags, the meter with this identity is no longer registered afterwards, every other gauge and the
  rest of the registry are untouched, and the reply tells whether there was one.
\<close>

theorem delete_names_one_gauge:
  assumes "localhost_found host" and "CHR '','' \<notin> set name" and "id_tags_ok tags"
  shows "\<exists>r s. handleRequest L \<lparr>aq_method = ''DELETE'', aq_uri = ''/metrics/g/'' @ name @ tags_text tags, aq_host = host,
        aq_body = body\<rparr> R = Some (r, R\<lparr>rg_meters := (rg_meters R)\<lparr>am_gauges := s\<rparr>\<rparr>) \<and>
    rp_status r = (if mm_find (am_gauges (rg_meters R)) (id_of name (intern_tags tags)) = None then 404 else 200) \<and>
    (\<forall>j. mm_find s j = (if j = id_of name (intern_tags tags) then None else mm_find (am_gauges (rg_meters R)) j))"
proof -
  let ?i = "id_of name (intern_tags tags)"
  let ?rem = "mm_remove_one ?i (am_gauges (rg_meters R))"
  have "parse_id (drop 11 (''/metrics/g/'' @ name @ tags_text tags)) = ?i"
    using parse_id_text [OF assms(2,3)] by simp
  then have "DELETE_metrics ''g'' (''/metrics/g/'' @ name @ tags_text tags) R =
      (if fst ?rem then ok_reply else not_found, R\<lparr>rg_meters := (rg_meters R)\<lparr>am_gauges := snd ?rem\<rparr>\<rparr>)"
    by (simp add: DELETE_metrics_def delete_meter_def split_beta Let_def)
  then show ?thesis
    using assms(1) mm_remove_one_find [of ?i "am_gauges (rg_meters R)"]
    by (intro exI [of _ "if fst ?rem then ok_reply else not_found"] exI [of _ "snd ?rem"])
      (simp add: handleRequest_def starts_with_def ok_reply_def not_found_def Let_def)
qed

theorem delete_names_one_gauge_witness:
  "\<exists>r R'. handleRequest sample_admin \<lparr>aq_method = ''DELETE'', aq_uri = ''/metrics/g/load,id=a'', aq_host = ''localhost:1234'',
       aq_body = []\<rparr> (snd (get_gauge ns_durations 3 (id_of ''load'' (intern_tags [(''id'', ''a'')])) (sample_registry 1))) =
     Some (r, R') \<and> rp_status r = 200"
proof -
  let ?i = "id_of ''load'' (intern_tags [(''id'', ''a'')])"
  let ?R = "snd (get_gauge ns_durations 3 ?i (sample_registry 1))"
  have host: "localhost_found ''localhost:1234''"
    by (auto simp: localhost_found_def contains_def intro!: exI [of _ 0])
  have "mm_find (am_gauges (rg_meters ?R)) ?i \<noteq> None"
    by (auto simp: get_gauge_def mm_insert_def mm_alloc_def mm_find_def new_gauge_def split_beta map_add_def
        split: option.split)
  then show ?thesis
    using delete_names_one_gauge [OF host, of "''load''" "[(''id'', ''a'')]" sample_admin "[]" ?R]
    by (auto simp: id_tags_ok_def)
qed

section \<open>What requests can change\<close>

definition unreachable_part :: "'d registry \<Rightarrow> 'd registry" where
  \<comment> \<open>the registry without its common tags, age gauges and gauges\<close>
  "unreachable_part R = R\<lparr>rg_config := (rg_config R)\<lparr>cf_common_tags := []\<rparr>,
     rg_meters := (rg_meters R)\<lparr>am_age_gauges := empty_map, am_gauges := empty_map\<rparr>\<rparr>"

lemma unreachable_set_tags: "unreachable_part (fold set_tag its R) = unreachable_part R"
proof (induction its arbitrary: R)
  case Nil
  then show ?case by simp
next
  case (Cons it its)
  have "unreachable_part (set_tag it R) = unreachable_part R"
    by (simp add: unreachable_part_def set_tag_def erase_common_tag_def update_common_tag_def split: json.split)
  with Cons show ?case by simp
qed

lemma unreachable_POST: "unreachable_part (snd (POST_config_common_tags L allowed body R)) = unreachable_part R"
  by (simp add: POST_config_common_tags_def unreachable_set_tags split: option.split json.split)

lemma unreachable_DELETE: "unreachable_part (snd (DELETE_metrics type uri R)) = unreachable_part R"
  by (simp add: unreachable_part_def DELETE_metrics_def delete_meter_def delete_all_meters_def split_beta)

lemma contains_iff: "contains s t \<longleftrightarrow> (\<exists>pre post. s = pre @ t @ post)"
proof
  assume "contains s t"
  then obtain i where "take (length t) (drop i s) = t" by (auto simp: contains_def)
  then have "s = take i s @ t @ drop (length t) (drop i s)" by (metis append_take_drop_id)
  then show "\<exists>pre post. s = pre @ t @ post" by blast
next
  assume "\<exists>pre post. s = pre @ t @ post"
  then obtain pre post where "s = pre @ t @ post" by blast
  then show "contains s t" by (auto simp: contains_def intro!: exI [of _ "length pre"])
qed

text \<open>
  C40. What a request can change: the registry is left as it is unless the request posts common tags or deletes meters and
  the text of its host header contains localhost, 127.0.0.1 or [::1] somewhere; even then only the common tags, the age gauges
  and the gauges can differ. This is not a check that the host is the local one: any host with localhost in its name, such as
  localhost.example.org, is served like the local host itself.
\<close>

theorem changes_need_localhost_in_the_host_header:
  "(\<forall>r R'. handleRequest L rq R = Some (r, R') \<longrightarrow>
      (R' = R \<or> (\<exists>pre x post. aq_host rq = pre @ x @ post \<and> x \<in> {''localhost'', ''127.0.0.1'', ''[::1]''}) \<and>
        (aq_method rq = ''POST'' \<and> aq_uri rq = ''/config/common_tags'' \<or>
         aq_method rq = ''DELETE'' \<and> (starts_with (aq_uri rq) ''/metrics/A'' \<or> starts_with (aq_uri rq) ''/metrics/g''))) \<and>
      unreachable_part R' = unreachable_part R) \<and>
   (aq_method rq \<noteq> ''GET'' \<longrightarrow>
      handleRequest L (rq\<lparr>aq_host := pre @ ''localhost'' @ post\<rparr>) R = handleRequest L (rq\<lparr>aq_host := ''localhost''\<rparr>) R)"
proof (intro conjI allI impI)
  have found: "localhost_found h \<longleftrightarrow> (\<exists>pre x post. h = pre @ x @ post \<and> x \<in> {''localhost'', ''127.0.0.1'', ''[::1]''})" for h
    unfolding localhost_found_def contains_iff by blast
  fix r R'
  assume run: "handleRequest L rq R = Some (r, R')"
  let ?post = "POST_config_common_tags L kAllowedTags (aq_body rq) R"
  let ?del = "\<lambda>type. DELETE_metrics type (aq_uri rq) R"
  consider (same) "R' = R"
    | (post) "localhost_found (aq_host rq)" "aq_method rq = ''POST''" "aq_uri rq = ''/config/common_tags''" "R' = snd ?post"
    | (del) type where "localhost_found (aq_host rq)" "aq_method rq = ''DELETE''"
        "starts_with (aq_uri rq) ''/metrics/A'' \<or> starts_with (aq_uri rq) ''/metrics/g''" "R' = snd (?del type)"
    using run by (auto simp: handleRequest_def Let_def split: if_splits) (metis snd_conv)+
  note what = this
  show "R' = R \<or> (\<exists>pre x post. aq_host rq = pre @ x @ post \<and> x \<in> {''localhost'', ''127.0.0.1'', ''[::1]''}) \<and>
        (aq_method rq = ''POST'' \<and> aq_uri rq = ''/config/common_tags'' \<or>
         aq_method rq = ''DELETE'' \<and> (starts_with (aq_uri rq) ''/metrics/A'' \<or> starts_with (aq_uri rq) ''/metrics/g''))"
    unfolding found [symmetric] by (cases rule: what) blast+
  show "unreachable_part R' = unreachable_part R"
    by (cases rule: what) (simp_all add: unreachable_POST unreachable_DELETE)
next
  have "localhost_found (pre @ ''localhost'' @ post)" "localhost_found ''localhost''"
    unfolding localhost_found_def contains_iff by (metis append_Nil append_Nil2)+
  then show "handleRequest L (rq\<lparr>aq_host := pre @ ''localhost'' @ post\<rparr>) R = handleRequest L (rq\<lparr>aq_host := ''localhost''\<rparr>) R"
    if "aq_method rq \<noteq> ''GET''"
    using that by (simp add: handleRequest_def Let_def)
qed

theorem changes_need_localhost_in_the_host_header_witness:
  "let rq = \<lparr>aq_method = ''POST'', aq_uri = ''/config/common_tags'', aq_host = ''localhost.example.org'', aq_body = []\<rparr>
   in unreachable_part (snd (the (handleRequest sample_admin rq (sample_registry 1)))) = unreachable_part (sample_registry 1) \<and>
      handleRequest sample_admin rq (sample_registry 1) = handleRequest sample_admin (rq\<lparr>aq_host := ''localhost''\<rparr>) (sample_registry 1)"
proof -
  let ?rq = "\<lparr>aq_method = ''POST'', aq_uri = ''/config/common_tags'', aq_host = ''localhost.example.org'', aq_body = []\<rparr>"
  have "\<exists>r R'. handleRequest sample_admin ?rq (sample_registry 1) = Some (r, R')" by (simp add: handleRequest_def Let_def)
  then obtain r R' where h: "handleRequest sample_admin ?rq (sample_registry 1) = Some (r, R')" by blast
  note all = changes_need_localhost_in_the_host_header [of sample_admin ?rq "sample_registry 1" "[]" "''.example.org''"]
  have "unreachable_part R' = unreachable_part (sample_registry 1)" using all h by blast
  then have one: "unreachable_part (snd (the (handleRequest sample_admin ?rq (sample_registry 1)))) = unreachable_part (sample_registry 1)"
    by (simp only: h option.sel snd_conv)
  have "handleRequest sample_admin ?rq (sample_registry 1) = handleRequest sample_admin (?rq\<lparr>aq_host := ''localhost''\<rparr>) (sample_registry 1)"
    using all [THEN conjunct2] by simp
  with one show ?thesis unfolding Let_def by blast
qed

end
