(* ===== verification/Systemd.thy ===== *)
theory Systemd
  imports ServerLaws
begin

text \<open>
  \<open>util/systemd.h\<close>: the sockets that systemd hands to the daemon and the notifications it sends
  back, and \<open>util/file_watcher.h\<close>. The operating system is a parameter: the environment, and what the calls
  on a file descriptor return.
\<close>

section \<open>Inherited sockets\<close>

record os =
  os_domain :: "int \<Rightarrow> int option"          \<comment> \<open>\<open>getsockopt\<close> with \<open>SO_DOMAIN\<close>\<close>
  os_type :: "int \<Rightarrow> int option"            \<comment> \<open>\<open>getsockopt\<close> with \<open>SO_TYPE\<close>\<close>
  os_name :: "int \<Rightarrow> (int \<times> int) option"    \<comment> \<open>\<open>getsockname\<close>: the family and the port\<close>

definition AF_UNIX :: int where "AF_UNIX = 1"
definition AF_INET :: int where "AF_INET = 2"
definition AF_INET6 :: int where "AF_INET6 = 10"
definition SOCK_DGRAM :: int where "SOCK_DGRAM = 2"
definition SD_LISTEN_FDS_START :: int where "SD_LISTEN_FDS_START = 3"

definition is_socket_type :: "os \<Rightarrow> int \<Rightarrow> int \<Rightarrow> int \<Rightarrow> bool" where
  "is_socket_type K fd family type = (case os_domain K fd of
     None \<Rightarrow> False
   | Some sock_family \<Rightarrow>
       if family \<noteq> - 1 \<and> sock_family \<noteq> family then False
       else case os_type K fd of None \<Rightarrow> False | Some sock_type \<Rightarrow> type = - 1 \<or> sock_type = type)"

definition get_socket_port :: "os \<Rightarrow> int \<Rightarrow> int" where
  "get_socket_port K fd = (case os_name K fd of
     None \<Rightarrow> - 1
   | Some (family, port) \<Rightarrow> if family = AF_INET then port else if family = AF_INET6 then port else - 1)"

definition is_socket_ipv6 :: "os \<Rightarrow> int \<Rightarrow> bool" where
  "is_socket_ipv6 K fd = is_socket_type K fd AF_INET6 (- 1)"

record sd_state =
  sd_cached :: int                      \<comment> \<open>the static variable of \<open>listen_fds\<close>, initially -1\<close>
  sd_env :: "string \<rightharpoonup> string"

definition int32 :: "int \<Rightarrow> int" where
  "int32 n = (n + 2 ^ 31) mod 2 ^ 32 - 2 ^ 31"

definition listen_fds :: "sd_state \<Rightarrow> int \<times> sd_state" where
  "listen_fds s =
     (if 0 \<le> sd_cached s then (sd_cached s, s)
      else case sd_env s ''LISTEN_FDS'' of
        None \<Rightarrow> (0, s\<lparr>sd_cached := 0\<rparr>)
      | Some e \<Rightarrow>
          (let (n, k) = strtoll (e @ [NUL])
           in if k = 0 \<or> k < length e \<or> n < 0 then (0, s\<lparr>sd_cached := 0\<rparr>)
              else (int32 n, s\<lparr>sd_cached := int32 n,
                      sd_env := (sd_env s)(''LISTEN_FDS'' := None, ''LISTEN_PID'' := None)\<rparr>)))"

primrec first_fd :: "(int \<Rightarrow> bool) \<Rightarrow> int \<Rightarrow> nat \<Rightarrow> int option" where
  "first_fd P fd 0 = None"
| "first_fd P fd (Suc n) = (if P fd then Some fd else first_fd P (fd + 1) n)"

definition get_systemd_socket :: "os \<Rightarrow> sd_state \<Rightarrow> int option \<times> sd_state" where
  "get_systemd_socket K s = (let (n, s1) = listen_fds s
     in (if n \<le> 0 then None
         else first_fd (\<lambda>fd. is_socket_type K fd AF_UNIX SOCK_DGRAM) SD_LISTEN_FDS_START (nat n), s1))"

definition udp_bound :: "os \<Rightarrow> int \<Rightarrow> int \<Rightarrow> bool" where
  \<comment> \<open>the tests of the loop, for IPv4 and for IPv6\<close>
  "udp_bound K port fd \<longleftrightarrow> is_socket_type K fd AF_INET SOCK_DGRAM \<and> get_socket_port K fd = port \<or>
     is_socket_type K fd AF_INET6 SOCK_DGRAM \<and> get_socket_port K fd = port"

definition get_systemd_udp_socket :: "os \<Rightarrow> int \<Rightarrow> sd_state \<Rightarrow> int option \<times> sd_state" where
  "get_systemd_udp_socket K port s = (let (n, s1) = listen_fds s
     in (if n \<le> 0 then None else first_fd (udp_bound K port) SD_LISTEN_FDS_START (nat n), s1))"

section \<open>Notifications\<close>

definition kSunPath :: nat where
  \<comment> \<open>the size of \<open>sun_path\<close>; the family in front of it has two bytes\<close>
  "kSunPath = 108"

definition strncpy :: "string \<Rightarrow> nat \<Rightarrow> string" where
  \<comment> \<open>what is written to a destination of zeros\<close>
  "strncpy src n = take n src @ replicate (n - length src) NUL"

definition notify_address :: "string \<Rightarrow> (string \<times> nat) option" where
  \<comment> \<open>\<open>sun_path\<close> and the length of the address\<close>
  "notify_address sock =
     (if kSunPath \<le> length sock then None
      else if sock ! 0 = CHR ''@''
           then Some (NUL # strncpy (tl sock) (kSunPath - 2) @ [NUL], 2 + 1 + (length sock - 1))
           else Some (strncpy sock (kSunPath - 1) @ [NUL], 2 + length sock + 1))"

definition sd_notify :: "(string \<rightharpoonup> string) \<Rightarrow> bool \<Rightarrow> (string \<Rightarrow> string \<Rightarrow> bool) \<Rightarrow> string \<Rightarrow> bool" where
  \<comment> \<open>whether a socket can be made, and the outcome of sending a message to the bytes of an address\<close>
  "sd_notify env socket_ok sendto state = (case env ''NOTIFY_SOCKET'' of
     None \<Rightarrow> False
   | Some sock \<Rightarrow>
       if sock = [] \<or> \<not> socket_ok then False
       else case notify_address sock of None \<Rightarrow> False
       | Some (path, len) \<Rightarrow> sendto (take (len - 2) path) state)"

section \<open>The file watcher\<close>

record file_watcher =
  fw_file_name :: string
  fw_last_updated :: int
  fw_exists :: bool

definition kMaxStaleMillis :: int where
  "kMaxStaleMillis = 2000"

definition new_watcher :: "(string \<Rightarrow> bool) \<Rightarrow> int \<Rightarrow> string \<Rightarrow> file_watcher" where
  \<comment> \<open>the first argument is \<open>access(name, F_OK) != -1\<close>\<close>
  "new_watcher accessible now file_name =
     \<lparr>fw_file_name = file_name, fw_last_updated = now, fw_exists = accessible file_name\<rparr>"

definition copy_watcher :: "file_watcher \<Rightarrow> file_watcher" where
  \<comment> \<open>the constructor that copies or moves; what a move leaves in the source is not used\<close>
  "copy_watcher other = \<lparr>fw_file_name = fw_file_name other, fw_last_updated = fw_last_updated other, fw_exists = fw_exists other\<rparr>"

definition assign_watcher :: "file_watcher \<Rightarrow> file_watcher \<Rightarrow> file_watcher" where
  \<comment> \<open>both assignments, in the order of their stores\<close>
  "assign_watcher other w =
     w\<lparr>fw_file_name := fw_file_name other, fw_exists := fw_exists other, fw_last_updated := fw_last_updated other\<rparr>"

definition watcher_exists :: "(string \<Rightarrow> bool) \<Rightarrow> int \<Rightarrow> file_watcher \<Rightarrow> bool \<times> file_watcher" where
  \<comment> \<open>\<open>now\<close> counts the ticks of the system clock, which are nanoseconds\<close>
  "watcher_exists accessible now w =
     (let w1 = (if kMaxStaleMillis < now - fw_last_updated w
                then w\<lparr>fw_exists := accessible (fw_file_name w), fw_last_updated := now\<rparr> else w)
      in (fw_exists w1, w1))"

section \<open>What is inherited\<close>

lemma first_fd_spec:
  "first_fd P fd n = Some k \<longleftrightarrow> fd \<le> k \<and> k < fd + int n \<and> P k \<and> (\<forall>j. fd \<le> j \<and> j < k \<longrightarrow> \<not> P j)"
proof (induction n arbitrary: fd)
  case 0
  then show ?case by auto
next
  case (Suc n)
  show ?case
  proof (cases "P fd")
    case True
    then show ?thesis by (auto simp: order_le_less)
  next
    case False
    have "(\<forall>j. fd \<le> j \<and> j < k \<longrightarrow> \<not> P j) \<longleftrightarrow> (\<forall>j. fd + 1 \<le> j \<and> j < k \<longrightarrow> \<not> P j)"
      using False by (metis order_le_less zle_add1_eq_le add1_zle_eq)
    moreover have "fd \<le> k \<and> P k \<longleftrightarrow> fd + 1 \<le> k \<and> P k" using False by (auto simp: order_le_less)
    ultimately show ?thesis using False Suc.IH [of "fd + 1"] by auto
  qed
qed

lemma first_fd_none: "first_fd P fd n = None \<longleftrightarrow> (\<forall>k. fd \<le> k \<and> k < fd + int n \<longrightarrow> \<not> P k)"
proof (induction n arbitrary: fd)
  case 0
  then show ?case by auto
next
  case (Suc n)
  have "(\<forall>k. fd \<le> k \<and> k < fd + int (Suc n) \<longrightarrow> \<not> P k) \<longleftrightarrow>
      \<not> P fd \<and> (\<forall>k. fd + 1 \<le> k \<and> k < fd + 1 + int n \<longrightarrow> \<not> P k)"
  proof -
    have "fd \<le> k \<and> k < fd + int (Suc n) \<longleftrightarrow> k = fd \<or> fd + 1 \<le> k \<and> k < fd + 1 + int n" for k by auto
    then show ?thesis by (simp only:) blast
  qed
  then show ?case using Suc.IH [of "fd + 1"] by simp
qed

lemma listen_fds_number:
  assumes "sd_cached s < 0" and "sd_env s ''LISTEN_FDS'' = Some (show_nat n)" and "int n < 2 ^ 31"
  shows "listen_fds s = (int n, s\<lparr>sd_cached := int n,
    sd_env := (sd_env s)(''LISTEN_FDS'' := None, ''LISTEN_PID'' := None)\<rparr>)"
proof -
  have "strtoll (show_nat n @ NUL # []) = (int n, length (show_nat n))"
    by (rule strtoll_show_nat) (use assms(3) in \<open>simp_all add: isdigit_def NUL_def code_def int64_max_def\<close>)
  moreover have "show_nat n \<noteq> []" using show_nat_digits [of n] by simp
  moreover have "int32 (int n) = int n" using assms(3) by (simp add: int32_def)
  ultimately show ?thesis using assms(1,2) by (simp add: listen_fds_def)
qed

text \<open>
  The daemon takes over the right socket: given the number of inherited descriptors, the search for a UDP
  port returns the first of them that is a datagram socket of IPv4 or IPv6 bound to the port, and none
  exactly when there is no such one; the variables of systemd are cleared and every later search
  sees the same number.
\<close>

theorem inherited_sockets_are_found:
  assumes "sd_cached s < 0" and "sd_env s ''LISTEN_FDS'' = Some (show_nat n)" and "int n < 2 ^ 31 - 3"
  shows "let (r, s1) = get_systemd_udp_socket K port s in
    (\<forall>fd. r = Some fd \<longleftrightarrow> 3 \<le> fd \<and> fd < 3 + int n \<and> udp_bound K port fd \<and>
       (\<forall>j. 3 \<le> j \<and> j < fd \<longrightarrow> \<not> udp_bound K port j)) \<and>
    (r = None \<longleftrightarrow> (\<forall>fd. 3 \<le> fd \<and> fd < 3 + int n \<longrightarrow> \<not> udp_bound K port fd)) \<and>
    sd_env s1 ''LISTEN_FDS'' = None \<and> sd_env s1 ''LISTEN_PID'' = None \<and> listen_fds s1 = (int n, s1)"
proof -
  let ?s1 = "s\<lparr>sd_cached := int n, sd_env := (sd_env s)(''LISTEN_FDS'' := None, ''LISTEN_PID'' := None)\<rparr>"
  let ?r = "first_fd (udp_bound K port) 3 n"
  have l: "listen_fds s = (int n, ?s1)" by (rule listen_fds_number) (use assms in simp_all)
  have r: "get_systemd_udp_socket K port s = (?r, ?s1)"
    by (cases "n = 0") (simp_all add: get_systemd_udp_socket_def l SD_LISTEN_FDS_START_def)
  have "listen_fds ?s1 = (int n, ?s1)" by (simp add: listen_fds_def)
  moreover have "sd_env ?s1 ''LISTEN_FDS'' = None" "sd_env ?s1 ''LISTEN_PID'' = None" by simp_all
  ultimately show ?thesis
    unfolding r Let_def prod.case using first_fd_spec [of "udp_bound K port" 3 n] first_fd_none [of "udp_bound K port" 3 n]
    by blast
qed

text \<open>Three descriptors, the second of which is bound to port 1234.\<close>

definition sample_os :: os where
  "sample_os = \<lparr>os_domain = (\<lambda>fd. Some (if fd = 3 then AF_UNIX else AF_INET6)), os_type = (\<lambda>fd. Some SOCK_DGRAM),
     os_name = (\<lambda>fd. Some (if fd = 3 then (AF_UNIX, 0) else (AF_INET6, 1230 + fd)))\<rparr>"

theorem inherited_sockets_are_found_witness:
  "fst (get_systemd_udp_socket sample_os 1234 \<lparr>sd_cached = - 1, sd_env = [''LISTEN_FDS'' \<mapsto> show_nat 3]\<rparr>) = Some 4"
proof -
  let ?s = "\<lparr>sd_cached = - 1, sd_env = [''LISTEN_FDS'' \<mapsto> show_nat 3]\<rparr>"
  have "udp_bound sample_os 1234 4" "\<not> udp_bound sample_os 1234 3"
    by (simp_all add: udp_bound_def sample_os_def is_socket_type_def get_socket_port_def AF_UNIX_def AF_INET_def
        AF_INET6_def SOCK_DGRAM_def)
  moreover have "fst (get_systemd_udp_socket sample_os 1234 ?s) = Some 4 \<longleftrightarrow>
      (3::int) \<le> 4 \<and> (4::int) < 3 + int 3 \<and> udp_bound sample_os 1234 4 \<and> (\<forall>j. 3 \<le> j \<and> j < 4 \<longrightarrow> \<not> udp_bound sample_os 1234 j)"
  proof -
    have "sd_cached ?s < 0" "sd_env ?s ''LISTEN_FDS'' = Some (show_nat 3)" "int 3 < 2 ^ 31 - 3" by simp_all
    from inherited_sockets_are_found [OF this, of sample_os 1234] show ?thesis
      unfolding Let_def split_beta by blast
  qed
  moreover have "3 \<le> j \<and> j < 4 \<longleftrightarrow> j = 3" for j :: int by auto
  ultimately show ?thesis by simp
qed

end
