(* ===== verification/Startup.thy ===== *)
theory Startup
  imports Daemon Lifecycle Systemd
begin

text \<open>
  The start of the process (\<open>bin/spectatord_main.cc\<close>, \<open>spectator/sample_config.cc\<close>): the command
  line flags, the configuration made of them, and the arguments of the server. The command
  line library and \<open>absl::StrSplit\<close> are parameters.
\<close>

section \<open>Flags\<close>

definition parse_port_flag :: "(string \<Rightarrow> string + int) \<Rightarrow> string \<Rightarrow> string + int" where
  \<comment> \<open>\<open>AbslParseFlag\<close>: an error message or the port; the argument is the parser of \<open>int\<close> flags\<close>
  "parse_port_flag parse_int text = (case parse_int text of
     Inl e \<Rightarrow> Inl e
   | Inr p \<Rightarrow> if p < 1 \<or> 65535 < p then Inl ''not in range [1,65535]'' else Inr p)"

definition unparse_port_flag :: "(int \<Rightarrow> string) \<Rightarrow> int \<Rightarrow> string" where
  "unparse_port_flag unparse_int p = unparse_int p"

record 'd flags =
  fl_admin_port :: int
  fl_age_gauge_limit :: nat
  fl_common_tags :: string
  fl_debug :: bool
  fl_enable_external :: bool
  fl_enable_socket :: bool
  fl_enable_statsd :: bool
  fl_ipv4_only :: bool
  fl_metatron_dir :: string
  fl_meter_ttl :: 'd
  fl_frequency :: 'd
  fl_no_common_tags :: bool
  fl_port :: int
  fl_process_name :: string
  fl_socket_path :: string
  fl_statsd_port :: int
  fl_uri :: string
  fl_enable_insight_logs :: bool
  fl_verbose :: bool
  fl_verbose_http :: bool


section \<open>Splitting texts\<close>




section \<open>The configuration\<close>






record server_args =
  sa_ipv4_only :: bool
  sa_port_number :: int
  sa_statsd_port_number :: "int option"
  sa_socket_path :: "string option"

definition main_server_args :: "'d flags \<Rightarrow> server_args" where
  "main_server_args fl = \<lparr>sa_ipv4_only = fl_ipv4_only fl, sa_port_number = fl_port fl,
     sa_statsd_port_number = (if fl_enable_statsd fl then Some (fl_statsd_port fl) else None),
     sa_socket_path = (if fl_enable_socket fl then Some (fl_socket_path fl) else None)\<rparr>"


section \<open>Common tags\<close>




















section \<open>The life of the process\<close>













end
