(* ===== verification/ServerStart.thy ===== *)
theory ServerStart
  imports Startup
begin

text \<open>
  \<open>Server::Start\<close> and \<open>Server::Stop\<close> (\<open>server/spectatord.cc\<close>): what the start does to the operating
  system, in order, and the end of the upkeep thread as a step relation of the two threads. Opening a
  socket may throw, which ends the start (and the process).
\<close>

section \<open>The start\<close>

datatype listener =
    Inherited_udp int bool     \<comment> \<open>the descriptor from systemd, and whether it is IPv6\<close>
  | Own_udp bool int           \<comment> \<open>IPv4 only, the port\<close>
  | Own_local string

datatype protocol = Line_protocol | Statsd_protocol

datatype effect =
    Start_upkeep_thread
  | Unlink string | Make_dir string | Clear_umask
  | Listen listener protocol
  | Notify_ready
  | Run_io

definition udp_listener :: "os \<Rightarrow> bool \<Rightarrow> int \<Rightarrow> sd_state \<Rightarrow> listener \<times> sd_state" where
  "udp_listener K ipv4_only port s = (let (fd, s1) = get_systemd_udp_socket K port s
     in (case fd of Some fd \<Rightarrow> Inherited_udp fd (is_socket_ipv6 K fd) | None \<Rightarrow> Own_udp ipv4_only port, s1))"

definition parent_dir :: "string \<Rightarrow> string option" where
  \<comment> \<open>what stands before the last slash\<close>
  "parent_dir path = (if CHR ''/'' \<in> set path
     then Some (rev (tl (dropWhile (\<lambda>c. c \<noteq> CHR ''/'') (rev path)))) else None)"

definition prepare_socket_path :: "string \<Rightarrow> effect list" where
  "prepare_socket_path path = Unlink path #
     (case parent_dir path of Some dir \<Rightarrow> [Make_dir dir] | None \<Rightarrow> []) @ [Clear_umask]"

definition statsd_effects :: "os \<Rightarrow> server_args \<Rightarrow> sd_state \<Rightarrow> effect list \<times> sd_state" where
  "statsd_effects K args s = (case sa_statsd_port_number args of
     Some port \<Rightarrow> (let (l, s1) = udp_listener K (sa_ipv4_only args) port s in ([Listen l Statsd_protocol], s1))
   | None \<Rightarrow> ([], s))"

definition local_effects :: "server_args \<Rightarrow> effect list" where
  "local_effects args = (case sa_socket_path args of
     Some path \<Rightarrow> prepare_socket_path path @ [Listen (Own_local path) Line_protocol]
   | None \<Rightarrow> [])"

definition start_effects :: "os \<Rightarrow> server_args \<Rightarrow> sd_state \<Rightarrow> effect list \<times> sd_state" where
  \<comment> \<open>the effects of a start in which nothing throws\<close>
  "start_effects K args s =
     (let (udp, s1) = udp_listener K (sa_ipv4_only args) (sa_port_number args) s;
          (statsd, s2) = statsd_effects K args s1
      in ([Start_upkeep_thread, Listen udp Line_protocol] @ statsd @ local_effects args @ [Notify_ready, Run_io], s2))"

definition opens :: "(listener \<Rightarrow> bool) \<Rightarrow> effect \<Rightarrow> bool" where
  "opens can e = (case e of Listen l p \<Rightarrow> can l | _ \<Rightarrow> True)"

definition server_start :: "os \<Rightarrow> (listener \<Rightarrow> bool) \<Rightarrow> server_args \<Rightarrow> sd_state \<Rightarrow> effect list" where
  \<comment> \<open>until the first socket that cannot be opened\<close>
  "server_start K can args s = takeWhile (opens can) (fst (start_effects K args s))"

definition listeners :: "effect list \<Rightarrow> (listener \<times> protocol) list" where
  "listeners es = [(l, p). Listen l p \<leftarrow> es]"

lemma listeners_simps [simp]:
  "listeners [] = []" "listeners (Listen l p # es) = (l, p) # listeners es"
  "listeners (es @ fs) = listeners es @ listeners fs" "listeners (Start_upkeep_thread # es) = listeners es"
  "listeners (Unlink x # es) = listeners es" "listeners (Make_dir x # es) = listeners es"
  "listeners (Clear_umask # es) = listeners es" "listeners (Notify_ready # es) = listeners es"
  "listeners (Run_io # es) = listeners es"
  by (simp_all add: listeners_def)

lemma listeners_prepare [simp]: "listeners (prepare_socket_path p) = []"
  by (simp add: prepare_socket_path_def split: option.split)

lemma set_listeners: "(l, p) \<in> set (listeners es) \<longleftrightarrow> Listen l p \<in> set es"
  by (induction es) (auto simp: listeners_def split: effect.splits)

lemma listeners_parts:
  "length (listeners (local_effects args)) = (if sa_socket_path args = None then 0 else 1)"
  "listeners (fst (statsd_effects K args s)) = (case sa_statsd_port_number args of
     Some port \<Rightarrow> [(fst (udp_listener K (sa_ipv4_only args) port s), Statsd_protocol)] | None \<Rightarrow> [])"
  by (simp_all add: local_effects_def statsd_effects_def split_beta Let_def split: option.split)

lemma never_ready_before: "Notify_ready \<notin> set (fst (statsd_effects K args s))" "Notify_ready \<notin> set (local_effects args)"
  by (auto simp: statsd_effects_def local_effects_def prepare_socket_path_def split_beta Let_def split: option.splits)

lemma takeWhile_before:
  assumes "x \<notin> set es"
  shows "x \<in> set (takeWhile P (es @ x # fs)) \<longleftrightarrow> list_all P (es @ [x])"
proof (cases "list_all P es")
  case True
  then have "takeWhile P (es @ x # fs) = es @ takeWhile P (x # fs)"
    by (simp add: takeWhile_append list_all_iff)
  then show ?thesis using assms True by (cases "P x") simp_all
next
  case False
  then have "takeWhile P (es @ x # fs) = takeWhile P es" by (auto simp: takeWhile_append list_all_iff)
  then show ?thesis using assms False by (auto dest: set_takeWhileD)
qed

lemma start_effects_split:
  obtains es where "fst (start_effects K args s) = es @ [Notify_ready, Run_io]" and "Notify_ready \<notin> set es"
    and "listeners (fst (start_effects K args s)) = listeners es"
    and "listeners es = (fst (udp_listener K (sa_ipv4_only args) (sa_port_number args) s), Line_protocol) #
       listeners (fst (statsd_effects K args (snd (udp_listener K (sa_ipv4_only args) (sa_port_number args) s)))) @
       listeners (local_effects args)"
  by (rule that [of "[Start_upkeep_thread, Listen (fst (udp_listener K (sa_ipv4_only args) (sa_port_number args) s)) Line_protocol] @
       fst (statsd_effects K args (snd (udp_listener K (sa_ipv4_only args) (sa_port_number args) s))) @ local_effects args"])
    (simp_all add: start_effects_def split_beta Let_def never_ready_before)

lemma opens_all: "list_all (opens can) es \<longleftrightarrow> list_all (\<lambda>(l, p). can l) (listeners es)"
  by (induction es) (auto simp: opens_def listeners_def split: effect.splits)

lemma inherited_port:
  assumes "fst (udp_listener K ipv4 port s) = Inherited_udp fd b"
  shows "get_socket_port K fd = port"
proof -
  have "fst (get_systemd_udp_socket K port s) = Some fd"
    using assms by (auto simp: udp_listener_def split_beta Let_def split: option.splits)
  then obtain m where "first_fd (udp_bound K port) SD_LISTEN_FDS_START m = Some fd"
    by (auto simp: get_systemd_udp_socket_def split_beta Let_def split: if_splits)
  then have "udp_bound K port fd" by (simp add: first_fd_spec)
  then show ?thesis by (auto simp: udp_bound_def)
qed

lemma inherited_again:
  assumes "fst (udp_listener K ipv4 port s) = Inherited_udp fd b"
  shows "fst (udp_listener K ipv4 port (snd (udp_listener K ipv4 port s))) = Inherited_udp fd b"
proof -
  obtain n s1 where l: "listen_fds s = (n, s1)" by fastforce
  have n: "0 < n" and fd: "first_fd (udp_bound K port) SD_LISTEN_FDS_START (nat n) = Some fd" and b: "b = is_socket_ipv6 K fd"
    using assms by (auto simp: udp_listener_def get_systemd_udp_socket_def l split: option.splits if_splits)
  have "sd_cached s1 = n" using l n by (auto simp: listen_fds_def Let_def split: if_splits option.splits prod.splits)
  then have "listen_fds s1 = (n, s1)" using n by (simp add: listen_fds_def)
  then show ?thesis using n fd b by (simp add: udp_listener_def get_systemd_udp_socket_def l)
qed

text \<open>
  C20. The daemon announces that it is ready, and runs, only after every configured socket has been opened, and
  then exactly once: one socket for the line protocol, one for statsd when a port is given, and the local
  socket when a path is given, in this order. When the first UDP server takes over an inherited descriptor, the second
  one takes over the same descriptor exactly if it is configured with the same port.
\<close>

theorem ready_means_listening:
  "let plan = fst (start_effects K args s)
   in (Notify_ready \<in> set (server_start K can args s) \<longleftrightarrow> list_all (\<lambda>(l, p). can l) (listeners plan)) \<and>
     (Notify_ready \<in> set (server_start K can args s) \<longrightarrow> server_start K can args s = plan) \<and>
     count_list plan Notify_ready = 1 \<and>
     map snd (listeners plan) = [Line_protocol] @ (if sa_statsd_port_number args = None then [] else [Statsd_protocol]) @
       (if sa_socket_path args = None then [] else [Line_protocol]) \<and>
     (\<forall>port fd b. sa_statsd_port_number args = Some port \<and> fst (listeners plan ! 0) = Inherited_udp fd b \<longrightarrow>
        ((\<exists>c. fst (listeners plan ! 1) = Inherited_udp fd c) \<longleftrightarrow> port = sa_port_number args))"
proof -
  let ?plan = "fst (start_effects K args s)"
  obtain es where es: "?plan = es @ [Notify_ready, Run_io]" "Notify_ready \<notin> set es" "listeners ?plan = listeners es"
    "listeners es = (fst (udp_listener K (sa_ipv4_only args) (sa_port_number args) s), Line_protocol) #
       listeners (fst (statsd_effects K args (snd (udp_listener K (sa_ipv4_only args) (sa_port_number args) s)))) @
       listeners (local_effects args)"
    by (rule start_effects_split)
  have ready: "Notify_ready \<in> set (server_start K can args s) \<longleftrightarrow> list_all (opens can) es"
    unfolding server_start_def es(1) using takeWhile_before [OF es(2), of "opens can" "[Run_io]"]
    by (simp add: opens_def)
  have all: "list_all (opens can) es \<longleftrightarrow> list_all (\<lambda>(l, p). can l) (listeners ?plan)"
    by (simp add: opens_all es(3))
  have run: "server_start K can args s = ?plan" if "list_all (opens can) es"
  proof -
    have "list_all (opens can) ?plan" using that by (simp add: es(1)) (simp add: opens_def)
    then show ?thesis by (simp add: server_start_def takeWhile_eq_all_conv list_all_iff)
  qed
  have once: "count_list ?plan Notify_ready = 1" using es(1,2) by simp
  have local: "map snd (listeners (local_effects args)) = (if sa_socket_path args = None then [] else [Line_protocol])"
    by (simp add: local_effects_def split: option.split)
  have order: "map snd (listeners ?plan) = [Line_protocol] @ (if sa_statsd_port_number args = None then [] else [Statsd_protocol]) @
       (if sa_socket_path args = None then [] else [Line_protocol])"
    unfolding es(3,4) by (auto simp: listeners_parts local split: option.split)
  have same: "(\<exists>c. fst (listeners ?plan ! 1) = Inherited_udp fd c) \<longleftrightarrow> port = sa_port_number args"
    if "sa_statsd_port_number args = Some port" "fst (listeners ?plan ! 0) = Inherited_udp fd b" for port fd b
  proof -
    let ?u = "udp_listener K (sa_ipv4_only args)"
    have first: "fst (?u (sa_port_number args) s) = Inherited_udp fd b"
      and second: "fst (listeners ?plan ! 1) = fst (?u port (snd (?u (sa_port_number args) s)))"
      using that by (simp_all add: es(3,4) listeners_parts)
    show ?thesis
      unfolding second using inherited_port [OF first] inherited_port [of K "sa_ipv4_only args" port _ fd] inherited_again [OF first]
      by blast
  qed
  show ?thesis unfolding Let_def using ready all run once order same by blast
qed

theorem ready_means_listening_witness:
  "let args = \<lparr>sa_ipv4_only = False, sa_port_number = 1234, sa_statsd_port_number = Some 8125,
       sa_socket_path = Some ''/run/spectatord/spectatord.unix''\<rparr>;
     K = \<lparr>os_domain = (\<lambda>fd. Some AF_INET), os_type = (\<lambda>fd. Some SOCK_DGRAM),
       os_name = (\<lambda>fd. if fd = 4 then Some (AF_INET, 8125) else Some (AF_INET, 1))\<rparr>;
     s = \<lparr>sd_cached = -1, sd_env = [''LISTEN_FDS'' \<mapsto> ''2'']\<rparr>
   in map fst (listeners (fst (start_effects K args s))) =
        [Own_udp False 1234, Inherited_udp 4 False, Own_local ''/run/spectatord/spectatord.unix''] \<and>
      Notify_ready \<notin> set (server_start K (\<lambda>l. l \<noteq> Own_udp False 1234) args s)"
proof -
  let ?args = "\<lparr>sa_ipv4_only = False, sa_port_number = 1234, sa_statsd_port_number = Some 8125,
       sa_socket_path = Some ''/run/spectatord/spectatord.unix''\<rparr>"
  let ?K = "\<lparr>os_domain = (\<lambda>fd. Some AF_INET), os_type = (\<lambda>fd. Some SOCK_DGRAM),
       os_name = (\<lambda>fd. if fd = 4 then Some (AF_INET, 8125) else Some (AF_INET, 1))\<rparr>"
  let ?s = "\<lparr>sd_cached = -1, sd_env = [''LISTEN_FDS'' \<mapsto> ''2'']\<rparr>"
  have l: "map fst (listeners (fst (start_effects ?K ?args ?s))) =
      [Own_udp False 1234, Inherited_udp 4 False, Own_local ''/run/spectatord/spectatord.unix'']" by code_simp
  then have "\<not> list_all (\<lambda>(l, p). l \<noteq> Own_udp False 1234) (listeners (fst (start_effects ?K ?args ?s)))"
    by (cases "listeners (fst (start_effects ?K ?args ?s))") auto
  then show ?thesis
    using ready_means_listening [of ?K ?args ?s "\<lambda>l. l \<noteq> Own_udp False 1234"] l unfolding Let_def by blast
qed

section \<open>The watchdog\<close>

definition ensure_not_stuck :: "bool \<Rightarrow> int \<Rightarrow> int \<Rightarrow> bool" where
  \<comment> \<open>whether the process aborts, from the time of the last successful send: more than sixty seconds of nanoseconds, which as seconds in a \<open>double\<close> are
    still more than sixty; nothing calls it\<close>
  "ensure_not_stuck is_enabled now last_success \<longleftrightarrow> is_enabled \<and> 60 * 1000000000 < now - last_success"

section \<open>The stop\<close>

text \<open>
  The handler of the first signal stops the event loop and calls \<open>Stop\<close>, which raises the flag, notifies the
  condition variable and joins the upkeep thread. The thread tests the flag, does a turn and waits for the rest of
  the thirty seconds, without looking at the flag again; a notification that comes before it waits is lost.
\<close>

datatype upkeep_pc = Up_test | Up_turn | Up_wait | Up_done
datatype stop_pc = St_idle | St_flagged | St_joining | St_joined

record stopping =
  sp_should_stop :: bool
  sp_upkeep :: upkeep_pc
  sp_stop :: stop_pc
  sp_turns :: nat       \<comment> \<open>turns of the loop that were finished\<close>

definition new_stopping :: stopping where
  "new_stopping = \<lparr>sp_should_stop = False, sp_upkeep = Up_test, sp_stop = St_idle, sp_turns = 0\<rparr>"

inductive stop_step :: "stopping \<Rightarrow> stopping \<Rightarrow> bool" where
  test: "sp_upkeep s = Up_test \<Longrightarrow> stop_step s (s\<lparr>sp_upkeep := (if sp_should_stop s then Up_done else Up_turn)\<rparr>)"
| slow_turn: "sp_upkeep s = Up_turn \<Longrightarrow> stop_step s (s\<lparr>sp_upkeep := Up_test, sp_turns := Suc (sp_turns s)\<rparr>)"
| turn: "sp_upkeep s = Up_turn \<Longrightarrow> stop_step s (s\<lparr>sp_upkeep := Up_wait, sp_turns := Suc (sp_turns s)\<rparr>)"
| timeout: "sp_upkeep s = Up_wait \<Longrightarrow> stop_step s (s\<lparr>sp_upkeep := Up_test\<rparr>)"
| flag: "sp_stop s = St_idle \<Longrightarrow> stop_step s (s\<lparr>sp_should_stop := True, sp_stop := St_flagged\<rparr>)"
| notify: "sp_stop s = St_flagged \<Longrightarrow> stop_step s
    (s\<lparr>sp_stop := St_joining, sp_upkeep := (if sp_upkeep s = Up_wait then Up_test else sp_upkeep s)\<rparr>)"
| join: "sp_stop s = St_joining \<Longrightarrow> sp_upkeep s = Up_done \<Longrightarrow> stop_step s (s\<lparr>sp_stop := St_joined\<rparr>)"

inductive stop_steps :: "stopping \<Rightarrow> stopping \<Rightarrow> bool" where
  refl: "stop_steps s s"
| step: "stop_steps s t \<Longrightarrow> stop_step t u \<Longrightarrow> stop_steps s u"

inductive_cases stop_stepE: "stop_step s s'"

definition stop_measure :: "stopping \<Rightarrow> nat" where
  "stop_measure s =
     (case sp_upkeep s of Up_test \<Rightarrow> 1 | Up_turn \<Rightarrow> 3 | Up_wait \<Rightarrow> 2 | Up_done \<Rightarrow> 0) +
     (case sp_stop s of St_idle \<Rightarrow> 3 | St_flagged \<Rightarrow> 2 | St_joining \<Rightarrow> 1 | St_joined \<Rightarrow> 0)"

definition stop_inv :: "stopping \<Rightarrow> bool" where
  "stop_inv s \<longleftrightarrow> (sp_should_stop s \<longleftrightarrow> sp_stop s \<noteq> St_idle) \<and> (sp_upkeep s = Up_done \<longrightarrow> sp_should_stop s) \<and>
     (sp_stop s = St_joined \<longrightarrow> sp_upkeep s = Up_done)"

lemma stop_inv_step: "stop_step s s' \<Longrightarrow> stop_inv s \<Longrightarrow> stop_inv s'"
  by (erule stop_stepE) (auto simp: stop_inv_def)

lemma stop_inv_steps: "stop_steps s s' \<Longrightarrow> stop_inv s \<Longrightarrow> stop_inv s'"
  by (induction rule: stop_steps.induct) (auto intro: stop_inv_step)

lemma stop_measure_step:
  "stop_step s s' \<Longrightarrow> stop_inv s \<Longrightarrow> sp_should_stop s \<Longrightarrow> stop_measure s' < stop_measure s \<and> sp_should_stop s'"
  by (erule stop_stepE) (auto simp: stop_inv_def stop_measure_def split: upkeep_pc.splits)

lemma stop_not_stuck: "stop_inv s \<Longrightarrow> sp_stop s \<noteq> St_joined \<Longrightarrow> \<exists>s'. stop_step s s'"
  by (cases "sp_upkeep s"; cases "sp_stop s") (auto simp: stop_inv_def intro: stop_step.intros)

lemma turns_after_flag:
  "stop_steps s s' \<Longrightarrow> stop_inv s \<Longrightarrow> sp_should_stop s \<Longrightarrow>
   stop_inv s' \<and> sp_should_stop s' \<and>
   sp_turns s' + (if sp_upkeep s' = Up_turn then 1 else 0) \<le> sp_turns s + (if sp_upkeep s = Up_turn then 1 else 0)"
proof (induction rule: stop_steps.induct)
  case (refl s)
  then show ?case by simp
next
  case (step s t u)
  from step.hyps(2) show ?case using step.IH [OF step.prems]
    by (cases rule: stop_step.cases) (auto simp: stop_inv_def split: if_splits)
qed

text \<open>
  C35. Once the flag is raised, \<open>Stop\<close> returns after at most five steps of the two threads, whatever their
  order, and the upkeep thread finishes at most the turn it is in. But a notification during that turn is lost: the
  thread then sits in its wait and nothing but the timeout, up to thirty seconds, lets \<open>Stop\<close> go on.
\<close>

theorem stop_returns_after_at_most_one_turn:
  assumes "stop_steps new_stopping s" and "sp_should_stop s"
  shows "(sp_stop s \<noteq> St_joined \<longrightarrow> (\<exists>s'. stop_step s s')) \<and> stop_measure s \<le> 5 \<and>
    (\<forall>s'. stop_step s s' \<longrightarrow> stop_measure s' < stop_measure s) \<and>
    (\<forall>s'. stop_steps s s' \<longrightarrow> sp_turns s' \<le> Suc (sp_turns s)) \<and>
    (sp_stop s = St_joining \<and> sp_upkeep s = Up_wait \<longrightarrow> (\<forall>s'. stop_step s s' \<longrightarrow> s' = s\<lparr>sp_upkeep := Up_test\<rparr>))"
proof -
  have inv: "stop_inv s" by (rule stop_inv_steps [OF assms(1)]) (simp add: stop_inv_def new_stopping_def)
  have "stop_measure s \<le> 5"
    using inv assms(2) by (auto simp: stop_inv_def stop_measure_def split: upkeep_pc.split stop_pc.split)
  moreover have "sp_turns s' \<le> Suc (sp_turns s)" if "stop_steps s s'" for s'
    using turns_after_flag [OF that inv assms(2)] by (auto split: if_splits)
  moreover have "s' = s\<lparr>sp_upkeep := Up_test\<rparr>" if "sp_stop s = St_joining" "sp_upkeep s = Up_wait" "stop_step s s'" for s'
    using that(3) by (rule stop_stepE) (use that in auto)
  ultimately show ?thesis using stop_not_stuck [OF inv] stop_measure_step [OF _ inv assms(2)] by blast
qed

text \<open>The lost notification: the flag and the notification both fall into the first turn.\<close>

theorem stop_returns_after_at_most_one_turn_witness:
  "\<exists>s. stop_steps new_stopping s \<and> sp_stop s = St_joining \<and> sp_upkeep s = Up_wait \<and>
     (\<forall>s'. stop_step s s' \<longrightarrow> s' = s\<lparr>sp_upkeep := Up_test\<rparr>)"
proof -
  let ?s1 = "new_stopping\<lparr>sp_upkeep := Up_turn\<rparr>" and ?s2 = "\<lparr>sp_should_stop = True, sp_upkeep = Up_turn, sp_stop = St_flagged, sp_turns = 0\<rparr>"
  let ?s3 = "?s2\<lparr>sp_stop := St_joining\<rparr>" and ?s4 = "\<lparr>sp_should_stop = True, sp_upkeep = Up_wait, sp_stop = St_joining, sp_turns = 1\<rparr>"
  have "stop_step new_stopping ?s1" using stop_step.test [of new_stopping] by (simp add: new_stopping_def)
  moreover have "stop_step ?s1 ?s2" using stop_step.flag [of ?s1] by (simp add: new_stopping_def)
  moreover have "stop_step ?s2 ?s3" using stop_step.notify [of ?s2] by simp
  moreover have "stop_step ?s3 ?s4" using stop_step.turn [of ?s3] by simp
  ultimately have "stop_steps new_stopping ?s4" by (meson stop_steps.intros)
  moreover from stop_returns_after_at_most_one_turn [OF this]
  have "\<forall>s'. stop_step ?s4 s' \<longrightarrow> s' = ?s4\<lparr>sp_upkeep := Up_test\<rparr>" by simp
  ultimately show ?thesis by (intro exI [of _ ?s4]) simp
qed

end
