(* ===== verification/CurlHandle.thy ===== *)
theory CurlHandle
  imports HttpClient
begin

text \<open>
  The transfer handle of \<open>spectator/http_client.cc\<close> (\<open>CurlHandle\<close>, \<open>CurlHeaders\<close>): a thread keeps one and
  uses it for all of its requests. \<open>HttpClient\<close> models a request as if it had a handle of its own; here
  the options are set on a handle that carries whatever earlier requests left, and the two are shown to be the
  same. The library is a parameter: what \<open>curl_easy_perform\<close> does with the options of the handle, its
  connection cache and the world.
\<close>

section \<open>Certificates\<close>

record cert_info =
  ci_ssl_cert :: string
  ci_ssl_key :: string
  ci_ca_info :: string
  ci_app_name :: string

definition find_certificate :: "bool \<Rightarrow> string \<Rightarrow> cert_info" where
  \<comment> \<open>the stub of the public build\<close>
  "find_certificate external_enabled metatron_dir =
     \<lparr>ci_ssl_cert = ''ssl_cert'', ci_ssl_key = ''ssl_key'', ci_ca_info = ''ca_info'', ci_app_name = ''app_name''\<rparr>"

definition metatron_verify_callback :: "int \<Rightarrow> int" where
  "metatron_verify_callback preverify_ok = 0"

definition sslctx_metatron_verify :: curl_code where
  \<comment> \<open>\<open>CURLE_SSL_CONNECT_ERROR\<close>\<close>
  "sslctx_metatron_verify = Curl_other 35"

section \<open>The handle\<close>

datatype curl_option =
    O_USERAGENT | O_TCP_KEEPALIVE | O_MAXCONNECTS | O_FORBID_REUSE
  | O_URL | O_HTTPHEADER | O_CONNECTTIMEOUT_MS | O_TIMEOUT_MS
  | O_POST | O_POSTFIELDS | O_POSTFIELDSIZE | O_CUSTOMREQUEST
  | O_SSLCERT | O_SSLKEY | O_CAPATH | O_SSL_VERIFYPEER | O_CAINFO | O_SSL_CTX_FUNCTION | O_SSL_CTX_DATA
  | O_SSL_VERIFYHOST | O_ERRORBUFFER
  | O_WRITEFUNCTION | O_WRITEDATA | O_HEADERDATA | O_HEADERFUNCTION | O_STDERR | O_VERBOSE

datatype curl_param =
    P_long int | P_text string | P_list "string list" | P_data string
  | P_null | P_errbuf | P_stdout | P_response | P_resp_headers
  | P_ignore_output | P_capture_output | P_capture_headers | P_metatron_verify

type_synonym curl_options = "curl_option \<rightharpoonup> curl_param"

record 'k curl_handle =
  ch_options :: curl_options
  ch_cache :: 'k              \<comment> \<open>connections and resolver, which a reset keeps\<close>
  ch_headers :: "string list option"
  ch_payload :: "string option"
  ch_response :: string
  ch_resp_headers :: "(string \<times> string) list"

definition set_opt :: "curl_option \<Rightarrow> curl_param \<Rightarrow> 'k curl_handle \<Rightarrow> 'k curl_handle" where
  "set_opt opt v h = h\<lparr>ch_options := (ch_options h)(opt \<mapsto> v)\<rparr>"

definition user_agent :: string where
  "user_agent = ''spectatord/VERSION''"

definition apply_persistent_settings :: "'k curl_handle \<Rightarrow> 'k curl_handle" where
  "apply_persistent_settings h = set_opt O_FORBID_REUSE (P_long 0) (set_opt O_MAXCONNECTS (P_long 2)
     (set_opt O_TCP_KEEPALIVE (P_long 1) (set_opt O_USERAGENT (P_text user_agent) h)))"

definition new_curl_handle :: "'k \<Rightarrow> 'k curl_handle" where
  \<comment> \<open>with the empty cache of \<open>curl_easy_init\<close>\<close>
  "new_curl_handle fresh = apply_persistent_settings \<lparr>ch_options = Map.empty, ch_cache = fresh, ch_headers = None,
     ch_payload = None, ch_response = [], ch_resp_headers = []\<rparr>"

definition append_header :: "string \<Rightarrow> string list \<Rightarrow> string list" where
  "append_header s headers = headers @ [cstr s]"

definition set_url :: "string \<Rightarrow> 'k curl_handle \<Rightarrow> 'k curl_handle" where
  "set_url url = set_opt O_URL (P_text (cstr url))"

definition set_headers :: "string list \<Rightarrow> 'k curl_handle \<Rightarrow> 'k curl_handle" where
  "set_headers headers h = set_opt O_HTTPHEADER (P_list headers) (h\<lparr>ch_headers := Some headers\<rparr>)"

definition set_connect_timeout :: "('d \<Rightarrow> int) \<Rightarrow> 'd \<Rightarrow> 'k curl_handle \<Rightarrow> 'k curl_handle" where
  \<comment> \<open>the first argument is \<open>absl::ToInt64Milliseconds\<close>\<close>
  "set_connect_timeout to_ms d = set_opt O_CONNECTTIMEOUT_MS (P_long (to_ms d))"

definition set_timeout :: "('d \<Rightarrow> int) \<Rightarrow> 'd \<Rightarrow> 'k curl_handle \<Rightarrow> 'k curl_handle" where
  "set_timeout to_ms d = set_opt O_TIMEOUT_MS (P_long (to_ms d))"

definition post_payload :: "string \<Rightarrow> 'k curl_handle \<Rightarrow> 'k curl_handle" where
  "post_payload payload h = set_opt O_POSTFIELDSIZE (P_long (int (length payload)))
     (set_opt O_POSTFIELDS (P_data payload) (set_opt O_POST (P_long 1) (h\<lparr>ch_payload := Some payload\<rparr>)))"

definition custom_request :: "string \<Rightarrow> 'k curl_handle \<Rightarrow> 'k curl_handle" where
  "custom_request mth = set_opt O_CUSTOMREQUEST (P_text mth)"

definition configure_metatron :: "cert_info \<Rightarrow> 'k curl_handle \<Rightarrow> 'k curl_handle" where
  "configure_metatron cert h =
     set_opt O_ERRORBUFFER P_errbuf (set_opt O_SSL_VERIFYHOST (P_long 0)
     (set_opt O_SSL_CTX_DATA (P_text (ci_app_name cert)) (set_opt O_SSL_CTX_FUNCTION P_metatron_verify
     (set_opt O_CAINFO (P_text (ci_ca_info cert)) (set_opt O_SSL_VERIFYPEER (P_long 1) (set_opt O_CAPATH P_null
     (set_opt O_SSLKEY (P_text (ci_ssl_key cert)) (set_opt O_SSLCERT (P_text (ci_ssl_cert cert)) h))))))))"

definition ignore_output :: "'k curl_handle \<Rightarrow> 'k curl_handle" where
  "ignore_output = set_opt O_WRITEFUNCTION P_ignore_output"

definition capture_output_opt :: "'k curl_handle \<Rightarrow> 'k curl_handle" where
  "capture_output_opt h = set_opt O_WRITEDATA P_response (set_opt O_WRITEFUNCTION P_capture_output h)"

definition capture_headers_opt :: "'k curl_handle \<Rightarrow> 'k curl_handle" where
  "capture_headers_opt h = set_opt O_HEADERFUNCTION P_capture_headers (set_opt O_HEADERDATA P_resp_headers h)"

definition trace_requests :: "'k curl_handle \<Rightarrow> 'k curl_handle" where
  "trace_requests h = set_opt O_VERBOSE (P_long 1) (set_opt O_STDERR P_stdout h)"

definition clear_for_reuse :: "'k curl_handle \<Rightarrow> 'k curl_handle" where
  \<comment> \<open>\<open>curl_easy_reset\<close> forgets all options; the error buffer is only logged\<close>
  "clear_for_reuse h = apply_persistent_settings
     (h\<lparr>ch_response := [], ch_resp_headers := [], ch_headers := None, ch_payload := None, ch_options := Map.empty\<rparr>)"

definition recreate :: "'k \<Rightarrow> 'k curl_handle \<Rightarrow> 'k curl_handle" where
  "recreate fresh h = apply_persistent_settings (h\<lparr>ch_options := Map.empty, ch_cache := fresh\<rparr>)"

section \<open>A transfer\<close>

definition deliver :: "'d transfer \<Rightarrow> 'k curl_handle \<Rightarrow> 'k curl_handle" where
  \<comment> \<open>the calls of the write and header functions that the handle has been given\<close>
  "deliver t h =
     h\<lparr>ch_response := (if ch_options h O_WRITEFUNCTION = Some P_capture_output \<and> ch_options h O_WRITEDATA = Some P_response
         then fold capture_output (tr_chunks t) (ch_response h) else ch_response h),
       ch_resp_headers := (if ch_options h O_HEADERFUNCTION = Some P_capture_headers \<and> ch_options h O_HEADERDATA = Some P_resp_headers
         then fold capture_header (tr_header_lines t) (ch_resp_headers h) else ch_resp_headers h)\<rparr>"

definition prepare ::
  "('d \<Rightarrow> int) \<Rightarrow> ('d \<Rightarrow> 'd \<Rightarrow> 'd) \<Rightarrow> cert_info \<Rightarrow> 'd http_config \<Rightarrow> http_request \<Rightarrow> 'k curl_handle \<Rightarrow> 'k curl_handle" where
  \<comment> \<open>\<open>HttpClient::perform\<close> up to the transfer\<close>
  "prepare to_ms dplus cert cfg rq h =
     (let h1 = clear_for_reuse h;
          total_timeout = dplus (hc_connect_timeout cfg) (hc_read_timeout cfg);
          h2 = set_connect_timeout to_ms (hc_connect_timeout cfg) (set_timeout to_ms total_timeout h1);
          h3 = set_headers (rq_headers rq) (set_url (rq_url rq) h2);
          h4 = (if rq_method rq = ''POST'' then post_payload (rq_payload rq) h3
                else if rq_method rq \<noteq> ''GET'' then custom_request (rq_method rq) h3 else h3);
          h5 = (if hc_external_enabled cfg then configure_metatron cert h4 else h4);
          h6 = (if hc_read_body cfg then capture_output_opt h5 else ignore_output h5);
          h7 = (if hc_read_headers cfg then capture_headers_opt h6 else h6)
      in if hc_verbose_requests cfg then trace_requests h7 else h7)"

function perform_curl ::
  "'d absl_time \<Rightarrow> ('d \<Rightarrow> int) \<Rightarrow> ('d \<Rightarrow> 'd \<Rightarrow> 'd) \<Rightarrow> (curl_options \<Rightarrow> 'k \<Rightarrow> 'w \<Rightarrow> 'd transfer \<times> 'k \<times> 'w) \<Rightarrow> 'k \<Rightarrow>
   cert_info \<Rightarrow> 'd http_config \<Rightarrow> http_request \<Rightarrow> nat \<Rightarrow> 'k curl_handle \<Rightarrow> 'w \<Rightarrow> 'd registry \<Rightarrow>
   http_response \<times> int list \<times> 'k curl_handle \<times> 'w \<times> 'd registry" where
  \<comment> \<open>\<open>HttpClient::perform\<close> on the handle of the thread\<close>
  "perform_curl A to_ms dplus easy fresh cert cfg rq n h w R =
     (let i = new_log_entry R (rq_method rq) (rq_url rq);
          h1 = prepare to_ms dplus cert cfg rq h;
          (t, cache, w1) = easy (ch_options h1) (ch_cache h1) w;
          h2 = deliver t (h1\<lparr>ch_cache := cache\<rparr>);
          h3 = (if tr_code t \<noteq> Curl_ok then recreate fresh h2 else h2)
      in if retryable A dplus cfg t \<and> n < 2 then
           let R1 = log_entry A (hc_status_metrics_enabled cfg) t (attempt_id t n False i) R;
               (r, sleeps, h4, w2, R2) = perform_curl A to_ms dplus easy fresh cert cfg rq (Suc n) h3 w1 R1
           in (r, backoff t n @ sleeps, h4, w2, R2)
         else
           let R1 = log_entry A (hc_status_metrics_enabled cfg) t (attempt_id t n True i) R;
               status = (if tr_code t \<noteq> Curl_ok then - 1 else tr_status t)
           in (\<lparr>hr_status = status, hr_body = ch_response h3, hr_headers = ch_resp_headers h3\<rparr>, [],
               h3\<lparr>ch_response := [], ch_resp_headers := []\<rparr>, w1, R1))"
  by pat_completeness auto
termination
  by (relation "measure (\<lambda>(A, to_ms, dplus, easy, fresh, cert, cfg, rq, n, h, w, R). 2 - n)") auto

declare perform_curl.simps [simp del]

section \<open>The handle is as good as new\<close>

definition request_options :: "('d \<Rightarrow> int) \<Rightarrow> ('d \<Rightarrow> 'd \<Rightarrow> 'd) \<Rightarrow> cert_info \<Rightarrow> 'd http_config \<Rightarrow> http_request \<Rightarrow> curl_options" where
  \<comment> \<open>what a fresh handle is given for a request\<close>
  "request_options to_ms dplus cert cfg rq = ch_options (prepare to_ms dplus cert cfg rq (new_curl_handle ()))"

definition net_of ::
  "('d \<Rightarrow> int) \<Rightarrow> ('d \<Rightarrow> 'd \<Rightarrow> 'd) \<Rightarrow> (curl_options \<Rightarrow> 'k \<Rightarrow> 'w \<Rightarrow> 'd transfer \<times> 'k \<times> 'w) \<Rightarrow> 'k \<Rightarrow> cert_info \<Rightarrow>
   'd http_config \<Rightarrow> http_request \<Rightarrow> 'w \<times> 'k \<Rightarrow> 'd transfer \<times> 'w \<times> 'k" where
  \<comment> \<open>the transfers of a client whose handle is made for each request, except for its connections, which are
    dropped after an error\<close>
  "net_of to_ms dplus easy fresh cert cfg rq wk =
     (let (t, k, w) = easy (request_options to_ms dplus cert cfg rq) (snd wk) (fst wk)
      in (t, w, if tr_code t \<noteq> Curl_ok then fresh else k))"

lemmas handle_defs = set_opt_def apply_persistent_settings_def set_url_def set_headers_def set_connect_timeout_def
  set_timeout_def post_payload_def custom_request_def configure_metatron_def ignore_output_def capture_output_opt_def
  capture_headers_opt_def trace_requests_def clear_for_reuse_def recreate_def

lemma prepare_options:
  "ch_options (prepare to_ms dplus cert cfg rq h) = request_options to_ms dplus cert cfg rq"
  "ch_cache (prepare to_ms dplus cert cfg rq h) = ch_cache h"
  "ch_response (prepare to_ms dplus cert cfg rq h) = []"
  "ch_resp_headers (prepare to_ms dplus cert cfg rq h) = []"
  by (simp_all add: request_options_def prepare_def new_curl_handle_def handle_defs Let_def)

lemma capture_options:
  "(request_options to_ms dplus cert cfg rq O_WRITEFUNCTION = Some P_capture_output) = hc_read_body cfg"
  "hc_read_body cfg \<Longrightarrow> request_options to_ms dplus cert cfg rq O_WRITEDATA = Some P_response"
  "(request_options to_ms dplus cert cfg rq O_HEADERFUNCTION = Some P_capture_headers) = hc_read_headers cfg"
  "hc_read_headers cfg \<Longrightarrow> request_options to_ms dplus cert cfg rq O_HEADERDATA = Some P_resp_headers"
  by (simp_all add: request_options_def prepare_def new_curl_handle_def handle_defs Let_def)

lemma recreate_keeps [simp]:
  "ch_response (recreate fresh h) = ch_response h" "ch_resp_headers (recreate fresh h) = ch_resp_headers h"
  "ch_cache (recreate fresh h) = fresh"
  by (simp_all add: handle_defs)

lemma delivered:
  assumes "d = deliver t ((prepare to_ms dplus cert cfg rq h)\<lparr>ch_cache := cache\<rparr>)"
  shows "\<lparr>hr_status = status, hr_body = ch_response d, hr_headers = ch_resp_headers d\<rparr> = captured cfg status t"
    and "ch_cache d = cache"
  by (auto simp: assms deliver_def captured_def prepare_options capture_options)

lemma perform_curl_refines:
  assumes "n \<le> 2"
  shows "(case perform_curl A to_ms dplus easy fresh cert cfg rq n h w R of
            (r, sleeps, h', w', R') \<Rightarrow> (r, sleeps, (w', ch_cache h'), R')) =
         perform A dplus (net_of to_ms dplus easy fresh cert cfg) cfg rq n (w, ch_cache h) R"
  using assms
proof (induction "2 - n" arbitrary: n h w R rule: less_induct)
  case less
  let ?h1 = "prepare to_ms dplus cert cfg rq h"
  obtain t cache w1 where t: "easy (request_options to_ms dplus cert cfg rq) (ch_cache h) w = (t, cache, w1)"
    by (metis prod_cases3)
  let ?d = "deliver t (?h1\<lparr>ch_cache := cache\<rparr>)"
  define h3 where "h3 = (if tr_code t \<noteq> Curl_ok then recreate fresh ?d else ?d)"
  have net: "net_of to_ms dplus easy fresh cert cfg rq (w, ch_cache h) = (t, w1, ch_cache h3)"
    by (simp add: net_of_def t h3_def delivered(2) [OF refl])
  have resp: "\<lparr>hr_status = status, hr_body = ch_response h3, hr_headers = ch_resp_headers h3\<rparr> = captured cfg status t"
    for status by (simp add: h3_def delivered(1) [OF refl])
  let ?i = "new_log_entry R (rq_method rq) (rq_url rq)"
  let ?R = "\<lambda>final. log_entry A (hc_status_metrics_enabled cfg) t (attempt_id t n final ?i) R"
  have unf: "perform_curl A to_ms dplus easy fresh cert cfg rq n h w R =
     (if retryable A dplus cfg t \<and> n < 2 then
        (case perform_curl A to_ms dplus easy fresh cert cfg rq (Suc n) h3 w1 (?R False) of
           (r, sleeps, h4, w2, R2) \<Rightarrow> (r, backoff t n @ sleeps, h4, w2, R2))
      else (captured cfg (if tr_code t \<noteq> Curl_ok then - 1 else tr_status t) t, [],
            h3\<lparr>ch_response := [], ch_resp_headers := []\<rparr>, w1, ?R True))"
    unfolding resp [symmetric]
    by (subst perform_curl.simps) (simp only: Let_def prepare_options t prod.case h3_def)
  show ?case
  proof (cases "retryable A dplus cfg t \<and> n < 2")
    case True
    then have "2 - Suc n < 2 - n" "Suc n \<le> 2" by auto
    note IH = less.hyps [OF this, of h3 w1 "?R False"]
    obtain r sleeps h4 w2 R2 where p:
      "perform_curl A to_ms dplus easy fresh cert cfg rq (Suc n) h3 w1 (?R False) = (r, sleeps, h4, w2, R2)"
      by (metis prod_cases5)
    have IH': "perform A dplus (net_of to_ms dplus easy fresh cert cfg) cfg rq (Suc n) (w1, ch_cache h3) (?R False) =
        (r, sleeps, (w2, ch_cache h4), R2)" using IH by (simp add: p)
    show ?thesis
      unfolding unf perform.simps [of A dplus _ cfg rq n] using IH' True by (auto simp: net p Let_def)
  next
    case False
    then show ?thesis
      unfolding unf perform.simps [of A dplus _ cfg rq n] by (auto simp: net Let_def)
  qed
qed

text \<open>
  C18. A handle that is used again leaks nothing from one request into another: whatever options, headers, payload
  and captured response earlier requests left, a transfer is given exactly the options of its own request, the
  response holds only what that request received, and the whole exchange, retries and
  recorded metrics included, is that of a client with a new handle for every transfer. Only connections are kept, and those are
  dropped after an error.
\<close>

theorem reused_handle_leaks_nothing:
  "ch_options (prepare to_ms dplus cert cfg rq h) = request_options to_ms dplus cert cfg rq \<and>
   (case perform_curl A to_ms dplus easy fresh cert cfg rq 0 h w R of
      (r, sleeps, h', w', R') \<Rightarrow> (r, sleeps, (w', ch_cache h'), R')) =
    perform A dplus (net_of to_ms dplus easy fresh cert cfg) cfg rq 0 (w, ch_cache h) R"
  by (intro conjI prepare_options(1) perform_curl_refines) simp

end
