(* ===== verification/Gzip.thy ===== *)
theory Gzip
  imports HttpClient
begin

text \<open>
  \<open>spectator/gzip.cc\<close>: the decompression that belongs to \<open>gzip_compress\<close>, and what a post of a plain
  payload puts on the wire. zlib is a parameter with its documented laws; the codes 0, 1, 2, -3 and -5 are
  \<open>Z_OK\<close>, \<open>Z_STREAM_END\<close>, \<open>Z_NEED_DICT\<close>, \<open>Z_DATA_ERROR\<close> and \<open>Z_BUF_ERROR\<close>.
\<close>

record inflater =
  if_init :: int
  if_inflate :: "string \<Rightarrow> nat \<Rightarrow> int \<times> string \<times> nat"
    \<comment> \<open>from the input and the room: the code, the output and the input that is left\<close>

definition gzip_uncompress :: "inflater \<Rightarrow> nat \<Rightarrow> string \<Rightarrow> int \<times> string" where
  "gzip_uncompress I room source =
     (if if_init I \<noteq> 0 then (if_init I, [])
      else let (err, out, avail_in) = if_inflate I source room
           in if err \<noteq> 1
              then (if err = 2 \<or> err = - 5 \<and> avail_in = 0 then - 3 else err, [])
              else (0, out))"

definition gzip_laws :: "deflater \<Rightarrow> inflater \<Rightarrow> bool" where
  \<comment> \<open>documented: the calls that begin and end a stream succeed, what was compressed completely is decompressed with enough
    room, and a truncated input runs out. That the room which the client reserves is enough is not documented.\<close>
  "gzip_laws D I \<longleftrightarrow> df_end D = 0 \<and> if_init I = 0 \<and>
     (\<forall>s room out room'. df_deflate D s room = (1, out) \<longrightarrow> length out \<le> room \<and>
        (length s \<le> room' \<longrightarrow> if_inflate I out room' = (1, s, 0)) \<and>
        (\<forall>n < length out. length s \<le> room' \<longrightarrow> fst (if_inflate I (take n out) room') = - 5 \<and>
           snd (snd (if_inflate I (take n out) room')) = 0))"

text \<open>
  A client that compresses its payload either fails without a request, when the room it reserves is not enough, or performs
  one request (with its retries) whose body decompresses to the payload whenever there is room for it; a body cut
  short is reported as damaged, never as shorter data.
\<close>

theorem posted_payload_is_recovered:
  assumes "gzip_laws D I" and "hc_compress cfg"
  shows "http_post_plain A dplus net D cfg url content_type payload w R = (\<lparr>hr_status = - 1, hr_body = [], hr_headers = []\<rparr>, [], w, R) \<or>
    (\<exists>body. http_post_plain A dplus net D cfg url content_type payload w R =
      perform A dplus net cfg \<lparr>rq_method = ''POST'', rq_url = url, rq_headers = [content_type, kGzipEncoding],
        rq_payload = body\<rparr> 0 w R \<and>
    length body \<le> df_bound D (length payload) + kGzipHeaderSize \<and>
    (\<forall>room \<ge> length payload. gzip_uncompress I room body = (0, payload) \<and>
       (\<forall>n < length body. gzip_uncompress I room (take n body) = (- 3, []))))"
proof -
  let ?room = "df_bound D (length payload) + kGzipHeaderSize"
  obtain res body where c: "gzip_compress D ?room payload = (res, body)" by fastforce
  show ?thesis
  proof (cases "res = 0")
    case False
    then show ?thesis by (simp add: http_post_plain_def assms(2) c Let_def)
  next
    case True
    then have d: "df_deflate D payload ?room = (1, body)"
      using c by (auto simp: gzip_compress_def split: if_splits prod.splits)
    have laws: "length body \<le> ?room" "length payload \<le> room \<Longrightarrow> if_inflate I body room = (1, payload, 0)"
      "length payload \<le> room \<Longrightarrow> n < length body \<Longrightarrow> fst (if_inflate I (take n body) room) = - 5 \<and>
         snd (snd (if_inflate I (take n body) room)) = 0" for room n
      using assms(1) d unfolding gzip_laws_def by blast+
    have init: "if_init I = 0" using assms(1) by (simp add: gzip_laws_def)
    have cut: "gzip_uncompress I room (take n body) = (- 3, [])" if "length payload \<le> room" "n < length body" for room n
      using laws(3) [OF that] init by (auto simp: gzip_uncompress_def split_beta Let_def)
    have whole: "gzip_uncompress I room body = (0, payload)" if "length payload \<le> room" for room
      using laws(2) [OF that] init by (simp add: gzip_uncompress_def)
    have "http_post_plain A dplus net D cfg url content_type payload w R =
      perform A dplus net cfg \<lparr>rq_method = ''POST'', rq_url = url, rq_headers = [content_type, kGzipEncoding], rq_payload = body\<rparr> 0 w R"
      using True by (simp add: http_post_plain_def assms(2) c Let_def)
    then show ?thesis using laws(1) cut whole by blast
  qed
qed

text \<open>A codec with these laws: every character is preceded by a mark, and the end has a mark of its own.\<close>

primrec mark :: "string \<Rightarrow> string" where
  "mark [] = ''e''"
| "mark (c # s) = CHR ''x'' # c # mark s"

fun unmark :: "string \<Rightarrow> string option" where
  "unmark (m # c # s) = (if m = CHR ''e'' then Some [] else map_option (Cons c) (unmark s))"
| "unmark [m] = (if m = CHR ''e'' then Some [] else None)"
| "unmark [] = None"

definition sample_deflater :: deflater where
  "sample_deflater = \<lparr>df_init = 0, df_deflate = (\<lambda>s room. if 2 * length s + 1 \<le> room then (1, mark s) else (0, [])),
     df_end = 0, df_bound = (\<lambda>n. 2 * n + 1)\<rparr>"

definition sample_inflater :: inflater where
  "sample_inflater = \<lparr>if_init = 0, if_inflate = (\<lambda>z room. case unmark z of
     Some s \<Rightarrow> if length s \<le> room then (1, s, 0) else (- 5, [], 1) | None \<Rightarrow> (- 5, [], 0))\<rparr>"

lemma length_mark: "length (mark s) = 2 * length s + 1"
  by (induction s) simp_all

lemma unmark_mark: "unmark (mark s) = Some s"
  by (induction s) simp_all

lemma unmark_take: "n < length (mark s) \<Longrightarrow> unmark (take n (mark s)) = None"
proof (induction s arbitrary: n)
  case Nil
  then show ?case by simp
next
  case (Cons c s)
  then show ?case by (cases n; cases "n - 1") auto
qed

lemma sample_gzip_laws: "gzip_laws sample_deflater sample_inflater"
  by (auto simp: gzip_laws_def sample_deflater_def sample_inflater_def length_mark unmark_mark unmark_take
      kGzipHeaderSize_def split: if_splits option.splits)

lemma sample_gzip: "gzip_compress sample_deflater 21 ''ab'' = (0, ''xaxbe'')"
  by (simp add: gzip_compress_def sample_deflater_def)

end
