(* ===== verification/PercQuery.thy ===== *)
theory PercQuery
  imports PercBuckets
begin

text \<open>
  Reading percentiles off the buckets: \<open>Percentiles\<close> and \<open>Percentile\<close> of
  \<open>spectator/percentile_buckets.cc\<close>. Both walk over the table of bucket boundaries once, and interpolate
  between the boundaries of the bucket in which the wanted rank falls. The sums are of type \<open>int64_t\<close>: an overflow
  is undefined in C++ and is the result \<^term>\<open>None\<close> here.
\<close>

section \<open>The walk over the buckets\<close>

definition add64 :: "int \<Rightarrow> int \<Rightarrow> int option" where
  "add64 a b = (if in_int64 (a + b) then Some (a + b) else None)"

fun sum64 :: "int \<Rightarrow> int list \<Rightarrow> int option" where
  "sum64 tot [] = Some tot"
| "sum64 tot (c # cs) = Option.bind (add64 tot c) (\<lambda>t. sum64 t cs)"

definition interpolate :: "double \<Rightarrow> double \<Rightarrow> int \<Rightarrow> int \<Rightarrow> double \<Rightarrow> double" where
  \<comment> \<open>\<open>f * (nextB - prevB) + prevB\<close>\<close>
  "interpolate prevP nextP prevB nextB p =
     (let f = ddiv (dsub p prevP) (dsub nextP prevP)
      in dadd (dmul f (dint (nextB - prevB))) (dint prevB))"

definition share_of :: "int \<Rightarrow> int \<Rightarrow> double" where
  \<comment> \<open>\<open>100.0 * next / tot\<close>\<close>
  "share_of next tot = ddiv (dmul (dint 100) (dint next)) (dint tot)"

fun perc_walk :: "int \<Rightarrow> (int \<times> int) list \<Rightarrow> double list \<Rightarrow> int \<Rightarrow> double \<Rightarrow> int \<Rightarrow> double list option" where
  \<comment> \<open>the counts with their boundaries, and the percentages from \<open>pctIdx\<close> on\<close>
  "perc_walk tot [] pcts prev prevP prevB = Some (map (interpolate prevP (dint 100) prevB int64_max) pcts)"
| "perc_walk tot ((c, nextB) # bs) pcts prev prevP prevB =
     Option.bind (add64 prev c) (\<lambda>next.
       let nextP = share_of next tot;
           out = map (interpolate prevP nextP prevB nextB) (takeWhile (\<lambda>p. dle p nextP) pcts);
           rest = dropWhile (\<lambda>p. dle p nextP) pcts
       in if rest = [] then Some out else map_option ((@) out) (perc_walk tot bs rest next nextP nextB))"

definition Percentiles :: "int list \<Rightarrow> double list \<Rightarrow> double list option" where
  \<comment> \<open>\<open>counts\<close> is an array of the length of the table\<close>
  "Percentiles counts pcts =
     Option.bind (sum64 0 counts) (\<lambda>tot. perc_walk tot (zip counts kBucketValues) pcts 0 dpos0 0)"

definition Percentile :: "int list \<Rightarrow> double \<Rightarrow> double option" where
  "Percentile counts p = map_option (\<lambda>results. results ! 0) (Percentiles counts [p])"

section \<open>Lemmas\<close>

lemma sum64_ok:
  assumes "list_all ((\<le>) 0) cs" "0 \<le> t" "t + sum_list cs \<le> int64_max"
  shows "sum64 t cs = Some (t + sum_list cs)"
  using assms
proof (induction cs arbitrary: t)
  case (Cons c cs)
  have "0 \<le> sum_list cs" using Cons.prems(1) by (simp add: list_all_iff sum_list_nonneg)
  with Cons show ?case by (simp add: add64_def in_int64_def int64_min_def add.assoc)
qed simp

lemma perc_walk_total:
  assumes "list_all (\<lambda>(c, b). 0 \<le> c) bs" "0 \<le> prev" "prev + sum_list (map fst bs) \<le> int64_max"
  shows "\<exists>rs. perc_walk tot bs pcts prev prevP prevB = Some rs \<and> length rs = length pcts"
  using assms
proof (induction bs arbitrary: pcts prev prevP prevB)
  case (Cons cb bs)
  obtain c b where cb: "cb = (c, b)" by fastforce
  have nn: "0 \<le> sum_list (map fst bs)" using Cons.prems(1) by (intro sum_list_nonneg) (auto simp: list_all_iff)
  with Cons.prems have a: "add64 prev c = Some (prev + c)"
    by (simp add: add64_def in_int64_def int64_min_def cb)
  let ?P = "\<lambda>p. dle p (share_of (prev + c) tot)"
  obtain rs where "perc_walk tot bs (dropWhile ?P pcts) (prev + c) (share_of (prev + c) tot) b = Some rs"
    "length rs = length (dropWhile ?P pcts)"
    using Cons.IH [of "prev + c" "dropWhile ?P pcts"] Cons.prems by (auto simp: cb add.assoc)
  moreover have "length (takeWhile ?P pcts) + length (dropWhile ?P pcts) = length pcts"
    by (metis length_append takeWhile_dropWhile_id)
  ultimately show ?case by (simp add: cb a Let_def) (metis takeWhile_eq_all_conv)
qed simp

lemma perc_walk_pointwise:
  \<comment> \<open>of sorted percentages each gets the result it gets alone\<close>
  assumes "sorted_wrt dle pcts" "perc_walk tot bs pcts prev prevP prevB = Some rs" "i < length pcts"
    "list_all (\<lambda>(c, b). 0 \<le> c) bs" "0 \<le> prev" "prev + sum_list (map fst bs) \<le> int64_max"
  shows "perc_walk tot bs [pcts ! i] prev prevP prevB = Some [rs ! i]"
  using assms
proof (induction bs arbitrary: pcts prev prevP prevB rs i)
  case (Cons cb bs)
  obtain c b where cb: "cb = (c, b)" by fastforce
  have nn: "0 \<le> sum_list (map fst bs)" using Cons.prems(4) by (intro sum_list_nonneg) (auto simp: list_all_iff)
  with Cons.prems have a: "add64 prev c = Some (prev + c)"
    by (simp add: add64_def in_int64_def int64_min_def cb)
  define nextP where "nextP = share_of (prev + c) tot"
  let ?P = "\<lambda>p. dle p nextP"
  let ?out = "map (interpolate prevP nextP prevB b) (takeWhile ?P pcts)" and ?rest = "dropWhile ?P pcts"
  have split: "pcts = takeWhile ?P pcts @ ?rest" by simp
  have len: "length pcts = length (takeWhile ?P pcts) + length ?rest" by (metis length_append split)
  show ?case
  proof (cases "i < length (takeWhile ?P pcts)")
    case True
    then have p: "pcts ! i = takeWhile ?P pcts ! i" by (simp add: takeWhile_nth)
    then have "?P (pcts ! i)" using True by (metis nth_mem set_takeWhileD)
    moreover have "rs ! i = ?out ! i"
      using Cons.prems(2) True by (auto simp: cb a Let_def nextP_def [symmetric] nth_append split: if_splits)
    ultimately show ?thesis using True p by (simp add: cb a Let_def nextP_def [symmetric])
  next
    case False
    then have j: "i - length (takeWhile ?P pcts) < length ?rest"
      using Cons.prems(3) len by linarith
    then have ne: "?rest \<noteq> []" by (metis length_0_conv not_less_zero)
    then obtain rs' where w: "perc_walk tot bs ?rest (prev + c) nextP b = Some rs'" "rs = ?out @ rs'"
      using Cons.prems(2) by (auto simp: cb a Let_def nextP_def [symmetric] split: if_splits)
    define j where "j = i - length (takeWhile ?P pcts)"
    have p: "pcts ! i = ?rest ! j" and r: "rs ! i = rs' ! j"
      using False w(2) by (metis split nth_append j_def, simp add: nth_append j_def)
    have srt: "sorted_wrt dle ?rest" using Cons.prems(1) by (metis sorted_wrt_append split)
    have "\<not> ?P (?rest ! j)"
    proof (cases j)
      case 0
      with ne show ?thesis by (metis hd_conv_nth hd_dropWhile)
    next
      case (Suc k)
      then have "dle (?rest ! 0) (?rest ! j)"
        using srt j by (simp add: sorted_wrt_iff_nth_less j_def)
      moreover have "\<not> ?P (?rest ! 0)" using ne by (metis hd_conv_nth hd_dropWhile)
      ultimately show ?thesis using dle_trans by blast
    qed
    moreover have "perc_walk tot bs [?rest ! j] (prev + c) nextP b = Some [rs' ! j]"
      using Cons.IH [OF srt w(1)] j Cons.prems by (auto simp: cb add.assoc j_def)
    ultimately show ?thesis by (simp add: cb a Let_def p r nextP_def [symmetric])
  qed
qed auto

section \<open>Percentages in one walk or in many\<close>

text \<open>
  For any array of counts that can come from recorded values (none negative, together at most the largest
  \<open>int64_t\<close>), \<open>Percentiles\<close> returns one result for each wanted percentage; and if these are in ascending
  order, each result is the one that \<open>Percentile\<close> gives for this percentage alone, although the walk over
  the buckets is made only once.
\<close>

theorem percentiles_agree_with_percentile:
  assumes "length counts = length kBucketValues" "list_all ((\<le>) 0) counts" "sum_list counts \<le> int64_max"
  shows "(\<exists>rs. Percentiles counts pcts = Some rs \<and> length rs = length pcts) \<and>
    (sorted_wrt dle pcts \<longrightarrow> map Some (the (Percentiles counts pcts)) = map (Percentile counts) pcts)"
proof -
  let ?bs = "zip counts kBucketValues"
  have bs: "list_all (\<lambda>(c, b). 0 \<le> c) ?bs" "sum_list (map fst ?bs) \<le> int64_max"
    using assms by (auto simp: list_all_iff dest!: set_zip_leftD)
  have s: "sum64 0 counts = Some (sum_list counts)" using sum64_ok assms by fastforce
  obtain rs where rs: "perc_walk (sum_list counts) ?bs pcts 0 dpos0 0 = Some rs" "length rs = length pcts"
    using perc_walk_total [OF bs(1), of 0 "sum_list counts" pcts dpos0 0] bs(2) by auto
  have "Percentile counts (pcts ! i) = Some (rs ! i)" if "sorted_wrt dle pcts" "i < length pcts" for i
    using perc_walk_pointwise [OF that(1) rs(1) that(2) bs(1)] bs(2) by (simp add: Percentile_def Percentiles_def s)
  then have "sorted_wrt dle pcts \<longrightarrow> map Some rs = map (Percentile counts) pcts"
    by (auto intro!: nth_equalityI simp: rs(2))
  then show ?thesis using rs by (simp add: Percentiles_def s)
qed

theorem percentiles_agree_with_percentile_witness:
  "map Some (the (Percentiles (3 # replicate 275 0) [dint 0, dint 50, dint 100])) =
   map (Percentile (3 # replicate 275 0)) [dint 0, dint 50, dint 100]"
proof -
  have "sorted_wrt dle [dint 0, dint 50, dint 100]" by code_simp
  moreover have "(\<exists>rs. Percentiles (3 # replicate 275 0) ps = Some rs \<and> length rs = length ps) \<and>
    (sorted_wrt dle ps \<longrightarrow> map Some (the (Percentiles (3 # replicate 275 0) ps)) = map (Percentile (3 # replicate 275 0)) ps)"
    for ps
    by (rule percentiles_agree_with_percentile) (simp_all add: list_all_iff int64_max_def sum_list_replicate)
  ultimately show ?thesis by blast
qed

section \<open>The zeroth percentile\<close>

lemma share_of_0: "share_of 0 tot = (if dint tot = NaN \<or> (\<exists>s. dint tot = Zero s) then NaN else Zero (neg_sign (dint tot)))"
  by (cases "dint tot") (auto simp: share_of_def dint_exact to_double_def sign_differs_def)

lemma share_of_0_0 [simp]: "share_of 0 0 = NaN"
  by (auto simp: share_of_0)

lemma perc_walk_nan: "perc_walk 0 (map (Pair 0) bs) [dint 0] 0 NaN b = Some [NaN]"
  by (induction bs arbitrary: b)
    (simp_all add: interpolate_def dsub_def add64_def in_int64_def int64_min_def int64_max_def share_of_0 Let_def)

lemma rnd_range: "a \<le> q \<Longrightarrow> q \<le> b \<Longrightarrow> rnd a = a \<Longrightarrow> rnd b = b \<Longrightarrow> a \<le> rnd q \<and> rnd q \<le> b"
  by (metis rnd_mono)

lemma to_double_range:
  assumes "a \<le> q" "q \<le> b" "rnd a = a" "rnd b = b" "0 < a" "b < huge"
  shows "\<exists>r. to_double s q = Fin r \<and> a \<le> r \<and> r \<le> b"
  using rnd_range [OF assms(1-4)] assms(5,6) by (auto simp: to_double_def Let_def)

lemma two_to: "rnd (2 ^ 63) = 2 ^ 63" "rnd (100 * 2 ^ 63) = 100 * 2 ^ 63" "rnd 1 = 1" "rnd 100 = 100"
    "rnd (100 / 2 ^ 63) = 100 / 2 ^ 63" "100 * 2 ^ 63 < huge" "2 ^ 63 < huge"
proof -
  have "(2::rat) powi 70 < huge" unfolding huge_def by (simp only: powi_less_iff)
  then show "100 * 2 ^ 63 < huge" "2 ^ 63 < huge" by simp_all
  show "rnd (2 ^ 63) = 2 ^ 63" by (rule rnd_exact [of _ 1 63]) simp_all
  show "rnd (100 * 2 ^ 63) = 100 * 2 ^ 63" by (rule rnd_exact [of _ 100 63]) simp_all
  show "rnd (100 / 2 ^ 63) = 100 / 2 ^ 63" by (rule rnd_exact [of _ 100 "- 63"]) (simp_all add: power_int_def field_simps)
  show "rnd 1 = 1" "rnd 100 = 100" using rnd_of_int [of 1] rnd_of_int [of 100] by simp_all
qed

lemma dint_in_range: "0 < n \<Longrightarrow> n \<le> int64_max \<Longrightarrow> \<exists>r. dint n = Fin r \<and> 1 \<le> r \<and> r \<le> 2 ^ 63"
proof -
  assume "0 < n" "n \<le> int64_max"
  then have "(1::rat) \<le> of_int n" "of_int n \<le> (2::rat) ^ 63" by (simp_all add: int64_max_def)
  then show ?thesis unfolding dint_def by (rule to_double_range) (use two_to in auto)
qed

lemma share_of_pos:
  assumes "0 < c" "c \<le> tot" "tot \<le> int64_max"
  shows "\<exists>q. share_of c tot = Fin q \<and> 100 / 2 ^ 63 \<le> q \<and> q \<le> 100 * 2 ^ 63"
proof -
  obtain x where x: "dint c = Fin x" "1 \<le> x" "x \<le> 2 ^ 63" using dint_in_range [of c] assms by auto
  obtain y where y: "dint tot = Fin y" "1 \<le> y" "y \<le> 2 ^ 63" using dint_in_range [of tot] assms by auto
  have "dint 100 = Fin 100" by (simp add: dint_exact)
  moreover obtain z where z: "to_double False (100 * x) = Fin z" "100 \<le> z" "z \<le> 100 * 2 ^ 63"
    using to_double_range [of 100 "100 * x" "100 * 2 ^ 63" False] x two_to by auto
  moreover have "100 / 2 ^ 63 \<le> z / y" "z / y \<le> 100 * 2 ^ 63"
    using z y by (auto simp: divide_simps intro: order.trans [OF _ mult_mono])
  from to_double_range [OF this] obtain q where "to_double False (z / y) = Fin q" "100 / 2 ^ 63 \<le> q" "q \<le> 100 * 2 ^ 63"
    using two_to by auto
  ultimately show ?thesis using x y
    by (intro exI [of _ q]) (auto simp: share_of_def sign_differs_def)
qed

text \<open>
  The zeroth percentile is not a number whenever the first bucket is empty, that is whenever only positive values
  were recorded (or none at all): the first step of the walk already reaches 0 percent and divides zero by zero. Only
  a recorded value that is not positive makes it a number.
\<close>

theorem zeroth_percentile_needs_the_first_bucket:
  assumes "length counts = length kBucketValues" "list_all ((\<le>) 0) counts" "sum_list counts \<le> int64_max"
  shows "(Percentile counts (dint 0) = Some NaN) = (counts ! 0 = 0)"
proof -
  obtain c cs where c: "counts = c # cs" using assms(1) by (cases counts) auto
  have b: "kBucketValues = 1 # drop 1 kBucketValues" (is "_ = _ # ?bs")
    using Cons_nth_drop_Suc [of 0 kBucketValues] bucket_nth [of 0] by (simp add: bucket_value_def)
  define bs where "bs = ?bs"
  note b = b [folded bs_def]
  have nn: "0 \<le> c" "0 \<le> sum_list cs" using assms(2) by (auto simp: c list_all_iff intro: sum_list_nonneg)
  define tot where "tot = c + sum_list cs"
  have w: "Percentiles counts [dint 0] = perc_walk tot ((c, 1) # zip cs bs) [dint 0] 0 dpos0 0"
    using sum64_ok [OF assms(2), of 0] assms(3) by (simp add: Percentiles_def c b tot_def)
  have a: "add64 0 c = Some c" using nn assms(3) by (simp add: add64_def in_int64_def int64_min_def c)
  have zero: "interpolate (Zero False) (Zero False) 0 1 (Zero False) = NaN"
    by (simp add: interpolate_def dsub_def)
  have first: "interpolate (Zero False) (Fin q) 0 1 (Zero False) = Zero False"
    if "100 / 2 ^ 63 \<le> q" "q \<le> 100 * 2 ^ 63" for q
  proof -
    have "\<exists>r. to_double False q = Fin r \<and> 100 / 2 ^ 63 \<le> r \<and> r \<le> 100 * 2 ^ 63"
      by (rule to_double_range) (use that two_to in auto)
    then show ?thesis by (auto simp: interpolate_def dsub_def sign_differs_def dint_exact to_double_def)
  qed
  show ?thesis
  proof (cases "c = 0")
    case False
    then obtain q where q: "share_of c tot = Fin q" "100 / 2 ^ 63 \<le> q" "q \<le> 100 * 2 ^ 63"
      using share_of_pos [of c tot] nn assms(3) by (auto simp: tot_def c)
    then have "0 < q" by (auto intro: less_le_trans [rotated])
    then show ?thesis using False w a q(1) first [OF q(2,3)]
      by (simp add: Percentile_def c dpos0_def dle_def)
  next
    case True
    show ?thesis
    proof (cases "tot = 0")
      case False
      then obtain y where "dint tot = Fin y" "1 \<le> y"
        using dint_in_range [of tot] nn assms(3) by (auto simp: tot_def c)
      then show ?thesis using True w a zero
        by (simp add: Percentile_def c dpos0_def dle_def share_of_0)
    next
      case T: True
      then have "\<forall>x \<in> set cs. x = 0"
        using nn assms(2) True by (auto simp: tot_def c list_all_iff sum_list_nonneg_eq_0_iff)
      then have "zip cs bs = map (Pair 0) (take (length cs) bs)"
        by (auto intro!: nth_equalityI)
      then show ?thesis using True T w a perc_walk_nan
        by (simp add: Percentile_def c dpos0_def)
    qed
  qed
qed

theorem zeroth_percentile_needs_the_first_bucket_witness:
  "Percentile (replicate 275 0 @ [7]) (dint 0) = Some NaN \<and> Percentile (2 # replicate 275 0) (dint 0) \<noteq> Some NaN"
  using zeroth_percentile_needs_the_first_bucket [of "replicate 275 0 @ [7]"]
    zeroth_percentile_needs_the_first_bucket [of "2 # replicate 275 0"]
  by (simp add: list_all_iff int64_max_def sum_list_replicate nth_append)

end
