(* ===== verification/Logging.thy ===== *)
theory Logging
  imports CLib
begin

text \<open>
  Logging: the constructor of \<open>Logger\<close> in \<open>util/logger.cc\<close>, the sinks of \<open>util/insight_log_sinks.h\<close> and
  \<open>util/unix_socket_log_sink.h\<close>, and the records of \<open>util/json_log_formatter.h\<close>. The library spdlog is
  represented by its registry of loggers and its thread pool, the operating system by the answers of \<open>stat\<close> and of
  \<open>send_to\<close>; the writer of rapidjson is the parameter \<^term>\<open>W\<close>, a function from the calls made on it to the
  text in its buffer.
\<close>

section \<open>Records in JSON\<close>

datatype log_level = trace | debug | info | warn | err | critical | off

fun level_to_string :: "log_level \<Rightarrow> string" where
  "level_to_string trace = ''trace''"
| "level_to_string debug = ''debug''"
| "level_to_string info = ''info''"
| "level_to_string warn = ''warn''"
| "level_to_string err = ''error''"
| "level_to_string critical = ''fatal''"
| "level_to_string _ = ''info''"

record log_msg =
  lm_logger_name :: string
  lm_level :: log_level
  lm_time :: int   \<comment> \<open>nanoseconds since the epoch\<close>
  lm_payload :: string

datatype json_call = StartObject | EndObject | Key string | JString string | Int64 int
  \<comment> \<open>the calls of \<open>rapidjson::Writer\<close>\<close>

type_synonym json_writer = "json_call list \<Rightarrow> string"

definition write_top_level_fields :: "log_msg \<Rightarrow> int \<Rightarrow> json_call list" where
  "write_top_level_fields msg millis =
     [Key ''message'', JString (lm_payload msg), Key ''level'', JString (level_to_string (lm_level msg)),
      Key ''logts'', Int64 millis, Key ''logger'', JString (lm_logger_name msg)]"

definition write_tags :: "json_call list" where
  "write_tags = [Key ''tags'', StartObject, Key ''nf.platform'', JString ''spectator'', EndObject]"

definition to_millis :: "int \<Rightarrow> int" where
  \<comment> \<open>\<open>duration_cast\<close> truncates\<close>
  "to_millis ns = (if ns < 0 then - (- ns div 1000000) else ns div 1000000)"

definition json_record :: "log_msg \<Rightarrow> json_call list" where
  "json_record msg =
     [StartObject] @ write_top_level_fields msg (to_millis (lm_time msg)) @ write_tags @ [EndObject]"

definition format_record :: "json_writer \<Rightarrow> log_msg \<Rightarrow> string" where
  "format_record W msg = W (json_record msg) @ [CHR 0x0A]"

section \<open>The sink on a Unix datagram socket\<close>

datatype send_result = Sent | Would_block | No_buffer_space | Failed string
  \<comment> \<open>the error code of \<open>send_to\<close>, with its message\<close>

record sink_out =
  so_datagrams :: "string list"
  so_stderr :: "string list"
  so_fallback :: "log_msg list"  \<comment> \<open>records handed to the fallback sink\<close>
  so_error :: "string option"  \<comment> \<open>the exception thrown\<close>

definition open_unix_sink :: "string option \<Rightarrow> string option \<Rightarrow> string option" where
  \<comment> \<open>the exception that the constructor throws, from the errors of opening the socket and of making it non-blocking\<close>
  "open_unix_sink open_error non_blocking_error = (case open_error of
     Some m \<Rightarrow> Some (''unix_sink: open failed: '' @ m)
   | None \<Rightarrow> map_option (\<lambda>m. ''unix_sink: non_blocking failed: '' @ m) non_blocking_error)"

definition warn_text :: "string \<Rightarrow> string" where
  "warn_text message = ''unix_sink: OTel Collector socket is down ('' @ message @ ''), falling back to TCP''"

definition sink_it :: "json_writer \<Rightarrow> bool \<Rightarrow> int \<Rightarrow> log_msg \<Rightarrow> send_result \<Rightarrow> sink_out \<Rightarrow> sink_out" where
  \<comment> \<open>\<open>sink_it_\<close> of a sink with or without a fallback, at time \<open>now\<close>\<close>
  "sink_it W fallback now msg r out = (case r of
     Sent \<Rightarrow> out\<lparr>so_datagrams := so_datagrams out @ [format_record W msg]\<rparr>
   | Would_block \<Rightarrow> out
   | No_buffer_space \<Rightarrow> out
   | Failed message \<Rightarrow>
       (if fallback
        then (let warn_msg = \<lparr>lm_logger_name = lm_logger_name msg, lm_level = err, lm_time = now,
                              lm_payload = warn_text message\<rparr>
              in out\<lparr>so_stderr := so_stderr out @ [warn_text message],
                     so_fallback := so_fallback out @ [warn_msg, msg]\<rparr>)
        else out\<lparr>so_error := Some (''unix_sink: send_to failed: '' @ message)\<rparr>))"

fun sink_all :: "json_writer \<Rightarrow> bool \<Rightarrow> (int \<times> log_msg \<times> send_result) list \<Rightarrow> sink_out \<Rightarrow> sink_out" where
  \<comment> \<open>the records one after the other, under the mutex of \<open>base_sink\<close>; spdlog reports an exception and goes on\<close>
  "sink_all W fallback [] out = out"
| "sink_all W fallback ((now, msg, r) # es) out = sink_all W fallback es (sink_it W fallback now msg r out)"

definition tcp_stream :: "json_writer \<Rightarrow> log_msg list \<Rightarrow> string" where
  \<comment> \<open>what the TCP sink, with the same formatter, writes to its connection\<close>
  "tcp_stream W ms = concat (map (format_record W) ms)"

section \<open>Loggers\<close>

datatype sink = Stdout_sink | Tcp_sink string nat | Unix_sink string sink

definition create_insight_logs_sink :: "string \<Rightarrow> nat \<Rightarrow> sink" where
  "create_insight_logs_sink host port = Tcp_sink host port"

definition create_insight_logs_unix_sink :: "string \<Rightarrow> sink \<Rightarrow> sink" where
  "create_insight_logs_unix_sink path fallback = Unix_sink path fallback"

definition kInsightLogsSocketPath :: string where
  "kInsightLogsSocketPath = ''/run/nflx-otel-collector/spectatord.sock''"

record spdlog_state =
  sl_loggers :: "(string \<times> sink list) list"  \<comment> \<open>the registry of loggers\<close>
  sl_pool :: "(nat \<times> nat) option"   \<comment> \<open>the thread pool: size of the queue, threads\<close>
  sl_lines :: "(string \<times> string) list"  \<comment> \<open>what the constructors have logged\<close>

definition S_IFSOCK :: "32 word" where
  "S_IFSOCK = 0xC000"

definition looks_like_socket :: "32 word option \<Rightarrow> bool" where
  \<comment> \<open>\<open>stat\<close> succeeds and \<open>(sb.st_mode & S_IFSOCK) != 0\<close>\<close>
  "looks_like_socket st = (case st of None \<Rightarrow> False | Some mode \<Rightarrow> and mode S_IFSOCK \<noteq> 0)"

definition insight_sinks :: "32 word option \<Rightarrow> bool \<Rightarrow> sink list \<times> string" where
  "insight_sinks st enable_insight_logs =
     (if enable_insight_logs
      then if looks_like_socket st
           then (let fallback = create_insight_logs_sink ''127.0.0.1'' 1552
                 in ([create_insight_logs_unix_sink kInsightLogsSocketPath fallback], kInsightLogsSocketPath))
           else ([create_insight_logs_sink ''127.0.0.1'' 1552], ''127.0.0.1:1552'')
      else ([], []))"

definition new_logger :: "32 word option \<Rightarrow> string \<Rightarrow> bool \<Rightarrow> spdlog_state \<Rightarrow> sink list \<times> spdlog_state" where
  \<comment> \<open>the constructor, when no sink throws: the sinks of the logger it holds\<close>
  "new_logger st name enable_insight_logs s = (case map_of (sl_loggers s) name of
     Some sinks \<Rightarrow> (sinks, s)
   | None \<Rightarrow>
       (let pool = (case sl_pool s of None \<Rightarrow> Some (8192, 1) | Some p \<Rightarrow> Some p);
            (more, dest) = insight_sinks st enable_insight_logs;
            sinks = Stdout_sink # more;
            line = (if dest \<noteq> [] then ''insight logs enabled via '' @ dest else ''insight logs disabled'')
        in (sinks, s\<lparr>sl_pool := pool, sl_loggers := sl_loggers s @ [(name, sinks)],
                    sl_lines := sl_lines s @ [(name, line)]\<rparr>)))"

section \<open>What the collector reads\<close>

fun json_object :: "nat \<Rightarrow> json_call list \<Rightarrow> bool" where
  \<comment> \<open>the rest of an object at a depth\<close>
  "json_object (Suc d) (EndObject # es) = (if d = 0 then es = [] else json_object d es)"
| "json_object d (Key k # JString s # es) = json_object d es"
| "json_object d (Key k # Int64 i # es) = json_object d es"
| "json_object d (Key k # StartObject # es) = json_object (Suc d) es"
| "json_object d _ = False"

definition json_doc :: "json_call list \<Rightarrow> bool" where
  "json_doc es = (case es of StartObject # r \<Rightarrow> json_object 1 r | _ \<Rightarrow> False)"

definition json_laws :: "json_writer \<Rightarrow> (string \<Rightarrow> json_call list option) \<Rightarrow> bool" where
  \<comment> \<open>documented of rapidjson: a reader gets the calls back from the text of an object, and the compact writer
     escapes control characters, so that the text has no line feed\<close>
  "json_laws W R \<longleftrightarrow> (\<forall>es. json_doc es \<longrightarrow> R (W es) = Some es \<and> CHR 0x0A \<notin> set (W es))"

fun split_lines :: "string \<Rightarrow> string \<Rightarrow> string list" where
  \<comment> \<open>the complete lines of a stream\<close>
  "split_lines acc [] = []"
| "split_lines acc (c # cs) = (if c = CHR 0x0A then rev acc # split_lines [] cs else split_lines (c # acc) cs)"

definition kept :: "int \<times> log_msg \<times> send_result \<Rightarrow> bool" where
  "kept e = (case snd (snd e) of Would_block \<Rightarrow> False | No_buffer_space \<Rightarrow> False | _ \<Rightarrow> True)"

definition failed :: "int \<times> log_msg \<times> send_result \<Rightarrow> bool" where
  "failed e = (case snd (snd e) of Failed _ \<Rightarrow> True | _ \<Rightarrow> False)"

definition on_fallback :: "int \<times> log_msg \<times> send_result \<Rightarrow> log_msg list" where
  "on_fallback e = (case e of (now, msg, Failed message) \<Rightarrow>
      [\<lparr>lm_logger_name = lm_logger_name msg, lm_level = err, lm_time = now, lm_payload = warn_text message\<rparr>, msg]
    | _ \<Rightarrow> [])"

definition no_out :: sink_out where
  "no_out = \<lparr>so_datagrams = [], so_stderr = [], so_fallback = [], so_error = None\<rparr>"

lemma json_record_doc: "json_doc (json_record m)"
  by (simp add: json_record_def json_doc_def write_top_level_fields_def write_tags_def)

lemma split_lines_line: "CHR 0x0A \<notin> set l \<Longrightarrow> split_lines acc (l @ CHR 0x0A # r) = (rev acc @ l) # split_lines [] r"
  by (induction l arbitrary: acc) auto

lemma split_lines_stream:
  assumes "\<And>m. CHR 0x0A \<notin> set (W (json_record m))"
  shows "split_lines [] (tcp_stream W ms) = map (\<lambda>m. W (json_record m)) ms"
  by (induction ms) (simp_all add: tcp_stream_def format_record_def split_lines_line assms)

lemma sink_all_with_fallback:
  "sink_all W True es out = out\<lparr>
     so_datagrams := so_datagrams out @ map (\<lambda>(now, m, r). format_record W m) (filter (\<lambda>e. kept e \<and> \<not> failed e) es),
     so_stderr := so_stderr out @ map (lm_payload \<circ> hd \<circ> on_fallback) (filter failed es),
     so_fallback := so_fallback out @ concat (map on_fallback es)\<rparr>"
proof (induction es arbitrary: out)
  case (Cons e es)
  then show ?case by (cases e; cases "snd (snd e)") (auto simp: sink_it_def kept_def failed_def on_fallback_def Let_def)
qed simp

text \<open>
  The sink behind the TCP fallback loses a record only when the receiver's buffer is full. Of any sequence of
  records and answers of \<open>send_to\<close>, the collector reads from its datagrams, in order, exactly the records that
  were sent, and from the lines of the TCP stream exactly the records whose sending failed, each preceded by an error
  record with the cause; nothing is thrown, and each record whose buffer was not full is in one of the two, once.
\<close>

theorem insight_records_arrive:
  assumes "json_laws W R"
  defines "out \<equiv> \<lambda>es. sink_all W True es no_out"
  shows "map (R \<circ> butlast) (so_datagrams (out es)) =
      map (\<lambda>(now, msg, r). Some (json_record msg)) (filter (\<lambda>e. kept e \<and> \<not> failed e) es) \<and>
    map R (split_lines [] (tcp_stream W (so_fallback (out es)))) = map (Some \<circ> json_record) (concat (map on_fallback es)) \<and>
    so_error (out es) = None \<and>
    length (so_datagrams (out es)) + length (so_stderr (out es)) = length (filter kept es)"
proof -
  have W: "R (W (json_record m)) = Some (json_record m)" "CHR 0x0A \<notin> set (W (json_record m))" for m
    using assms(1) json_record_doc [of m] by (auto simp: json_laws_def)
  have "length (filter kept es) = length (filter (\<lambda>e. kept e \<and> \<not> failed e) es) + length (filter failed es)"
    by (induction es) (auto simp: kept_def failed_def split: send_result.splits)
  then show ?thesis
    by (simp add: out_def sink_all_with_fallback no_out_def split_lines_stream W split_def format_record_def comp_def)
qed

section \<open>A writer that keeps the laws\<close>

fun json_char :: "char \<Rightarrow> string" where
  "json_char c = (if c = CHR 0x22 then [CHR 0x5C, CHR 0x22] else if c = CHR 0x5C then [CHR 0x5C, CHR 0x5C]
     else if code c < 32 then [CHR 0x5C, CHR ''u'', CHR ''0'', CHR ''0'', char_of (48 + code c div 16), char_of (65 + code c mod 16)]
     else [c])"

definition json_string :: "string \<Rightarrow> string" where
  "json_string s = CHR 0x22 # concat (map json_char s) @ [CHR 0x22]"

definition signed_text :: "int \<Rightarrow> string" where
  "signed_text i = (if i < 0 then CHR ''-'' # show_nat (nat (- i)) else CHR ''+'' # show_nat (nat i))"

fun json_text :: "json_call list \<Rightarrow> string" where
  "json_text [] = []"
| "json_text (StartObject # es) = CHR ''{'' # json_text es"
| "json_text (EndObject # es) = CHR ''}'' # json_text es"
| "json_text (Key k # es) = CHR '','' # json_string k @ json_text es"
| "json_text (JString s # es) = CHR '':'' # json_string s @ json_text es"
| "json_text (Int64 i # es) = signed_text i @ json_text es"

fun json_unquote :: "string \<Rightarrow> string \<Rightarrow> string \<times> string" where
  "json_unquote acc (c # cs) =
     (if c = CHR 0x22 then (rev acc, cs)
      else if c = CHR 0x5C then
        (case cs of [] \<Rightarrow> (rev acc, []) | d # ds \<Rightarrow>
           if d = CHR ''u'' then (case ds of _ # _ # x # y # zs \<Rightarrow>
               json_unquote (char_of ((code x - 48) * 16 + (code y - 65)) # acc) zs | _ \<Rightarrow> (rev acc, []))
           else json_unquote (d # acc) ds)
      else json_unquote (c # acc) cs)"
| "json_unquote acc [] = (rev acc, [])"

fun json_read :: "nat \<Rightarrow> string \<Rightarrow> json_call list option" where
  "json_read n [] = Some []"
| "json_read 0 s = None"
| "json_read (Suc n) (c # cs) =
     (if c = CHR ''{'' then map_option ((#) StartObject) (json_read n cs)
      else if c = CHR ''}'' then map_option ((#) EndObject) (json_read n cs)
      else if c = CHR '','' then (case json_unquote [] (tl cs) of (k, r) \<Rightarrow> map_option ((#) (Key k)) (json_read n r))
      else if c = CHR '':'' then (case json_unquote [] (tl cs) of (s, r) \<Rightarrow> map_option ((#) (JString s)) (json_read n r))
      else (let ds = takeWhile isdigit cs; i = number 10 ds in
            map_option ((#) (Int64 (if c = CHR ''-'' then - i else i))) (json_read n (drop (length ds) cs))))"

definition json_reader :: "string \<Rightarrow> json_call list option" where
  "json_reader s = json_read (length s) s"

lemma json_char_read: "json_unquote acc (json_char c @ r) = json_unquote (c # acc) r"
proof -
  have "code (char_of (48 + code c div 16)) = 48 + code c div 16" "code (char_of (65 + code c mod 16)) = 65 + code c mod 16"
    if "code c < 32" using that by (simp_all add: code_def)
  then show ?thesis by (auto simp: code_def)
qed

lemma json_string_read: "json_unquote acc (concat (map json_char s) @ CHR 0x22 # r) = (rev acc @ s, r)"
  by (induction s arbitrary: acc) (simp_all add: json_char_read del: json_char.simps)

definition starts_with_no_digit :: "string \<Rightarrow> bool" where
  "starts_with_no_digit s = (case s of [] \<Rightarrow> True | c # _ \<Rightarrow> \<not> isdigit c)"

lemma takeWhile_digits: "list_all isdigit ds \<Longrightarrow> starts_with_no_digit r \<Longrightarrow> takeWhile isdigit (ds @ r) = ds"
  by (induction ds) (auto simp: starts_with_no_digit_def split: list.splits)

lemma json_text_start: "starts_with_no_digit (json_text es)"
proof -
  have "\<not> isdigit (CHR ''{'')" "\<not> isdigit (CHR ''}'')" "\<not> isdigit (CHR '','')" "\<not> isdigit (CHR '':'')"
    "\<not> isdigit (CHR ''-'')" "\<not> isdigit (CHR ''+'')" by code_simp+
  then show ?thesis
    by (cases es rule: json_text.cases) (auto simp: starts_with_no_digit_def signed_text_def)
qed

lemma json_read_text: "length (json_text es) \<le> n \<Longrightarrow> json_read n (json_text es) = Some es"
proof (induction es arbitrary: n rule: json_text.induct)
  case (2 es)
  then show ?case by (cases n) auto
next
  case (3 es)
  then show ?case by (cases n) auto
next
  case (4 k es)
  then show ?case by (cases n) (auto simp: json_string_def json_string_read)
next
  case (5 s es)
  then show ?case by (cases n) (auto simp: json_string_def json_string_read)
next
  case (6 i es)
  obtain m where n: "n = Suc m" using 6(2) by (cases n) (auto simp: signed_text_def split: if_splits)
  let ?ds = "show_nat (nat \<bar>i\<bar>)"
  have "json_text (Int64 i # es) = (if i < 0 then CHR ''-'' else CHR ''+'') # ?ds @ json_text es"
    by (simp add: signed_text_def)
  moreover have "takeWhile isdigit (?ds @ json_text es) = ?ds"
    using takeWhile_digits json_text_start show_nat_digits by blast
  moreover have "number 10 ?ds = \<bar>i\<bar>" using show_nat_digits by auto
  moreover have "json_read m (json_text es) = Some es" using 6 n by (auto simp: signed_text_def split: if_splits)
  ultimately show ?case by (cases "i < 0") (simp_all add: n Let_def)
qed simp

lemma json_text_no_newline: "CHR 0x0A \<notin> set (json_text es)"
proof -
  have c: "CHR 0x0A \<notin> set (json_char c)" for c
  proof -
    have "code (char_of (48 + code c div 16)) \<noteq> code (CHR 0x0A)" "code (char_of (65 + code c mod 16)) \<noteq> code (CHR 0x0A)"
      if "code c < 32" using that by (simp_all add: code_def)
    then have "CHR 0x0A \<noteq> char_of (48 + code c div 16)" "CHR 0x0A \<noteq> char_of (65 + code c mod 16)" if "code c < 32"
      using that by metis+
    moreover have "code (CHR 0x0A) < 32" by (simp add: code_def)
    ultimately show ?thesis by auto
  qed
  have s: "CHR 0x0A \<notin> set (json_string s)" for s using c by (auto simp: json_string_def simp del: json_char.simps)
  have "CHR 0x0A \<notin> set (show_nat k)" for k
    using show_nat_digits [of k] by (auto simp: list_all_iff isdigit_def code_def)
  then have "CHR 0x0A \<notin> set (signed_text i)" for i by (simp add: signed_text_def)
  with s show ?thesis by (induction es rule: json_text.induct) auto
qed

lemma json_text_laws: "json_laws json_text json_reader"
  by (simp add: json_laws_def json_reader_def json_read_text json_text_no_newline)

theorem insight_records_arrive_witness:
  "so_error (sink_all json_text True
     [(9, \<lparr>lm_logger_name = ''spectatord'', lm_level = info, lm_time = 5000000, lm_payload = ''a\"b''\<rparr>, Sent),
      (9, \<lparr>lm_logger_name = ''spectatord'', lm_level = info, lm_time = 6000000, lm_payload = ''c''\<rparr>, Would_block),
      (9, \<lparr>lm_logger_name = ''spectatord'', lm_level = warn, lm_time = 7000000, lm_payload = ''d''\<rparr>, Failed ''gone'')] no_out) = None \<and>
   length (split_lines [] (tcp_stream json_text (so_fallback (sink_all json_text True
     [(9, \<lparr>lm_logger_name = ''spectatord'', lm_level = warn, lm_time = 7000000, lm_payload = ''d''\<rparr>, Failed ''gone'')] no_out)))) = 2"
proof -
  note arrive = insight_records_arrive [OF json_text_laws]
  have "length (split_lines [] (tcp_stream json_text (so_fallback (sink_all json_text True es no_out)))) =
      length (concat (map on_fallback es))" for es
    using arrive [of es] by (metis length_map)
  moreover have "so_error (sink_all json_text True es no_out) = None" for es using arrive [of es] by blast
  ultimately show ?thesis by (simp add: on_fallback_def del: sink_all.simps)
qed

section \<open>The choice of the sinks\<close>

definition file_types :: "32 word list" where
  \<comment> \<open>\<open>S_IFIFO\<close>, \<open>S_IFCHR\<close>, \<open>S_IFDIR\<close>, \<open>S_IFBLK\<close>, \<open>S_IFREG\<close>, \<open>S_IFLNK\<close>, \<open>S_IFSOCK\<close>\<close>
  "file_types = [0x1000, 0x2000, 0x4000, 0x6000, 0x8000, 0xA000, 0xC000]"

lemma low_bits_no_socket:
  assumes "p < (0x1000 :: 32 word)"
  shows "and p S_IFSOCK = 0"
proof -
  have "and p (mask 12) = p" using assms by (intro less_mask_eq) simp
  then have "and p S_IFSOCK = and p (and (mask 12) S_IFSOCK)" by (metis and.assoc)
  also have "and (mask 12) S_IFSOCK = 0" by (simp add: S_IFSOCK_def mask_eq_exp_minus_1)
  finally show ?thesis by simp
qed

lemma file_types_tested:
  assumes "t \<in> set file_types" "p < 0x1000"
  shows "looks_like_socket (Some (or t p)) = (t \<noteq> 0x1000 \<and> t \<noteq> 0x2000)"
proof -
  have "and (or t p) S_IFSOCK = and t S_IFSOCK"
    by (simp add: bit.conj_disj_distrib2 low_bits_no_socket [OF assms(2)])
  then show ?thesis using assms(1) by (auto simp: looks_like_socket_def file_types_def S_IFSOCK_def)
qed

text \<open>
  What the first construction of a logger decides is final: whatever the state, after \<open>Logger(name, enable)\<close> every
  later construction with this name, with whatever flag and whatever \<open>stat\<close> says then, has the same sinks and
  changes nothing, and the loggers of other names keep theirs. And the first construction takes the Unix socket, when
  it is to send insight logs, not only for a socket: of the seven types of files, it takes every one but a FIFO and a
  character device.
\<close>

theorem first_logger_decides:
  assumes "new_logger st name enable s = (sinks, s')"
  shows "new_logger st2 name enable2 s' = (sinks, s') \<and>
    (\<forall>n. n \<noteq> name \<longrightarrow> map_of (sl_loggers s') n = map_of (sl_loggers s) n) \<and> (sl_pool s \<noteq> None \<longrightarrow> sl_pool s' = sl_pool s) \<and>
    (map_of (sl_loggers s) name = None \<and> enable \<longrightarrow>
      (\<forall>t p. t \<in> set file_types \<and> p < 0x1000 \<and> st = Some (or t p) \<longrightarrow>
        (sinks = [Stdout_sink, Unix_sink kInsightLogsSocketPath (Tcp_sink ''127.0.0.1'' 1552)]) =
        (t \<noteq> 0x1000 \<and> t \<noteq> 0x2000)))"
proof -
  have "map_of (sl_loggers s') name = Some sinks"
    using assms by (auto simp: new_logger_def Let_def split_beta map_add_def split: option.splits)
  then have "new_logger st2 name enable2 s' = (sinks, s')" by (simp add: new_logger_def)
  moreover have "map_of (sl_loggers s') n = map_of (sl_loggers s) n" if "n \<noteq> name" for n
    using assms that by (auto simp: new_logger_def Let_def split_beta map_add_def split: option.splits)
  moreover have "sl_pool s' = sl_pool s" if "sl_pool s \<noteq> None"
    using assms that by (auto simp: new_logger_def Let_def split_beta map_add_def split: option.splits)
  moreover have "(sinks = [Stdout_sink, Unix_sink kInsightLogsSocketPath (Tcp_sink ''127.0.0.1'' 1552)]) = looks_like_socket st"
    if "map_of (sl_loggers s) name = None" enable
    using assms that by (auto simp: new_logger_def Let_def insight_sinks_def create_insight_logs_sink_def
        create_insight_logs_unix_sink_def split: if_splits)
  ultimately show ?thesis using file_types_tested by auto
qed

theorem first_logger_decides_witness:
  "fst (new_logger (Some 0x81A4) ''spectatord'' True \<lparr>sl_loggers = [], sl_pool = None, sl_lines = []\<rparr>) =
     [Stdout_sink, Unix_sink kInsightLogsSocketPath (Tcp_sink ''127.0.0.1'' 1552)]"
proof -
  let ?s = "\<lparr>sl_loggers = [], sl_pool = None, sl_lines = []\<rparr>"
  obtain sinks s' where n: "new_logger (Some 0x81A4) ''spectatord'' True ?s = (sinks, s')" by fastforce
  have m: "or 0x8000 0x1A4 = (0x81A4 :: 32 word)" "(0x1A4 :: 32 word) < 0x1000" "(0x8000 :: 32 word) \<in> set file_types"
    by (simp_all add: file_types_def)
  have "\<forall>t p. t \<in> set file_types \<and> p < 0x1000 \<and> Some 0x81A4 = Some (or t p) \<longrightarrow>
        (sinks = [Stdout_sink, Unix_sink kInsightLogsSocketPath (Tcp_sink ''127.0.0.1'' 1552)]) =
        (t \<noteq> 0x1000 \<and> t \<noteq> 0x2000)"
    using first_logger_decides [OF n] by simp
  then have "(0x8000 :: 32 word) \<in> set file_types \<and> (0x1A4 :: 32 word) < 0x1000 \<and> Some (0x81A4 :: 32 word) = Some (or 0x8000 0x1A4) \<longrightarrow>
      (sinks = [Stdout_sink, Unix_sink kInsightLogsSocketPath (Tcp_sink ''127.0.0.1'' 1552)]) =
      ((0x8000 :: 32 word) \<noteq> 0x1000 \<and> (0x8000 :: 32 word) \<noteq> 0x2000)"
    by (rule allE) (erule allE)
  then
  have "sinks = [Stdout_sink, Unix_sink kInsightLogsSocketPath (Tcp_sink ''127.0.0.1'' 1552)]" using m by simp
  with n show ?thesis by simp
qed

end
