(* ===== verification/BenchVariants.thy ===== *)
theory BenchVariants
  imports ServerLaws
begin

text \<open>
  The alternatives that the benchmarks of the repository measure (\<open>bench/to_valid_bench.cc\<close>,
  \<open>bench/measurements_fmt_bench.cc\<close>, \<open>bench/get_measurement_bench.cc\<close>, \<open>bench/bench_tags.cc\<close>):
  other ways to sanitise a string, to parse a measurement and to store tags. Each is compared with the
  code of the daemon, which is what makes the measurements of the benchmarks meaningful.
\<close>

section \<open>Sanitising\<close>

definition kAtlasChars128 :: "char list" where
  "kAtlasChars128 =
     ''_____________________________________________-._0123456789______'' @
     ''_ABCDEFGHIJKLMNOPQRSTUVWXYZ___^__abcdefghijklmnopqrstuvwxyz___~_''"

definition kAtlasChars96 :: "char list" where
  "kAtlasChars96 =
     ''_____________-._0123456789_______ABCDEFGHIJKLMNOPQRSTUVWXYZ___^_'' @
     ''_abcdefghijklmnopqrstuvwxyz___~_''"

definition kAtlasChars256 :: "char list" where
  "kAtlasChars256 =
     ''_____________________________________________-._0123456789______'' @
     ''_ABCDEFGHIJKLMNOPQRSTUVWXYZ___^__abcdefghijklmnopqrstuvwxyz___~_'' @
     ''________________________________________________________________'' @
     ''________________________________________________________________''"

definition int_fast8 :: "char \<Rightarrow> int" where
  \<comment> \<open>\<open>static_cast<int_fast8_t>\<close>\<close>
  "int_fast8 c = (if code c < 128 then int (code c) else int (code c) - 256)"

definition fix_string_small :: "string \<Rightarrow> string" where
  \<comment> \<open>for a negative character only the local copy is replaced\<close>
  "fix_string_small s = map (\<lambda>c. let ch = int_fast8 c in if ch < 0 then c else kAtlasChars128 ! nat ch) s"

definition fix_string_two :: "string \<Rightarrow> string" where
  "fix_string_two s = map (\<lambda>c. let ch = int_fast8 c in if ch < 32 then CHR ''_'' else kAtlasChars96 ! nat (ch - 32)) s"

definition fix_string_full :: "string \<Rightarrow> string" where
  "fix_string_full s = map (\<lambda>c. kAtlasChars256 ! code c) s"

definition atlas_int :: "int \<Rightarrow> char" where
  \<comment> \<open>the sanitised character of a code\<close>
  "atlas_int n = (if n = 45 \<or> n = 46 \<or> 48 \<le> n \<and> n \<le> 57 \<or> 65 \<le> n \<and> n \<le> 90 \<or> n = 94
     \<or> 97 \<le> n \<and> n \<le> 122 \<or> n = 126 then char_of n else CHR ''_'')"

lemma atlas_int: "atlas_char c = atlas_int (int (code c))"
proof -
  have "char_of (int (code c)) = c" by (simp add: code_def)
  then show ?thesis by (simp add: atlas_int_def atlas_char_code Let_def code_def del: of_nat_of_char)
qed

lemma tables:
  "kAtlasChars256 = map atlas_int [0..255]" "kAtlasChars128 = map atlas_int [0..127]"
  "kAtlasChars96 = map atlas_int [32..127]"
  by code_simp+

lemma code_bound: "code c < 256"
  by (simp add: code_def of_char_bound)

lemma nth_table: "lo \<le> n \<Longrightarrow> n \<le> hi \<Longrightarrow> map f [lo..hi] ! nat (n - lo) = f n"
  by (subst nth_map) (simp_all add: nth_upto del: upto.simps)

lemma atlas_int_outside: "n < 32 \<or> 127 < n \<Longrightarrow> atlas_int n = CHR ''_''"
  by (auto simp: atlas_int_def)

lemma fixed_chars:
  "kAtlasChars256 ! code c = atlas_char c"
  "(if int_fast8 c < 32 then CHR ''_'' else kAtlasChars96 ! nat (int_fast8 c - 32)) = atlas_char c"
  "0 \<le> int_fast8 c \<Longrightarrow> kAtlasChars128 ! nat (int_fast8 c) = atlas_char c"
proof -
  let ?n = "int (code c)"
  have n: "0 \<le> ?n" "?n \<le> 255" using code_bound [of c] by simp_all
  show "kAtlasChars256 ! code c = atlas_char c"
    unfolding tables atlas_int using nth_table [OF n, of atlas_int] by simp
  have t: "kAtlasChars96 ! nat (?n - 32) = atlas_int ?n" if "32 \<le> ?n" "?n \<le> 127"
    unfolding tables by (rule nth_table [OF that])
  show "(if int_fast8 c < 32 then CHR ''_'' else kAtlasChars96 ! nat (int_fast8 c - 32)) = atlas_char c"
    unfolding atlas_int int_fast8_def using t atlas_int_outside [of ?n] n by auto
  show "kAtlasChars128 ! nat (int_fast8 c) = atlas_char c" if "0 \<le> int_fast8 c"
    unfolding tables atlas_int using nth_table [of 0 ?n 127 atlas_int] that n by (simp add: int_fast8_def split: if_splits)
qed

text \<open>
  The full table and the table of 96 entries sanitise every string as the string pool does; the variant
  with the table of 128 entries leaves bytes above 127 as they are, and so agrees exactly on strings without them
  (the replacement character is assigned to a copy).
\<close>

theorem sanitisers_agree:
  "fix_string_full s = sanitize s \<and> fix_string_two s = sanitize s \<and>
   fix_string_small s = map (\<lambda>c. if code c < 128 then atlas_char c else c) s \<and>
   (fix_string_small s = sanitize s \<longleftrightarrow> list_all (\<lambda>c. code c < 128) s)"
proof -
  have neg: "int_fast8 c < 0 \<longleftrightarrow> \<not> code c < 128" for c
  proof -
    show ?thesis using code_bound [of c] by (simp add: int_fast8_def)
  qed
  have high: "atlas_char c \<noteq> c" if "\<not> code c < 128" for c
  proof -
    have "atlas_char c = CHR ''_''" using that by (simp add: atlas_int atlas_int_def)
    moreover have "code (CHR ''_'') < 128" by code_simp
    ultimately show ?thesis using that by metis
  qed
  have small: "fix_string_small s = map (\<lambda>c. if code c < 128 then atlas_char c else c) s"
    using neg fixed_chars(3) by (auto simp: fix_string_small_def Let_def not_less) (metis not_less)
  moreover have "fix_string_full s = sanitize s" by (simp add: fix_string_full_def sanitize_def fixed_chars)
  moreover have "fix_string_two s = sanitize s" unfolding fix_string_two_def Let_def fixed_chars sanitize_def ..
  moreover have "map (\<lambda>c. if code c < 128 then atlas_char c else c) s = sanitize s \<longleftrightarrow> list_all (\<lambda>c. code c < 128) s"
    using high by (auto simp: sanitize_def list_all_iff) metis
  ultimately show ?thesis by simp
qed

section \<open>Parsing with library searches\<close>

type_synonym bench_result = "(parse_error + meter_id \<times> double) option"

definition strpbrk :: "cmem \<Rightarrow> nat option" where
  \<comment> \<open>\<open>strpbrk(m, ",:")\<close>, as a distance\<close>
  "strpbrk m = find_from comma_or_colon (cstr m) 0"

function search_tags :: "cmem \<Rightarrow> tag_list \<Rightarrow> (parse_error + cmem \<times> tag_list) option" where
  \<comment> \<open>the loop over the tags, with the pointer at its end\<close>
  "search_tags p tags =
     (case p of
        [] \<Rightarrow> None
      | c # q \<Rightarrow>
          if c = CHR '':'' then Some (Inr (p, tags))
          else if \<not> terminated q then None
          else case strchr q (CHR ''='') of
            None \<Rightarrow> Some (Inr (q, tags))
          | Some k \<Rightarrow>
              let v = drop (Suc k) q
              in case strpbrk v of
                   None \<Rightarrow> Some (Inl Missing_value)
                 | Some n \<Rightarrow> search_tags (drop n v) (tag_put (sanitize (take k q)) (sanitize (take n v)) tags))"
  by pat_completeness auto
termination
  by (relation "measure (\<lambda>(p, tags). length p)") auto

declare search_tags.simps [simp del]

definition bench_value :: "cmem \<Rightarrow> string \<Rightarrow> tag_list \<Rightarrow> bench_result" where
  \<comment> \<open>the conversion at the end of every variant; the warning is not an outcome\<close>
  "bench_value p name tags =
     (if \<not> terminated p then None
      else let (value, n) = strtod p
           in if n = 0 then Some (Inl Unable_to_parse_value) else Some (Inr (id_of name tags, value)))"

definition get_measurement_strchr :: "cmem \<Rightarrow> bench_result" where
  "get_measurement_strchr m = (case strpbrk m of
     None \<Rightarrow> Some (Inl Missing_name)
   | Some n \<Rightarrow>
       if n = 0 then Some (Inl Missing_name)
       else case search_tags (drop n m) [] of
         None \<Rightarrow> None
       | Some (Inl e) \<Rightarrow> Some (Inl e)
       | Some (Inr (p, tags)) \<Rightarrow> bench_value (tl p) (take n m) tags)"

definition get_measurement_strview :: "cmem \<Rightarrow> bench_result" where
  \<comment> \<open>the same text over \<open>string_view\<close> in place of \<open>string\<close>\<close>
  "get_measurement_strview m = get_measurement_strchr m"

definition get_measurement_orig :: "cmem \<Rightarrow> bench_result" where
  \<comment> \<open>the same text again\<close>
  "get_measurement_orig m = get_measurement_strchr m"

lemma find_from_drop: "i \<le> length s \<Longrightarrow> find_from P s i = map_option (\<lambda>k. i + k) (find_from P (drop i s) 0)"
  by (auto simp: find_from_def Let_def)

lemma strchr_find: "strchr m c = find_from (\<lambda>x. x = c) (cstr m) 0"
proof -
  have "c \<in> set s \<longleftrightarrow> length (takeWhile (\<lambda>x. x \<noteq> c) s) < length s" for s
    by (induction s) auto
  then show ?thesis by (simp add: strchr_def find_from_def Let_def)
qed

lemma searches_within:
  assumes "NUL \<notin> set l" and "i \<le> length l"
  shows "find_from (\<lambda>x. x = c) l i = map_option (\<lambda>k. i + k) (strchr (drop i (l @ NUL # r)) c)"
    and "find_from comma_or_colon l i = map_option (\<lambda>k. i + k) (strpbrk (drop i (l @ NUL # r)))"
proof -
  have "cstr (drop i l @ NUL # r) = drop i l" using assms(1) cstr_append_nul by (meson in_set_dropD)
  then have "cstr (drop i (l @ NUL # r)) = drop i l" using assms(2) by simp
  then show "find_from (\<lambda>x. x = c) l i = map_option (\<lambda>k. i + k) (strchr (drop i (l @ NUL # r)) c)"
    "find_from comma_or_colon l i = map_option (\<lambda>k. i + k) (strpbrk (drop i (l @ NUL # r)))"
    by (simp_all only: strchr_find strpbrk_def find_from_drop [OF assms(2)])
qed

lemma take_drop_within: "i + k \<le> length l \<Longrightarrow> take k (drop i (l @ x)) = substr l i k"
  by (simp add: substr_def)

lemma search_tags_within:
  assumes "NUL \<notin> set l" and "pos < length l"
  shows "search_tags (drop pos (l @ NUL # r)) tags =
    Some (map_sum id (\<lambda>(p, ts). (drop p (l @ NUL # r), ts)) (tag_loop l pos tags))"
  using assms
proof (induction l pos tags rule: tag_loop.induct)
  case (1 l pos tags)
  let ?m = "l @ NUL # r"
  let ?q = "drop (Suc pos) ?m"
  have d: "drop pos ?m = l ! pos # ?q" using 1(3) by (subst Cons_nth_drop_Suc [symmetric]) (simp_all add: nth_append)
  show ?case
  proof (cases "l ! pos = CHR '':''")
    case True
    then have "tag_loop l pos tags = Inr (pos, tags)" by (simp add: tag_loop.simps [of l pos])
    moreover have "search_tags (l ! pos # ?q) tags = Some (Inr (l ! pos # ?q, tags))" using True by (simp add: search_tags.simps)
    ultimately show ?thesis unfolding d by (simp add: d del: drop_append)
  next
    case False
    have t: "terminated ?q" using 1(3) by (simp add: terminated_def)
    have sq: "find_from (\<lambda>c. c = CHR ''='') l (Suc pos) = map_option (\<lambda>k. Suc pos + k) (strchr ?q (CHR ''=''))"
      by (rule searches_within) (use 1(2,3) in simp_all)
    show ?thesis
    proof (cases "strchr ?q (CHR ''='')")
      case None
      then have "tag_loop l pos tags = Inr (Suc pos, tags)" using False sq by (simp add: tag_loop.simps [of l pos])
      then show ?thesis unfolding d by (simp add: search_tags.simps [of "l ! pos # ?q"] False t None del: drop_append)
    next
      case (Some k)
      let ?k = "Suc pos + k"
      have fk: "find_from (\<lambda>c. c = CHR ''='') l (Suc pos) = Some ?k" using sq Some by simp
      have k: "?k < length l" using find_from_Some [OF fk] by simp
      have v: "drop (Suc k) ?q = drop (Suc ?k) ?m" by (simp add: add.commute del: drop_append)
      have sv: "find_from comma_or_colon l (Suc ?k) = map_option (\<lambda>n. Suc ?k + n) (strpbrk (drop (Suc k) ?q))"
        unfolding v by (rule searches_within) (use 1(2) k in simp_all)
      show ?thesis
      proof (cases "strpbrk (drop (Suc k) ?q)")
        case None
        then have "tag_loop l pos tags = Inl Missing_value" using False fk sv by (simp add: tag_loop.simps [of l pos])
        then show ?thesis unfolding d search_tags.simps [of "l ! pos # ?q"] list.case Let_def Some option.case None
          using False t by simp
      next
        case (Some n)
        let ?v = "Suc ?k + n"
        have fv: "find_from comma_or_colon l (Suc ?k) = Some ?v" using sv Some by simp
        have n: "?v < length l" using find_from_Some [OF fv] by simp
        have key: "take k ?q = substr l (Suc pos) (?k - Suc pos)"
          using take_drop_within [of "Suc pos" k l] k by simp
        have val: "take n (drop (Suc k) ?q) = substr l (Suc ?k) (?v - Suc ?k)"
          unfolding v using take_drop_within [of "Suc ?k" n l] n by simp
        have rest: "drop n (drop (Suc k) ?q) = drop ?v ?m" by (simp add: add.commute add.left_commute del: drop_append)
        have "search_tags (drop pos ?m) tags = search_tags (drop ?v ?m)
            (tag_put (sanitize (substr l (Suc pos) (?k - Suc pos))) (sanitize (substr l (Suc ?k) (?v - Suc ?k))) tags)"
          unfolding d search_tags.simps [of "l ! pos # ?q"] list.case Let_def \<open>strchr ?q (CHR ''='') = Some k\<close> option.case
            Some key val rest
          using False t by simp
        moreover have "tag_loop l pos tags = tag_loop l ?v
            (tag_put (sanitize (substr l (Suc pos) (?k - Suc pos))) (sanitize (substr l (Suc ?k) (?v - Suc ?k))) tags)"
          unfolding tag_loop.simps [of l pos] fk option.case fv using False by simp
        ultimately show ?thesis using 1(1) [OF False fk fv 1(2) n] by simp
      qed
    qed
  qed
qed

definition as_union :: "parse_error + meter_id \<times> double \<Rightarrow> parse_error + meter_id \<times> union_val" where
  "as_union = map_sum id (apsnd VD)"

lemma strchr_is_get_measurement:
  assumes "terminated m" and "type \<noteq> CHR ''U''"
  shows "get_measurement type m = map_option as_union (get_measurement_strchr m)"
proof -
  obtain r where m: "m = cstr m @ NUL # r" by (rule terminated_split [OF assms(1)])
  define l where "l = cstr m"
  have l: "NUL \<notin> set l" "m = l @ NUL # r" using m by (simp_all add: l_def)
  show ?thesis
  proof (cases "find_from comma_or_colon l 0")
    case None
    then show ?thesis
      by (simp add: get_measurement_def get_measurement_strchr_def strpbrk_def l_def as_union_def)
  next
    case (Some n)
    have n: "n < length l" "comma_or_colon (l ! n)" using find_from_Some [OF Some] by simp_all
    have "(if l ! n = CHR '','' then tag_loop l n [] else Inr (n, [])) = tag_loop l n []"
      using n(2) by (auto simp: comma_or_colon_def tag_loop.simps)
    moreover have "search_tags (drop n m) [] = Some (map_sum id (\<lambda>(p, ts). (drop p m, ts)) (tag_loop l n []))"
      unfolding l(2) by (rule search_tags_within [OF l(1) n(1)])
    moreover have "substr l 0 n = take n m" using n(1) by (simp add: substr_def l(2))
    ultimately show ?thesis
      using Some assms(2)
      by (cases "tag_loop l n []")
        (auto simp: get_measurement_def get_measurement_strchr_def strpbrk_def l_def [symmetric] bench_value_def
          as_union_def convert_value_def id_of_def drop_Suc tl_drop split_beta Let_def)
  qed
qed

section \<open>The format with a mark before the tags\<close>

definition get_measurement_new :: "cmem \<Rightarrow> bench_result" where
  "get_measurement_new m =
     (if \<not> terminated m then None
      else case strchr m (CHR '':'') of
        None \<Rightarrow> Some (Inl Missing_name)
      | Some n \<Rightarrow>
          if n = 0 then Some (Inl Missing_name)
          else let name = take n m; p = drop (Suc n) m
               in if hd p = CHR ''#''
                  then case search_tags p [] of
                    None \<Rightarrow> None
                  | Some (Inl e) \<Rightarrow> Some (Inl e)
                  | Some (Inr (p2, tags)) \<Rightarrow> bench_value (tl p2) name tags
                  else bench_value p name [])"

definition mark_tags :: "string \<Rightarrow> string" where
  \<comment> \<open>how \<open>get_measurements_new\<close> rewrites a measurement\<close>
  "mark_tags s = (if CHR '','' \<in> set s
     then let n = length (takeWhile (\<lambda>c. c \<noteq> CHR '','') s) in take n s @ '':#'' @ drop (Suc n) s else s)"

definition markable :: "string \<Rightarrow> bool" where
  \<comment> \<open>a comma comes before the first colon, or nowhere, and then the value does not start with the mark\<close>
  "markable s \<longleftrightarrow> (case find_from comma_or_colon s 0 of
     None \<Rightarrow> True
   | Some n \<Rightarrow> s ! n = CHR '','' \<or> (CHR '','' \<notin> set s \<and> (Suc n < length s \<longrightarrow> s ! Suc n \<noteq> CHR ''#'')))"

lemma search_tags_first:
  "c \<noteq> CHR '':'' \<Longrightarrow> d \<noteq> CHR '':'' \<Longrightarrow> search_tags (c # q) tags = search_tags (d # q) tags"
  by (simp add: search_tags.simps [of "c # q"] search_tags.simps [of "d # q"])

lemma find_from_app:
  "\<forall>c \<in> set a. \<not> P c \<Longrightarrow> P x \<Longrightarrow> find_from P (a @ x # b) 0 = Some (length a)"
  by (simp add: find_from_def takeWhile_stop takeWhile_append2 Let_def)

lemma find_from_None:
  assumes "find_from P s 0 = None"
  shows "\<forall>c \<in> set s. \<not> P c"
proof -
  have "length s \<le> length (takeWhile (\<lambda>c. \<not> P c) s)" using assms by (auto simp: find_from_def Let_def split: if_splits)
  then have "takeWhile (\<lambda>c. \<not> P c) s = s" using takeWhile_eq_take [of "\<lambda>c. \<not> P c" s] by simp
  then show ?thesis by (simp add: takeWhile_eq_all_conv)
qed

lemma new_is_orig_tagged:
  assumes "NUL \<notin> set a" "NUL \<notin> set b" "\<forall>c \<in> set a. \<not> comma_or_colon c"
  shows "get_measurement_new (a @ '':#'' @ b @ NUL # r) = get_measurement_orig (a @ CHR '','' # b @ NUL # r)"
proof -
  have c: "cstr (a @ CHR '','' # b @ NUL # r) = a @ CHR '','' # b"
    using cstr_append_nul [of "a @ CHR '','' # b" r] assms(1,2) by (simp add: NUL_neq)
  have c': "cstr (a @ CHR '':'' # CHR ''#'' # b @ NUL # r) = a @ CHR '':'' # CHR ''#'' # b"
    using cstr_append_nul [of "a @ '':#'' @ b" r] assms(1,2) by (simp add: NUL_def)
  have o: "strpbrk (a @ CHR '','' # b @ NUL # r) = Some (length a)"
    unfolding strpbrk_def c by (rule find_from_app [OF assms(3)]) (simp add: comma_or_colon_def)
  have n: "strchr (a @ '':#'' @ b @ NUL # r) (CHR '':'') = Some (length a)"
    unfolding append_Cons append_Nil strchr_find c'
    by (rule find_from_app) (use assms(3) in \<open>auto simp: comma_or_colon_def\<close>)
  have s: "search_tags (CHR ''#'' # b @ NUL # r) [] = search_tags (CHR '','' # b @ NUL # r) []"
    by (rule search_tags_first) simp_all
  have t: "terminated (a @ '':#'' @ b @ NUL # r)" by (simp add: terminated_def)
  show ?thesis
    unfolding get_measurement_new_def get_measurement_orig_def get_measurement_strchr_def o n option.case Let_def take_length_append
    using t s by simp
qed

lemma new_is_orig_untagged:
  assumes "NUL \<notin> set a" "NUL \<notin> set b" "\<forall>c \<in> set a. \<not> comma_or_colon c" "hd (b @ [NUL]) \<noteq> CHR ''#''"
  shows "get_measurement_new (a @ CHR '':'' # b @ NUL # r) = get_measurement_orig (a @ CHR '':'' # b @ NUL # r)"
proof -
  have c: "cstr (a @ CHR '':'' # b @ NUL # r) = a @ CHR '':'' # b"
    using cstr_append_nul [of "a @ CHR '':'' # b" r] assms(1,2) by (simp add: NUL_neq)
  have o: "strpbrk (a @ CHR '':'' # b @ NUL # r) = Some (length a)"
    unfolding strpbrk_def c by (rule find_from_app [OF assms(3)]) (simp add: comma_or_colon_def)
  have n: "strchr (a @ CHR '':'' # b @ NUL # r) (CHR '':'') = Some (length a)"
    unfolding strchr_find c by (rule find_from_app) (use assms(3) in \<open>auto simp: comma_or_colon_def\<close>)
  have h: "hd (b @ NUL # r) \<noteq> CHR ''#''" using assms(4) by (cases b) auto
  have t: "terminated (a @ CHR '':'' # b @ NUL # r)" by (simp add: terminated_def)
  have s: "search_tags (CHR '':'' # b @ NUL # r) [] = Some (Inr (CHR '':'' # b @ NUL # r, []))"
    by (simp add: search_tags.simps)
  show ?thesis
    unfolding get_measurement_new_def get_measurement_orig_def get_measurement_strchr_def o n option.case Let_def take_length_append
    using s t h by simp
qed

lemma new_is_orig:
  assumes "NUL \<notin> set s" and "markable s"
  shows "get_measurement_new (mark_tags s @ NUL # r) = get_measurement_orig (s @ NUL # r)"
proof (cases "find_from comma_or_colon s 0")
  case None
  then have no: "\<forall>c \<in> set s. \<not> comma_or_colon c"
    by (rule find_from_None)
  then have "strchr (s @ NUL # r) (CHR '':'') = None" using assms(1) by (auto simp: strchr_def comma_or_colon_def)
  moreover have "mark_tags s = s" using no by (auto simp: mark_tags_def comma_or_colon_def)
  moreover have "strpbrk (s @ NUL # r) = None" using None assms(1) by (simp add: strpbrk_def)
  ultimately show ?thesis
    by (simp add: get_measurement_new_def get_measurement_orig_def get_measurement_strchr_def terminated_def)
next
  case (Some n)
  note n = find_from_Some [OF Some]
  define a b where "a = take n s" and "b = drop (Suc n) s"
  have s: "s = a @ s ! n # b" using n by (simp add: a_def b_def id_take_nth_drop [symmetric])
  have "a = takeWhile (\<lambda>c. \<not> comma_or_colon c) s"
    using Some takeWhile_eq_take [of "\<lambda>c. \<not> comma_or_colon c" s]
    by (simp add: find_from_def Let_def a_def split: if_splits)
  then have a: "\<forall>c \<in> set a. \<not> comma_or_colon c" by (auto dest: set_takeWhileD)
  have nul: "NUL \<notin> set a" "NUL \<notin> set b" using assms(1) by (auto simp: a_def b_def dest: in_set_takeD in_set_dropD)
  show ?thesis
  proof (cases "s ! n = CHR '',''")
    case True
    have "takeWhile (\<lambda>c. c \<noteq> CHR '','') (a @ CHR '','' # b) = a"
      using a by (subst takeWhile_append2) (auto simp: comma_or_colon_def)
    then have "mark_tags s = a @ '':#'' @ b" using s True by (simp add: mark_tags_def Let_def)
    then show ?thesis using new_is_orig_tagged [OF nul a, of r] s True by simp
  next
    case False
    then have colon: "s ! n = CHR '':''" using n by (simp add: comma_or_colon_def)
    have m: "CHR '','' \<notin> set s" "Suc n < length s \<longrightarrow> s ! Suc n \<noteq> CHR ''#''"
      using assms(2) Some False by (simp_all add: markable_def)
    have "hd (b @ [NUL]) \<noteq> CHR ''#''"
      using m(2) by (cases "Suc n < length s") (auto simp: b_def hd_drop_conv_nth hd_append NUL_def)
    then show ?thesis
      using new_is_orig_untagged [OF nul a, of r] m(1) s colon by (simp add: mark_tags_def)
  qed
qed

section \<open>Parsing by pointers\<close>

definition add_pending :: "cmem \<Rightarrow> nat option \<Rightarrow> nat option \<Rightarrow> nat \<Rightarrow> tag_list \<Rightarrow> tag_list" where
  \<comment> \<open>the tag between the pointers, when both are set\<close>
  "add_pending m key vp p tags = (case (key, vp) of
     (Some k, Some v) \<Rightarrow> tag_put (sanitize (substr m k (v - 1 - k))) (sanitize (substr m v (p - v))) tags
   | _ \<Rightarrow> tags)"

function ptr_tags :: "cmem \<Rightarrow> nat \<Rightarrow> nat option \<Rightarrow> nat option \<Rightarrow> tag_list \<Rightarrow> (nat \<times> nat option \<times> nat option \<times> tag_list) option" where
  "ptr_tags m p key vp tags = (case deref m p of
     None \<Rightarrow> None
   | Some c \<Rightarrow>
       if c = CHR '':'' then Some (p, key, vp, tags)
       else if c = CHR '','' then
         ptr_tags m (Suc p) (Some (Suc p)) (if key \<noteq> None \<and> vp \<noteq> None then None else vp) (add_pending m key vp p tags)
       else if c = CHR ''='' then ptr_tags m (Suc p) key (Some (Suc p)) tags
       else ptr_tags m (Suc p) key vp tags)"
  by pat_completeness auto
termination
  by (relation "measure (\<lambda>(m, p, key, vp, tags). length m - p)") (auto simp: deref_def split: if_splits)

declare ptr_tags.simps [simp del]

definition get_measurement_ptr :: "cmem \<Rightarrow> bench_result" where
  \<comment> \<open>the first loop does not stop at the terminator: without a separator it leaves the buffer\<close>
  "get_measurement_ptr m =
     (let n = length (takeWhile (\<lambda>c. \<not> comma_or_colon c) m)
      in if n = length m then None
         else if n = 0 then Some (Inl Missing_name)
         else case ptr_tags m n None None [] of
           None \<Rightarrow> None
         | Some (p, key, vp, tags) \<Rightarrow> bench_value (drop (Suc p) m) (take n m) (add_pending m key vp p tags))"

definition plain_text :: "string \<Rightarrow> bool" where
  "plain_text s \<longleftrightarrow> CHR '','' \<notin> set s \<and> CHR '':'' \<notin> set s \<and> CHR ''='' \<notin> set s \<and> NUL \<notin> set s"

definition plain_tags :: "(string \<times> string) list \<Rightarrow> bool" where
  "plain_tags ts \<longleftrightarrow> list_all (\<lambda>t. plain_text (fst t) \<and> plain_text (snd t)) ts"

lemma plain_tags_ok: "plain_tags ts \<Longrightarrow> tags_ok ts"
  by (auto simp: plain_tags_def tags_ok_def key_ok_def name_ok_def plain_text_def list_all_iff)

lemma ptr_tags_skip:
  "plain_text b \<Longrightarrow> ptr_tags (a @ b @ c) (length a) key vp tags = ptr_tags (a @ b @ c) (length a + length b) key vp tags"
proof (induction b arbitrary: a)
  case Nil
  then show ?case by simp
next
  case (Cons x b)
  have "ptr_tags (a @ (x # b) @ c) (length a) key vp tags = ptr_tags (a @ (x # b) @ c) (Suc (length a)) key vp tags"
    using Cons.prems by (subst ptr_tags.simps) (auto simp: deref_def plain_text_def)
  also have "\<dots> = ptr_tags ((a @ [x]) @ b @ c) (length (a @ [x])) key vp tags" by simp
  also have "\<dots> = ptr_tags ((a @ [x]) @ b @ c) (length (a @ [x]) + length b) key vp tags"
    by (rule Cons.IH) (use Cons.prems in \<open>simp add: plain_text_def\<close>)
  finally show ?case by simp
qed

lemma ptr_tags_text:
  assumes "plain_tags ts" and "key = None \<longleftrightarrow> vp = None"
  shows "\<exists>key' vp' tags'. ptr_tags (pre @ tags_text ts @ CHR '':'' # w) (length pre) key vp tags =
      Some (length pre + length (tags_text ts), key', vp', tags') \<and>
    add_pending (pre @ tags_text ts @ CHR '':'' # w) key' vp' (length pre + length (tags_text ts)) tags' =
      fold (\<lambda>(k, v). tag_put (sanitize k) (sanitize v)) ts (add_pending (pre @ tags_text ts @ CHR '':'' # w) key vp (length pre) tags)"
  using assms
proof (induction ts arbitrary: pre key vp tags)
  case Nil
  then show ?case by (simp add: ptr_tags.simps [of _ "length pre"] deref_def)
next
  case (Cons t ts)
  obtain k v where t: "t = (k, v)" by fastforce
  have kv: "plain_text k" "plain_text v" "plain_tags ts" using Cons.prems(1) by (simp_all add: plain_tags_def t)
  let ?m = "pre @ tags_text (t # ts) @ CHR '':'' # w"
  let ?a = "pre @ [CHR '','']" and ?b = "pre @ CHR '','' # k @ [CHR ''='']"
  let ?tags = "add_pending ?m key vp (length pre) tags"
  have s1: "?m = ?a @ k @ CHR ''='' # v @ tags_text ts @ CHR '':'' # w" by (simp add: t)
  have s2: "?m = ?b @ v @ tags_text ts @ CHR '':'' # w" by (simp add: t)
  have s3: "?m = (?b @ v) @ tags_text ts @ CHR '':'' # w" by (simp add: t)
  have "ptr_tags ?m (length pre) key vp tags = ptr_tags ?m (length ?a) (Some (length ?a)) None ?tags"
    using Cons.prems(2) by (subst ptr_tags.simps) (auto simp: deref_def)
  also have "\<dots> = ptr_tags ?m (length ?a + length k) (Some (length ?a)) None ?tags"
    unfolding s1 by (rule ptr_tags_skip [OF kv(1)])
  also have "\<dots> = ptr_tags ?m (length ?b) (Some (length ?a)) (Some (length ?b)) ?tags"
    by (subst ptr_tags.simps) (auto simp: deref_def t nth_append)
  also have "\<dots> = ptr_tags ?m (length ?b + length v) (Some (length ?a)) (Some (length ?b)) ?tags"
    unfolding s2 by (rule ptr_tags_skip [OF kv(2)])
  finally have eq: "ptr_tags ?m (length pre) key vp tags =
      ptr_tags ?m (length (?b @ v)) (Some (length ?a)) (Some (length ?b)) ?tags" by (simp add: add.assoc)
  have "substr ?m (length ?a) (length ?b - 1 - length ?a) = k" "substr ?m (length ?b) (length (?b @ v) - length ?b) = v"
    using substr_mid [of ?a k] substr_mid [of ?b v] unfolding s1 s2 by simp_all
  then have pend: "add_pending ?m (Some (length ?a)) (Some (length ?b)) (length (?b @ v)) ?tags =
      tag_put (sanitize k) (sanitize v) ?tags"
    by (simp only: add_pending_def prod.case option.case)
  show ?case
    using Cons.IH [OF kv(3), of "Some (length ?a)" "Some (length ?b)" "?b @ v" ?tags] unfolding s3 [symmetric] pend eq
    by (simp add: t add.assoc)
qed

lemma ptr_text:
  assumes "name_ok name" "name \<noteq> []" "plain_tags tags" "NUL \<notin> set txt"
  shows "get_measurement_ptr (name @ tags_text tags @ CHR '':'' # txt @ NUL # r) = bench_value (txt @ NUL # r) name (intern_tags tags)"
proof -
  let ?m = "name @ tags_text tags @ CHR '':'' # txt @ NUL # r"
  obtain x u where x: "tags_text tags @ CHR '':'' # txt @ NUL # r = x # u" "comma_or_colon x" using tags_text_next by blast
  have "takeWhile (\<lambda>c. \<not> comma_or_colon c) ?m = name"
    unfolding x(1) using assms(1) x(2) by (subst takeWhile_append2) (auto simp: name_ok_def comma_or_colon_def)
  moreover obtain key vp ts where p: "ptr_tags ?m (length name) None None [] = Some (length name + length (tags_text tags), key, vp, ts)"
    "add_pending ?m key vp (length name + length (tags_text tags)) ts = intern_tags tags"
    using ptr_tags_text [OF assms(3), of None None name "txt @ NUL # r" "[]"] by (auto simp: intern_tags_fold add_pending_def)
  moreover have "drop (Suc (length name + length (tags_text tags))) ?m = txt @ NUL # r" by simp
  ultimately show ?thesis using assms(2) by (simp add: get_measurement_ptr_def Let_def)
qed

section \<open>The variants agree\<close>

text \<open>
  The variants with library searches parse every line as the daemon does, errors and reads beyond the line
  included; the format with a mark gives the same result for the rewritten line whenever the rewriting is
  unambiguous; the variant with pointers agrees on printed lines whose tags are free of the three separators (it
  takes the last equals sign of a tag, and without a separator it runs out of the buffer).
\<close>

theorem measurement_parsers_agree:
  assumes "NUL \<notin> set s" and "type \<noteq> CHR ''U''"
  shows "map_option as_union (get_measurement_strchr (s @ NUL # r)) = get_measurement type (s @ NUL # r) \<and>
    get_measurement_strview (s @ NUL # r) = get_measurement_strchr (s @ NUL # r) \<and>
    get_measurement_orig (s @ NUL # r) = get_measurement_strchr (s @ NUL # r) \<and>
    (markable s \<longrightarrow> get_measurement_new (mark_tags s @ NUL # r) = get_measurement_orig (s @ NUL # r)) \<and>
    (\<forall>name tags txt. s = name @ tags_text tags @ CHR '':'' # txt \<and> name_ok name \<and> name \<noteq> [] \<and> plain_tags tags \<longrightarrow>
       map_option as_union (get_measurement_ptr (s @ NUL # r)) = get_measurement type (s @ NUL # r))"
proof -
  have ptr: "map_option as_union (get_measurement_ptr (s @ NUL # r)) = get_measurement type (s @ NUL # r)"
    if "s = name @ tags_text tags @ CHR '':'' # rest" "name_ok name" "name \<noteq> []" "plain_tags tags" for name tags rest
  proof -
    have rest: "NUL \<notin> set rest" using that(1) assms(1) by simp
    show ?thesis
      using ptr_text [OF that(2,3,4) rest, of r] get_measurement_text [OF that(2,3) plain_tags_ok [OF that(4)] rest, of type r] that(1) assms(2)
      by (auto simp: bench_value_def convert_value_def as_union_def terminated_def strtod_stop split_beta Let_def)
  qed
  show ?thesis
    using strchr_is_get_measurement [OF terminated_line assms(2)] new_is_orig [OF assms(1)] ptr
    by (auto simp: get_measurement_strview_def get_measurement_orig_def)
qed

theorem measurement_parsers_agree_witness:
  "mark_tags ''ctr,id=1,foo=x:42'' = ''ctr:#id=1,foo=x:42'' \<and>
   get_measurement_new (''ctr:#id=1,foo=x:42'' @ [NUL]) = get_measurement_orig (''ctr,id=1,foo=x:42'' @ [NUL]) \<and>
   map_option as_union (get_measurement_ptr (''ctr,id=1,foo=x:42'' @ [NUL])) = get_measurement (CHR ''c'') (''ctr,id=1,foo=x:42'' @ [NUL])"
proof -
  let ?s = "''ctr,id=1,foo=x:42''"
  have s: "NUL \<notin> set ?s" "CHR ''c'' \<noteq> CHR ''U''" "markable ?s" "mark_tags ?s = ''ctr:#id=1,foo=x:42''"
    "?s = ''ctr'' @ tags_text [(''id'', ''1''), (''foo'', ''x'')] @ CHR '':'' # ''42''" "name_ok ''ctr''" "''ctr'' \<noteq> []"
    "plain_tags [(''id'', ''1''), (''foo'', ''x'')]" by code_simp+
  note agree = measurement_parsers_agree [OF s(1,2), of "[]"]
  from agree s(3) have new: "get_measurement_new (mark_tags ?s @ [NUL]) = get_measurement_orig (?s @ [NUL])" by blast
  from agree s(5-8) have "map_option as_union (get_measurement_ptr (?s @ [NUL])) = get_measurement (CHR ''c'') (?s @ [NUL])" by blast
  with new s(4) show ?thesis by metis
qed

section \<open>Tags in a container\<close>

text \<open>The class template over a standard map; the list is the container in its order of iteration.\<close>

unbundle bit_operations_syntax

type_synonym container = "(string \<times> string) list"

definition ct_add :: "string \<Rightarrow> string \<Rightarrow> container \<Rightarrow> container" where
  "ct_add k v t = (if k \<in> set (keys t) then map (\<lambda>e. if fst e = k then (k, v) else e) t else t @ [(k, v)])"

definition ct_of_list :: "(string \<times> string) list \<Rightarrow> container" where
  "ct_of_list vs = fold (\<lambda>(k, v). ct_add k v) vs []"

definition ct_hash :: "(string \<Rightarrow> 64 word) \<Rightarrow> container \<Rightarrow> 64 word" where
  "ct_hash hash t = sum_list (map (\<lambda>e. push_bit 1 (hash (fst e)) XOR hash (snd e)) t)"

definition ct_add_all :: "container \<Rightarrow> container \<Rightarrow> container" where
  "ct_add_all source t = fold (\<lambda>(k, v). ct_add k v) source t"

definition ct_eq :: "container \<Rightarrow> container \<Rightarrow> bool" where
  \<comment> \<open>equality of standard maps: the same size, and every entry of one is in the other\<close>
  "ct_eq t u \<longleftrightarrow> length t = length u \<and> list_all (\<lambda>e. map_of u (fst e) = Some (snd e)) t"

definition ct_has :: "container \<Rightarrow> string \<Rightarrow> bool" where
  "ct_has t k \<longleftrightarrow> map_of t k \<noteq> None"

definition ct_at :: "container \<Rightarrow> string \<Rightarrow> string" where
  "ct_at t k = (case map_of t k of Some v \<Rightarrow> v | None \<Rightarrow> [])"

definition ct_with_stat :: "container \<Rightarrow> string \<Rightarrow> container" where
  "ct_with_stat source stat = ct_add ''statistic'' stat source"

lemma ct_add_keys: "distinct (keys t) \<Longrightarrow> distinct (keys (ct_add k v t)) \<and> set (keys (ct_add k v t)) = insert k (set (keys t))"
proof -
  have "keys (map (\<lambda>e. if fst e = k then (k, v) else e) t) = keys t" by (simp add: keys_def)
  then show "distinct (keys t) \<Longrightarrow> ?thesis" by (auto simp: ct_add_def)
qed

lemma map_of_ct_add: "map_of (ct_add k v t) = (map_of t)(k \<mapsto> v)"
proof (cases "k \<in> set (keys t)")
  case True
  have "map_of (map (\<lambda>e. if fst e = k then (k, v) else e) t) x = (if x = k \<and> k \<in> set (keys t) then Some v else map_of t x)" for x
    by (induction t) auto
  then show ?thesis using True by (auto simp: ct_add_def)
next
  case False
  then have "map_of t k = None" by (simp add: map_of_None_keys)
  then show ?thesis using False by (auto simp: ct_add_def fun_eq_iff map_add_def split: option.split)
qed

lemma ct_fold:
  "distinct (keys t) \<Longrightarrow> distinct (keys (fold (\<lambda>(k, v). ct_add k v) vs t)) \<and>
   map_of (fold (\<lambda>(k, v). ct_add k v) vs t) = map_of t ++ map_of (rev vs)"
proof (induction vs arbitrary: t)
  case Nil
  then show ?case by simp
next
  case (Cons p vs)
  then show ?case
    by (cases p) (simp add: ct_add_keys map_of_ct_add map_add_upd_left map_add_assoc [symmetric], auto simp: map_add_def fun_eq_iff split: option.splits)
qed

lemma ct_eq_iff:
  assumes "distinct (keys t)" "distinct (keys u)"
  shows "ct_eq t u \<longleftrightarrow> map_of t = map_of u"
proof
  assume e: "ct_eq t u"
  have sub: "set t \<subseteq> set u" using e by (auto simp: ct_eq_def list_all_iff dest!: bspec intro: map_of_SomeD)
  have "distinct t" "distinct u" using assms by (auto simp: keys_def distinct_map)
  then have "card (set t) = card (set u)" using e by (simp add: ct_eq_def distinct_card)
  then have "set t = set u" using sub by (simp add: card_subset_eq)
  then show "map_of t = map_of u" using assms by (simp add: keys_def map_of_inject_set)
next
  assume m: "map_of t = map_of u"
  have "set t = set u" using assms m by (simp add: keys_def map_of_inject_set)
  moreover have "distinct t" "distinct u" using assms by (auto simp: keys_def distinct_map)
  ultimately have "length t = length u" by (metis distinct_card)
  then show "ct_eq t u" using assms(2) \<open>set t = set u\<close> by (auto simp: ct_eq_def list_all_iff keys_def)
qed

text \<open>The container meets the interface that identities and publisher rely on, like the tags of the daemon.\<close>

interpretation containers: tag_store "\<lambda>k v t. Some (ct_add k v t)" map_of ct_eq "\<lambda>t. distinct (keys t)"
  by unfold_locales (use ct_add_keys map_of_ct_add ct_eq_iff in auto)

lemma ct_of_list_spec:
  "distinct (keys (ct_of_list vs))" "map_of (ct_of_list vs) = map_of (rev vs)"
  using ct_fold [of "[]" vs] by (simp_all add: ct_of_list_def)

lemma sorted_of_list:
  "sorted_tags (fold (\<lambda>(k, v). tag_put k v) vs t) \<and> map_of (fold (\<lambda>(k, v). tag_put k v) vs t) = map_of t ++ map_of (rev vs)"
  if "sorted_tags t"
  using that
proof (induction vs arbitrary: t)
  case Nil
  then show ?case by simp
next
  case (Cons p vs)
  then show ?case
    by (cases p) (auto simp: map_of_tag_put map_add_def fun_eq_iff split: option.splits)
qed

lemma ct_length:
  assumes "distinct (keys t)" "sorted_tags s" "map_of t = map_of s"
  shows "length t = length s"
proof -
  have "set t = set s" using assms sorted_tags_distinct [OF assms(2)] by (simp add: keys_def map_of_inject_set)
  moreover have "distinct t" "distinct s" using assms(1) sorted_tags_distinct [OF assms(2)] by (auto simp: keys_def distinct_map)
  ultimately show ?thesis by (metis distinct_card)
qed

text \<open>
  The container variant and the sorted tags of the daemon are the same abstract map: after the same
  additions they have the same size and the same answers, two containers are equal exactly when the sorted tags
  are, and the hash of a container depends on the mapping alone, not on the order in which it is walked.
\<close>

theorem container_tags_agree:
  fixes vs ws :: "(string \<times> string) list"
  shows "let t = ct_of_list vs; u = ct_of_list ws;
         s = fold (\<lambda>(k, v). tag_put k v) vs []; s' = fold (\<lambda>(k, v). tag_put k v) ws []
     in length t = length s \<and> ct_has t = tag_has s \<and> ct_at t = (\<lambda>k. case tag_at s k of Some v \<Rightarrow> v | None \<Rightarrow> []) \<and>
        (ct_eq t u \<longleftrightarrow> s = s') \<and> (ct_eq t u \<longrightarrow> ct_hash hash t = ct_hash hash u) \<and>
        (ct_eq (ct_add_all u t) (ct_of_list (vs @ ws)))"
proof -
  let ?t = "ct_of_list vs" and ?u = "ct_of_list ws"
  let ?s = "fold (\<lambda>(k, v). tag_put k v) vs []" and ?s' = "fold (\<lambda>(k, v). tag_put k v) ws []"
  note t = ct_of_list_spec [of vs] and u = ct_of_list_spec [of ws]
  have s: "sorted_tags ?s" "map_of ?s = map_of ?t" and s': "sorted_tags ?s'" "map_of ?s' = map_of ?u"
    using sorted_of_list [of "[]" vs] sorted_of_list [of "[]" ws] t(2) u(2) by simp_all
  have at: "tag_at ?s k = map_of ?t k" for k using tag_at_map_of [OF s(1)] s(2) by simp
  have eq: "ct_eq ?t ?u \<longleftrightarrow> ?s = ?s'"
    unfolding ct_eq_iff [OF t(1) u(1)] s(2) [symmetric] s'(2) [symmetric] using sorted_tags_ext [OF s(1) s'(1)] by auto
  have h: "ct_hash hash ?t = ct_hash hash ?u" if "ct_eq ?t ?u"
  proof -
    have "set ?t = set ?u" using that t(1) u(1) unfolding ct_eq_iff [OF t(1) u(1)] by (simp add: keys_def map_of_inject_set)
    moreover have "distinct ?t" "distinct ?u" using t(1) u(1) by (auto simp: keys_def distinct_map)
    ultimately show ?thesis by (simp add: ct_hash_def sum_list_distinct_conv_sum_set)
  qed
  have "distinct (keys (ct_add_all ?u ?t)) \<and> map_of (ct_add_all ?u ?t) = map_of ?t ++ map_of (rev ?u)"
    unfolding ct_add_all_def by (rule ct_fold [OF t(1)])
  moreover have "map_of (rev ?u) = map_of ?u" using u(1) by (simp add: keys_def map_of_inject_set rev_map [symmetric])
  ultimately have "ct_eq (ct_add_all ?u ?t) (ct_of_list (vs @ ws))"
    using ct_of_list_spec [of "vs @ ws"] t(2) u(2) by (simp add: ct_eq_iff)
  then show ?thesis
    unfolding Let_def using ct_length [OF t(1) s(1)] s(2) eq h at
    by (auto simp: ct_has_def ct_at_def tag_has_tag_at fun_eq_iff)
qed

theorem container_tags_agree_witness:
  "let hash = (\<lambda>s. of_nat (length s)) in ct_eq (ct_of_list [(''a'', ''1''), (''b'', ''2'')]) (ct_of_list [(''b'', ''2''), (''a'', ''1'')]) \<and>
     ct_hash hash (ct_of_list [(''a'', ''1''), (''b'', ''2'')]) = ct_hash hash (ct_of_list [(''b'', ''2''), (''a'', ''1'')])"
proof -
  have "ct_eq (ct_of_list [(''a'', ''1''), (''b'', ''2'')]) (ct_of_list [(''b'', ''2''), (''a'', ''1'')])" by code_simp
  then show ?thesis
    using container_tags_agree [of "[(''a'', ''1''), (''b'', ''2'')]" "[(''b'', ''2''), (''a'', ''1'')]" "\<lambda>s. of_nat (length s)"]
    unfolding Let_def by blast
qed

end
