(* ===== verification/BenchRuns.thy ===== *)
theory BenchRuns
  imports BenchVariants
begin

text \<open>
  What the benchmarks of \<open>bench/\<close> run: their lines and tags, and one iteration of each loop. The variants they
  compare do the same work on these lines, and what the later iterations of two of them measure is not what the
  first one does.
\<close>

section \<open>Measurements\<close>

definition line_feed :: string where
  "line_feed = [CHR 0x0A]"

definition measurement_lines :: "string list" where
  "measurement_lines =
    [''spectatord_test.counter,id=1234,foo=some-foo:42.0'' @ line_feed,
     ''spectatord_test.timer,id=1234,foo=some-foo:0.5'' @ line_feed,
     ''spectatord_test.ds,id=12341234,foo=some-foo:42'' @ line_feed,
     ''spectatord_test.max,id=12341234,foo=some-foo:0.12341234'' @ line_feed,
     ''spectatord_test.percTimer,id=12341234,tag=bar,tag1=baradfasasdf,'' @
     ''tagadsdf=badsfsadfasdfasdf:12341234.1234'' @ line_feed]"

definition bench_get_measurement_fun :: "(cmem \<Rightarrow> bench_result) \<Rightarrow> bench_result list" where
  \<comment> \<open>the results of an iteration\<close>
  "bench_get_measurement_fun fn = map (\<lambda>m. fn (m @ [NUL])) measurement_lines"

definition bench_get_measurement_ptr :: "bench_result list" where
  "bench_get_measurement_ptr = bench_get_measurement_fun get_measurement_ptr"

definition bench_get_measurement_strchr :: "bench_result list" where
  "bench_get_measurement_strchr = bench_get_measurement_fun get_measurement_strchr"

definition bench_get_measurement_strview :: "bench_result list" where
  "bench_get_measurement_strview = bench_get_measurement_fun get_measurement_strview"

definition fmt_lines :: "string list" where
  "fmt_lines =
    [''spectatord_test.counter:42.0'' @ line_feed,
     ''spectatord_test.timer,id=1234,foo=some-foo,tag3=bar3,tag4=aasdfasdfasdf:'' @
     ''0.5'' @ line_feed,
     ''spectatord_test.ds,id=12341234,foo=some-foo:42'' @ line_feed,
     ''spectatord_test.max,id=12341234,foo=some-foo,statistic=percentile,'' @
     ''another-tag=value:0.12341234'' @ line_feed,
     ''spectatord_test.percTimer,id=12341234,tag=bar,tag1=baradfasasdf,'' @
     ''tagadsdf=badsfsadfasdfasdf:12341234.1234'' @ line_feed]"

definition bench_get_measurement_orig :: "bench_result list" where
  "bench_get_measurement_orig = map (\<lambda>m. get_measurement_orig (m @ [NUL])) fmt_lines"

definition bench_get_measurement_new :: "bench_result list" where
  "bench_get_measurement_new = map (\<lambda>m. get_measurement_new (m @ [NUL])) (map mark_tags fmt_lines)"

lemma bench_lines_printed:
  "list_all (\<lambda>s. NUL \<notin> set s) measurement_lines"
  "\<exists>name tags txt. s = name @ tags_text tags @ CHR '':'' # txt \<and> name_ok name \<and> name \<noteq> [] \<and> plain_tags tags"
  if "s \<in> set measurement_lines"
proof -
  have e: "measurement_lines =
    [''spectatord_test.counter'' @ tags_text [(''id'', ''1234''), (''foo'', ''some-foo'')] @ CHR '':'' # ''42.0'' @ line_feed,
     ''spectatord_test.timer'' @ tags_text [(''id'', ''1234''), (''foo'', ''some-foo'')] @ CHR '':'' # ''0.5'' @ line_feed,
     ''spectatord_test.ds'' @ tags_text [(''id'', ''12341234''), (''foo'', ''some-foo'')] @ CHR '':'' # ''42'' @ line_feed,
     ''spectatord_test.max'' @ tags_text [(''id'', ''12341234''), (''foo'', ''some-foo'')] @ CHR '':'' # ''0.12341234'' @ line_feed,
     ''spectatord_test.percTimer'' @ tags_text [(''id'', ''12341234''), (''tag'', ''bar''), (''tag1'', ''baradfasasdf''),
       (''tagadsdf'', ''badsfsadfasdfasdf'')] @ CHR '':'' # ''12341234.1234'' @ line_feed]"
    by (simp add: measurement_lines_def)
  have ok: "name_ok ''spectatord_test.counter''" "name_ok ''spectatord_test.timer''" "name_ok ''spectatord_test.ds''"
    "name_ok ''spectatord_test.max''" "name_ok ''spectatord_test.percTimer''"
    "plain_tags [(''id'', ''1234''), (''foo'', ''some-foo'')]" "plain_tags [(''id'', ''12341234''), (''foo'', ''some-foo'')]"
    "plain_tags [(''id'', ''12341234''), (''tag'', ''bar''), (''tag1'', ''baradfasasdf''), (''tagadsdf'', ''badsfsadfasdfasdf'')]"
    by code_simp+
  from that consider "s = ''spectatord_test.counter'' @ tags_text [(''id'', ''1234''), (''foo'', ''some-foo'')] @ CHR '':'' # ''42.0'' @ line_feed"
    | "s = ''spectatord_test.timer'' @ tags_text [(''id'', ''1234''), (''foo'', ''some-foo'')] @ CHR '':'' # ''0.5'' @ line_feed"
    | "s = ''spectatord_test.ds'' @ tags_text [(''id'', ''12341234''), (''foo'', ''some-foo'')] @ CHR '':'' # ''42'' @ line_feed"
    | "s = ''spectatord_test.max'' @ tags_text [(''id'', ''12341234''), (''foo'', ''some-foo'')] @ CHR '':'' # ''0.12341234'' @ line_feed"
    | "s = ''spectatord_test.percTimer'' @ tags_text [(''id'', ''12341234''), (''tag'', ''bar''), (''tag1'', ''baradfasasdf''),
       (''tagadsdf'', ''badsfsadfasdfasdf'')] @ CHR '':'' # ''12341234.1234'' @ line_feed"
    unfolding e list.set insert_iff empty_iff by blast
  then show "\<exists>name tags txt. s = name @ tags_text tags @ CHR '':'' # txt \<and> name_ok name \<and> name \<noteq> [] \<and> plain_tags tags"
    by cases (metis ok list.distinct(1))+
qed code_simp

text \<open>Every variant gives the result of the daemon's own parser on every line of its benchmark.\<close>

lemma benchmarks_compare_equal_work:
  "map (map_option as_union) bench_get_measurement_strchr = map (\<lambda>m. get_measurement (CHR ''c'') (m @ [NUL])) measurement_lines"
  "bench_get_measurement_strview = bench_get_measurement_strchr"
  "map (map_option as_union) bench_get_measurement_ptr = map (map_option as_union) bench_get_measurement_strchr"
  "map (map_option as_union) bench_get_measurement_orig = map (\<lambda>m. get_measurement (CHR ''c'') (m @ [NUL])) fmt_lines"
  "bench_get_measurement_new = bench_get_measurement_orig"
proof -
  have c: "CHR ''c'' \<noteq> CHR ''U''" by simp
  have n: "NUL \<notin> set s" if "s \<in> set measurement_lines" for s
    using bench_lines_printed(1) that by (simp add: list_all_iff)
  have o: "list_all (\<lambda>s. NUL \<notin> set s \<and> markable s) fmt_lines" by code_simp
  note agree = measurement_parsers_agree [OF n c] and agree2 = measurement_parsers_agree [OF _ c]
  have ptr: "map_option as_union (get_measurement_ptr (s @ [NUL])) = map_option as_union (get_measurement_strchr (s @ [NUL]))"
    if "s \<in> set measurement_lines" for s
    using agree [OF that, of "[]"] bench_lines_printed(2) [OF that] by auto
  show "map (map_option as_union) bench_get_measurement_strchr = map (\<lambda>m. get_measurement (CHR ''c'') (m @ [NUL])) measurement_lines"
    "bench_get_measurement_strview = bench_get_measurement_strchr"
    using agree by (simp_all add: bench_get_measurement_strchr_def bench_get_measurement_strview_def bench_get_measurement_fun_def)
  show "map (map_option as_union) bench_get_measurement_ptr = map (map_option as_union) bench_get_measurement_strchr"
    by (simp add: bench_get_measurement_strchr_def bench_get_measurement_ptr_def bench_get_measurement_fun_def ptr)
  show "map (map_option as_union) bench_get_measurement_orig = map (\<lambda>m. get_measurement (CHR ''c'') (m @ [NUL])) fmt_lines"
    "bench_get_measurement_new = bench_get_measurement_orig"
    using o agree2 by (auto simp: bench_get_measurement_orig_def bench_get_measurement_new_def list_all_iff)
qed

section \<open>Sanitising\<close>

definition bench_fix :: "(string \<Rightarrow> string) \<Rightarrow> nat \<Rightarrow> string \<times> string" where
  \<comment> \<open>the two tags after a number of iterations; the strings are changed in place\<close>
  "bench_fix fix_string n = ((\<lambda>(tag, tag2). (fix_string tag, fix_string tag2)) ^^ n) (''abcdefghijkl.asdf'', ''abcdefghijkl#asdf'')"

definition BM_IfSmallTable :: "nat \<Rightarrow> string \<times> string" where "BM_IfSmallTable = bench_fix fix_string_small"
definition BM_TwoCondsTable :: "nat \<Rightarrow> string \<times> string" where "BM_TwoCondsTable = bench_fix fix_string_two"
definition BM_FullTable :: "nat \<Rightarrow> string \<times> string" where "BM_FullTable = bench_fix fix_string_full"

text \<open>Only the first iteration has a character to replace: the others sanitise sanitised strings.\<close>

lemma only_the_first_iteration_replaces:
  "BM_IfSmallTable (Suc n) = (''abcdefghijkl.asdf'', ''abcdefghijkl_asdf'')"
  "BM_TwoCondsTable (Suc n) = (''abcdefghijkl.asdf'', ''abcdefghijkl_asdf'')"
  "BM_FullTable (Suc n) = (''abcdefghijkl.asdf'', ''abcdefghijkl_asdf'')"
proof -
  have *: "bench_fix f (Suc n) = (''abcdefghijkl.asdf'', ''abcdefghijkl_asdf'')"
    if "f ''abcdefghijkl.asdf'' = ''abcdefghijkl.asdf''" "f ''abcdefghijkl#asdf'' = ''abcdefghijkl_asdf''"
      "f ''abcdefghijkl_asdf'' = ''abcdefghijkl_asdf''" for f n
    using that by (induction n) (simp_all add: bench_fix_def)
  show "BM_IfSmallTable (Suc n) = (''abcdefghijkl.asdf'', ''abcdefghijkl_asdf'')"
    unfolding BM_IfSmallTable_def by (rule *) code_simp+
  show "BM_TwoCondsTable (Suc n) = (''abcdefghijkl.asdf'', ''abcdefghijkl_asdf'')"
    unfolding BM_TwoCondsTable_def by (rule *) code_simp+
  show "BM_FullTable (Suc n) = (''abcdefghijkl.asdf'', ''abcdefghijkl_asdf'')"
    unfolding BM_FullTable_def by (rule *) code_simp+
qed

section \<open>Tags\<close>

definition bench_keys :: "nat \<Rightarrow> string list" where
  "bench_keys i = [''nf.1key'' @ show_nat i, ''nf.2key'' @ show_nat i, ''nf.3key'' @ show_nat i,
     ''some.longKey.value.that.does.not.fit.in.the.string.'' @ show_nat i]"

definition add_tags_pass :: "nat \<Rightarrow> container \<Rightarrow> container" where
  \<comment> \<open>an iteration; \<open>r\<close> is the range of the benchmark\<close>
  "add_tags_pass r tags = fold (\<lambda>i. fold (\<lambda>k. ct_add k k) (bench_keys i)) [0..<r] tags"

definition bench_add_tags :: "nat \<Rightarrow> nat \<Rightarrow> container" where
  \<comment> \<open>the tags are declared before the loop: every iteration adds to the same container\<close>
  "bench_add_tags n r = (add_tags_pass r ^^ n) []"

definition bench_with_tag :: "container list" where
  \<comment> \<open>the four copies of an iteration\<close>
  "bench_with_tag = (let tags = ct_of_list [(''name'', ''some.name''), (''id'', ''some.id''), (''dev'', ''root.device'')]
     in [ct_with_stat tags ''count'', ct_with_stat tags ''totalTime'', ct_with_stat tags ''totalOfSquares'', ct_with_stat tags ''max''])"

lemma add_tags_pass_fold: "add_tags_pass r tags = fold (\<lambda>k. ct_add k k) (concat (map bench_keys [0..<r])) tags"
  unfolding add_tags_pass_def by (induction r) simp_all

lemma fold_ct_add_self:
  "distinct (keys t) \<Longrightarrow> list_all (\<lambda>e. fst e = snd e) t \<Longrightarrow>
   (let u = fold (\<lambda>k. ct_add k k) ks t in distinct (keys u) \<and> set (keys u) = set (keys t) \<union> set ks \<and> list_all (\<lambda>e. fst e = snd e) u)"
proof (induction ks arbitrary: t)
  case (Cons k ks)
  have "list_all (\<lambda>e. fst e = snd e) (ct_add k k t)" using Cons.prems(2) by (auto simp: ct_add_def list_all_iff)
  then show ?case using Cons.IH [of "ct_add k k t"] ct_add_keys [OF Cons.prems(1), of k k] by (simp add: Let_def)
qed simp

lemma ct_add_same: "k \<in> set (keys t) \<Longrightarrow> list_all (\<lambda>e. fst e = snd e) t \<Longrightarrow> ct_add k k t = t"
  by (auto simp: ct_add_def list_all_iff prod_eq_iff intro!: map_idI)

lemma fold_ct_add_same: "set ks \<subseteq> set (keys t) \<Longrightarrow> list_all (\<lambda>e. fst e = snd e) t \<Longrightarrow> fold (\<lambda>k. ct_add k k) ks t = t"
  by (induction ks) (simp_all add: ct_add_same)

text \<open>Only the first iteration inserts: the container holds the keys of one pass, each with itself as its value, and
  the later iterations look up and overwrite.\<close>

lemma only_the_first_iteration_inserts:
  "bench_add_tags (Suc n) r = bench_add_tags 1 r"
  "distinct (keys (bench_add_tags 1 r))" "set (keys (bench_add_tags 1 r)) = (\<Union>i < r. set (bench_keys i))"
proof -
  let ?ks = "concat (map bench_keys [0..<r])"
  have p: "distinct (keys (add_tags_pass r []))" "set (keys (add_tags_pass r [])) = set ?ks"
    "list_all (\<lambda>e. fst e = snd e) (add_tags_pass r [])"
    using fold_ct_add_self [of "[]" ?ks] by (simp_all add: add_tags_pass_fold Let_def keys_def)
  have "add_tags_pass r (add_tags_pass r []) = add_tags_pass r []"
    using p(2,3) by (simp only: add_tags_pass_fold [of r "add_tags_pass r []"]) (rule fold_ct_add_same, simp_all)
  then show "bench_add_tags (Suc n) r = bench_add_tags 1 r" by (induction n) (simp_all add: bench_add_tags_def)
  show "distinct (keys (bench_add_tags 1 r))" "set (keys (bench_add_tags 1 r)) = (\<Union>i < r. set (bench_keys i))"
    using p(1,2) by (auto simp: bench_add_tags_def)
qed

end
