(* ===== verification/MetricsGen.thy ===== *)
theory MetricsGen
  imports ServerLaws
begin

text \<open>
  The load generator (\<open>tools/metrics_gen.cc\<close>): the lines it makes, how they are batched into datagrams, how
  sending is throttled, and its options. The lines go to the daemon, so they are compared with what the parser of
  the daemon accepts.
\<close>

section \<open>Lines\<close>

definition gen_lines :: "string \<Rightarrow> nat \<Rightarrow> nat \<Rightarrow> string list" where
  \<comment> \<open>the body of the loop of \<open>gen_metrics\<close>, for \<open>n\<close> and \<open>i\<close>\<close>
  "gen_lines prefix n i = (let p = prefix @ show_nat n; nl = [CHR 0x0A] in
     [''c:spectatord_test.counter,id='' @ p @ '',foo=some-foo:42.0'' @ nl,
      ''1:C:spectatord_test.monocounter,id='' @ p @ '',foo=some-foo,bar=some-bar:'' @ show_nat i @ nl,
      ''t:spectatord_test.timer,id='' @ p @ '',foo=some-foo:0.5'' @ nl,
      ''d:spectatord_test.ds,id='' @ p @ '',foo=some-foo:42'' @ nl,
      ''m:spectatord_test.max,id='' @ p @ '',foo=some-foo:'' @ show_nat i @ nl,
      ''D:spectatord_test.percDs,id='' @ p @ '',tag1=some-tag-string,tag2=some-value:'' @ show_nat (n mod 5) @ nl,
      ''T:spectatord_test.percTimer,id='' @ p @ '',invalid=some-invalid-string:'' @ show_nat (n mod 5) @ nl,
      ''c:spectatord_test.ctr,id='' @ p @ '',nf.invalid=some-invalid-string:'' @ show_nat (i mod 5) @ nl,
      ''c:spectatord_test.ctr2,id='' @ p @ '',foo=bar,bar=baz:'' @ show_nat (i mod 5) @ nl,
      ''g,30:spectatord_test.gauge,id='' @ p @ '',foo=bar,bar=baz:'' @ show_nat (i mod 5) @ nl])"

definition gen_raw :: "string \<Rightarrow> nat \<Rightarrow> nat \<Rightarrow> string list" where
  "gen_raw prefix num distincts = concat (map (\<lambda>i. gen_lines prefix (i mod distincts) i) [0..<num div 10])"

function fill_batches :: "nat \<Rightarrow> string list \<Rightarrow> string list" where
  \<comment> \<open>for a positive size\<close>
  "fill_batches k metrics = (if metrics = [] \<or> k = 0 then [] else concat (take k metrics) # fill_batches k (drop k metrics))"
  by pat_completeness auto
termination
  by (relation "measure (\<lambda>(k, metrics). length metrics)") auto

declare fill_batches.simps [simp del]

definition batch :: "string list \<Rightarrow> int \<Rightarrow> string list option" where
  \<comment> \<open>\<open>None\<close>: a division by zero, or a loop that does not end because it never takes a metric\<close>
  "batch metrics batch_size =
     (if batch_size = 1 then Some metrics
      else if batch_size \<le> 0 \<and> (batch_size = 0 \<or> metrics \<noteq> []) then None
      else Some (fill_batches (nat batch_size) metrics))"

definition gen_metrics :: "string \<Rightarrow> nat \<Rightarrow> nat \<Rightarrow> int \<Rightarrow> string list option" where
  "gen_metrics prefix num distincts batch_size = batch (gen_raw prefix num distincts) batch_size"

section \<open>Throttling\<close>

record throttler =
  th_last :: int
  th_nanos_for_1k :: int

definition new_throttler :: "int \<Rightarrow> int \<Rightarrow> throttler" where
  \<comment> \<open>\<open>rps\<close> is at least 1000\<close>
  "new_throttler now rps = \<lparr>th_last = now, th_nanos_for_1k = 1000000000 div (rps div 1000)\<rparr>"

definition throttle :: "int \<Rightarrow> int \<Rightarrow> int \<Rightarrow> throttler \<Rightarrow> int \<times> throttler" where
  \<comment> \<open>the nanoseconds to sleep; the second reading of the clock is separate\<close>
  "throttle i now now2 t =
     (if i mod 1000 = 0
      then let nanos_to_sleep = th_nanos_for_1k t - (now - th_last t)
           in if 0 < nanos_to_sleep then (nanos_to_sleep, t\<lparr>th_last := th_last t + th_nanos_for_1k t\<rparr>)
              else (0, t\<lparr>th_last := now2\<rparr>)
      else (0, t))"

section \<open>Sending\<close>

datatype gen_event = Sleep int | Send string | Report int

definition update_every :: "int \<Rightarrow> int" where
  "update_every rps = min 100000 (rps * 2)"

fun send_loop :: "bool \<Rightarrow> int \<Rightarrow> int \<Rightarrow> (nat \<Rightarrow> int) \<Rightarrow> nat \<Rightarrow> int \<Rightarrow> throttler \<Rightarrow> string list \<Rightarrow> gen_event list" where
  \<comment> \<open>the loop of \<open>local_send_metrics\<close> or, without the flag, of \<open>udp_send_metrics\<close>, which sleep on different sides of
    a send; the clock is a sequence of readings, two for each metric, and \<open>i\<close> stays in the range of \<open>int\<close> for the
    default batch size\<close>
  "send_loop local batch_size every clock k i t [] = []"
| "send_loop local batch_size every clock k i t (m # ms) =
     (let i1 = i + batch_size;
          (nanos, t1) = throttle i1 (clock k) (clock (Suc k)) t;
          nap = (if 0 < nanos then [Sleep nanos] else []);
          turn = (if local then Send m # nap else nap @ [Send m])
      in if i1 mod every = 0
         then turn @ Report i1 # send_loop local batch_size every clock (k + 2) 0 t1 ms
         else turn @ send_loop local batch_size every clock (k + 2) i1 t1 ms)"

definition send_metrics_to :: "bool \<Rightarrow> int \<Rightarrow> int \<Rightarrow> int \<Rightarrow> (nat \<Rightarrow> int) \<Rightarrow> string list \<Rightarrow> gen_event list" where
  \<comment> \<open>with the rate of lines and the time at which the throttler is made\<close>
  "send_metrics_to local batch_size rps now clock metrics =
     send_loop local batch_size (update_every rps) clock 0 0 (new_throttler now rps) metrics"

section \<open>Options\<close>

record gen_options =
  go_local :: bool
  go_rps :: int
  go_port_number :: int
  go_batch_size :: int

definition default_options :: gen_options where
  "default_options = \<lparr>go_local = False, go_rps = 10000, go_port_number = 1234, go_batch_size = 1\<rparr>"

primrec gen_option :: "(string \<Rightarrow> int option) \<Rightarrow> char \<times> string \<Rightarrow> gen_options \<Rightarrow> gen_options option" where
  \<comment> \<open>one turn of the \<open>getopt\<close> loop; \<open>None\<close> ends the process\<close>
  "gen_option atoi (ch, optarg) o1 =
     (if ch = CHR ''l'' then Some (o1\<lparr>go_local := True\<rparr>)
      else if ch = CHR ''u'' then Some o1
      else if ch = CHR ''b'' then Some (case atoi optarg of Some n \<Rightarrow> if 0 < n then o1\<lparr>go_batch_size := n\<rparr> else o1 | None \<Rightarrow> o1)
      else if ch = CHR ''p'' then
        Some (case atoi optarg of Some n \<Rightarrow> if 0 < n \<and> n < 65536 then o1\<lparr>go_port_number := n\<rparr> else o1 | None \<Rightarrow> o1)
      else if ch = CHR ''r'' then
        (case atoi optarg of
           Some n \<Rightarrow> if n \<le> 0 then None else Some (o1\<lparr>go_rps := (if n < 1000 then 1000 else n)\<rparr>)
         | None \<Rightarrow> None)
      else None)"

primrec gen_parse :: "(string \<Rightarrow> int option) \<Rightarrow> (char \<times> string) list \<Rightarrow> gen_options \<Rightarrow> gen_options option" where
  "gen_parse atoi [] o1 = Some o1"
| "gen_parse atoi (a # as) o1 = (case gen_option atoi a o1 of None \<Rightarrow> None | Some o2 \<Rightarrow> gen_parse atoi as o2)"

definition num_metrics :: "int \<Rightarrow> int option" where
  \<comment> \<open>\<open>std::min(rps * 10, 10'000'000)\<close> over \<open>int\<close>\<close>
  "num_metrics rps = (if rps * 10 < 2 ^ 31 then Some (min (rps * 10) 10000000) else None)"

definition generated :: "(string \<Rightarrow> int option) \<Rightarrow> (char \<times> string) list \<Rightarrow> string list option" where
  \<comment> \<open>the datagrams that a run sends\<close>
  "generated atoi args = (case gen_parse atoi args default_options of
     None \<Rightarrow> None
   | Some o1 \<Rightarrow> (case num_metrics (go_rps o1) of
       None \<Rightarrow> None
     | Some num \<Rightarrow> gen_metrics ''id'' (nat num) 100000 (go_batch_size o1)))"

section \<open>The lines of the parser benchmark\<close>

definition bench_measurements :: "string list" where
  \<comment> \<open>\<open>get_measurements\<close> of \<open>bench/parse_bench.cc\<close>\<close>
  "bench_measurements = concat (map (\<lambda>i. let nl = [CHR 0x0A] in
     [''1:c:spectatord_test.counter'' @ show_nat i @ '':42.0'' @ nl,
      ''1:t:spectatord_test.timer,id='' @ show_nat i @ '',foo=some-foo:0.5'' @ nl,
      ''1:d:spectatord_test.ds,id='' @ show_nat i @ '',foo=some-foo:42'' @ nl,
      ''1:m:spectatord_test.max,id='' @ show_nat i @ '',foo=some-foo:'' @ show_nat i @ nl,
      ''1:T:spectatord_test.percTimer,id='' @ show_nat i @ '',tag=bar:'' @ show_nat (i mod 10) @ nl]) [0..<100])"

section \<open>Batches\<close>

lemma fill_batches_spec:
  assumes "0 < k"
  shows "concat (fill_batches k ms) = concat ms \<and> length (fill_batches k ms) = (length ms + k - 1) div k \<and>
    (\<forall>b \<in> set (fill_batches k ms). \<exists>ls. ls \<noteq> [] \<and> length ls \<le> k \<and> set ls \<subseteq> set ms \<and> b = concat ls)"
  using assms
proof (induction k ms rule: fill_batches.induct)
  case (1 k ms)
  show ?case
  proof (cases "ms = []")
    case True
    then show ?thesis using 1(2) by (simp add: fill_batches.simps)
  next
    case False
    have IH: "concat (fill_batches k (drop k ms)) = concat (drop k ms)"
      "length (fill_batches k (drop k ms)) = (length (drop k ms) + k - 1) div k"
      "\<forall>b \<in> set (fill_batches k (drop k ms)). \<exists>ls. ls \<noteq> [] \<and> length ls \<le> k \<and> set ls \<subseteq> set (drop k ms) \<and> b = concat ls"
      using 1 False by auto
    have b: "fill_batches k ms = concat (take k ms) # fill_batches k (drop k ms)"
      using False 1(2) by (simp add: fill_batches.simps [of k ms])
    have "concat (take k ms) @ concat (drop k ms) = concat ms" by (metis append_take_drop_id concat_append)
    moreover have "Suc ((length ms - k + k - 1) div k) = (length ms + k - 1) div k"
    proof (cases "k \<le> length ms")
      case True
      then have "length ms + k - 1 = (length ms - k + k - 1) + k" using 1(2) False by (cases "length ms") auto
      then show ?thesis using 1(2) by (metis Suc_eq_plus1 div_add_self2 neq0_conv)
    next
      case f: False
      then have "(length ms - k + k - 1) div k = 0" using 1(2) by simp
      moreover have "(length ms + k - 1) div k = 1"
        using f False 1(2) by (intro div_nat_eqI) (cases "length ms"; auto)+
      ultimately show ?thesis by simp
    qed
    moreover have "\<exists>ls. ls \<noteq> [] \<and> length ls \<le> k \<and> set ls \<subseteq> set ms \<and> concat (take k ms) = concat ls"
      using False 1(2) by (intro exI [of _ "take k ms"]) (auto dest: in_set_takeD)
    moreover have "set (drop k ms) \<subseteq> set ms" by (auto dest: in_set_dropD)
    ultimately show ?thesis using IH by (simp add: b) blast
  qed
qed

text \<open>
  Batching keeps every line, in order, in batches of at most the given number of lines, and makes no
  more batches than needed; a size that the options let through is always positive.
\<close>

theorem batches_keep_every_line:
  assumes "gen_parse atoi args default_options = Some o1"
  shows "0 < go_batch_size o1 \<and> 1000 \<le> go_rps o1 \<and> 0 < go_port_number o1 \<and> go_port_number o1 < 65536 \<and>
    (\<exists>bs. batch metrics (go_batch_size o1) = Some bs \<and> concat bs = concat metrics \<and>
       length bs = (length metrics + nat (go_batch_size o1) - 1) div nat (go_batch_size o1) \<and>
       (\<forall>b \<in> set bs. \<exists>ls. ls \<noteq> [] \<and> length ls \<le> nat (go_batch_size o1) \<and> set ls \<subseteq> set metrics \<and> b = concat ls))"
proof -
  have step: "0 < go_batch_size o3 \<and> 1000 \<le> go_rps o3 \<and> 0 < go_port_number o3 \<and> go_port_number o3 < 65536"
    if "gen_option atoi a o2 = Some o3" "0 < go_batch_size o2 \<and> 1000 \<le> go_rps o2 \<and> 0 < go_port_number o2 \<and> go_port_number o2 < 65536"
    for a o2 o3
    using that by (cases a) (auto split: if_splits option.splits)
  have "0 < go_batch_size o3 \<and> 1000 \<le> go_rps o3 \<and> 0 < go_port_number o3 \<and> go_port_number o3 < 65536"
    if "gen_parse atoi as o2 = Some o3" "0 < go_batch_size o2 \<and> 1000 \<le> go_rps o2 \<and> 0 < go_port_number o2 \<and> go_port_number o2 < 65536"
    for as o2 o3
    using that by (induction as arbitrary: o2) (auto dest: step split: option.splits)
  from this [OF assms] have o: "0 < go_batch_size o1 \<and> 1000 \<le> go_rps o1 \<and> 0 < go_port_number o1 \<and> go_port_number o1 < 65536"
    by (simp add: default_options_def)
  let ?k = "nat (go_batch_size o1)"
  have "\<exists>bs. batch metrics (go_batch_size o1) = Some bs \<and> concat bs = concat metrics \<and> length bs = (length metrics + ?k - 1) div ?k \<and>
       (\<forall>b \<in> set bs. \<exists>ls. ls \<noteq> [] \<and> length ls \<le> ?k \<and> set ls \<subseteq> set metrics \<and> b = concat ls)"
  proof (cases "go_batch_size o1 = 1")
    case True
    then show ?thesis by (auto simp: batch_def intro!: exI [of _ "[b]" for b])
  next
    case False
    then show ?thesis using o fill_batches_spec [of ?k metrics] by (simp add: batch_def)
  qed
  with o show ?thesis by blast
qed

theorem batches_keep_every_line_witness:
  "gen_parse (\<lambda>s. if s = ''2'' then Some 2 else None) [(CHR ''b'', ''2'')] default_options =
     Some (default_options\<lparr>go_batch_size := 2\<rparr>) \<and>
   (\<exists>bs. batch [''x'', ''y'', ''z''] 2 = Some bs \<and> concat bs = ''xyz'' \<and> length bs = 2)"
proof -
  let ?atoi = "\<lambda>s. if s = ''2'' then Some 2 else None"
  have p: "gen_parse ?atoi [(CHR ''b'', ''2'')] default_options = Some (default_options\<lparr>go_batch_size := 2\<rparr>)" by simp
  show ?thesis using batches_keep_every_line [OF p, of "[''x'', ''y'', ''z'']"] p by auto
qed

section \<open>What the daemon makes of the lines\<close>

definition gen_fields :: "string \<Rightarrow> nat \<Rightarrow> nat \<Rightarrow> (char \<times> nat option \<times> string \<times> (string \<times> string) list \<times> string) list" where
  \<comment> \<open>type, number after the type, name, tags and value text; the second line is in an older format, so that its type is
    \<open>1\<close> and its name \<open>C\<close>\<close>
  "gen_fields prefix n i = (let p = prefix @ show_nat n; foo = (''foo'', ''some-foo'') in
     [(CHR ''c'', None, ''spectatord_test.counter'', [(''id'', p), foo], ''42.0''),
      (CHR ''1'', None, ''C'', [], ''spectatord_test.monocounter,id='' @ p @ '',foo=some-foo,bar=some-bar:'' @ show_nat i),
      (CHR ''t'', None, ''spectatord_test.timer'', [(''id'', p), foo], ''0.5''),
      (CHR ''d'', None, ''spectatord_test.ds'', [(''id'', p), foo], ''42''),
      (CHR ''m'', None, ''spectatord_test.max'', [(''id'', p), foo], show_nat i),
      (CHR ''D'', None, ''spectatord_test.percDs'', [(''id'', p), (''tag1'', ''some-tag-string''), (''tag2'', ''some-value'')], show_nat (n mod 5)),
      (CHR ''T'', None, ''spectatord_test.percTimer'', [(''id'', p), (''invalid'', ''some-invalid-string'')], show_nat (n mod 5)),
      (CHR ''c'', None, ''spectatord_test.ctr'', [(''id'', p), (''nf.invalid'', ''some-invalid-string'')], show_nat (i mod 5)),
      (CHR ''c'', None, ''spectatord_test.ctr2'', [(''id'', p), (''foo'', ''bar''), (''bar'', ''baz'')], show_nat (i mod 5)),
      (CHR ''g'', Some 30, ''spectatord_test.gauge'', [(''id'', p), (''foo'', ''bar''), (''bar'', ''baz'')], show_nat (i mod 5))])"

definition gen_line_ok :: "char \<times> nat option \<times> string \<times> (string \<times> string) list \<times> string \<Rightarrow> bool" where
  "gen_line_ok f = (case f of (type, ex, name, tags, v) \<Rightarrow>
     name_ok name \<and> name \<noteq> [] \<and> tags_ok tags \<and> NUL \<notin> set v \<and> (case ex of None \<Rightarrow> True | Some e \<Rightarrow> 0 < e \<and> int e \<le> int64_max))"

lemma gen_lines_fields:
  "gen_lines prefix n i = map (\<lambda>(type, ex, name, tags, v). line_text type ex name tags v @ [CHR 0x0A]) (gen_fields prefix n i)"
proof -
  have "show_nat 30 = ''30''" by code_simp
  then show ?thesis by (simp add: gen_lines_def gen_fields_def line_text_def extra_text_def Let_def)
qed

lemma digits_not: "c \<in> set (show_nat n) \<Longrightarrow> isdigit c"
  using show_nat_digits [of n] by (auto simp: list_all_iff)

lemma show_nat_no: "NUL \<notin> set (show_nat n)" "CHR '','' \<notin> set (show_nat n)" "CHR '':'' \<notin> set (show_nat n)"
  "CHR 0x0A \<notin> set (show_nat n)"
proof -
  have "\<not> isdigit NUL" "\<not> isdigit (CHR '','')" "\<not> isdigit (CHR '':'')" "\<not> isdigit (CHR 0x0A)" by code_simp+
  then show "NUL \<notin> set (show_nat n)" "CHR '','' \<notin> set (show_nat n)" "CHR '':'' \<notin> set (show_nat n)"
    "CHR 0x0A \<notin> set (show_nat n)" using digits_not by blast+
qed

lemma gen_fields_ok: "name_ok prefix \<Longrightarrow> list_all gen_line_ok (gen_fields prefix n i)"
  by (simp add: gen_fields_def gen_line_ok_def name_ok_def tags_ok_def key_ok_def NUL_def show_nat_no [unfolded NUL_def]
      int64_max_def Let_def)

lemma no_number: "snd (convert_value (CHR ''1'') (''spectatord'' @ s)) = 0"
proof -
  have "tolower (CHR ''s'') = CHR ''s''" "\<not> isspace (CHR ''s'')" "\<not> isdigit (CHR ''s'')" by code_simp+
  then show ?thesis
    by (simp add: convert_value_def strtod_def skip_space_def sign_of_def strtod_abs_def has_prefix_def strtod_decimal_def mantissa_def)
qed

lemma starts_with_digit:
  assumes "isdigit c"
  shows "snd (strtod (c # r)) \<noteq> 0"
proof -
  note C = isdigit_facts [OF assms]
  have no: "\<not> has_prefix (x # t) (c # r)" if "x = CHR ''i'' \<or> x = CHR ''n''" for x t
    using that C by (auto simp: has_prefix_def)
  obtain i f k where m: "mantissa isdigit (c # r) = (i, f, k)" by (metis prod_cases3)
  then have i: "i = takeWhile isdigit (c # r)" "length i \<le> k"
    by (auto simp: mantissa_def Let_def split: list.splits if_splits)
  then have "i \<noteq> []" "0 < k" using assms by auto
  then have "\<exists>v k'. strtod_decimal False (c # r) = Some (v, k') \<and> 0 < k'"
    by (simp add: strtod_decimal_def m Let_def split_beta)
  then have "\<exists>v k'. strtod_abs False (c # r) = Some (v, k') \<and> 0 < k'"
    by (auto simp: strtod_abs_def no)
  then show ?thesis using C by (auto simp: strtod_def skip_space_def sign_of_def)
qed

lemma numbers:
  assumes "type \<noteq> CHR ''U''"
  shows "0 < snd (convert_value type (show_nat k))" "0 < snd (convert_value type ''42.0'')"
    "0 < snd (convert_value type ''0.5'')" "0 < snd (convert_value type ''42'')"
proof -
  have "isdigit (CHR ''4'')" "isdigit (CHR ''0'')" by code_simp+
  moreover obtain d ds where "show_nat k = d # ds" "isdigit d"
    using show_nat_digits [of k] by (cases "show_nat k") auto
  ultimately show "0 < snd (convert_value type (show_nat k))" "0 < snd (convert_value type ''42.0'')"
    "0 < snd (convert_value type ''0.5'')" "0 < snd (convert_value type ''42'')"
    using assms starts_with_digit by (simp_all add: convert_value_def split_beta Let_def)
qed

lemma gen_line_parses:
  assumes "gen_line_ok (type, ex, name, tags, v)"
  shows "parse_line A now steady (line_text type ex name tags v @ NUL # r) S =
    (if snd (convert_value type v) = 0 then Some (S, Some Unable_to_parse_value)
     else apply_measurement A now steady type (case ex of None \<Rightarrow> 0 | Some e \<Rightarrow> int e)
       (id_of name (intern_tags tags)) (fst (convert_value type v)) S)"
  by (rule parse_line_text) (use assms in \<open>simp_all add: gen_line_ok_def split: option.split\<close>)

lemma gen_numbers:
  "list_all (\<lambda>(type, ex, name, tags, v). (snd (convert_value type v) = 0) = (type = CHR ''1'')) (gen_fields prefix n i)"
  using no_number [of "''_test.monocounter,id='' @ prefix @ show_nat n @ '',foo=some-foo,bar=some-bar:'' @ show_nat i"]
  by (simp add: gen_fields_def numbers Let_def)

text \<open>
  Of the ten kinds of lines the generator makes, the daemon accepts nine, each with exactly the fields it was
  printed from; the tenth, the monotonic counter, is still in the format with a leading \<open>1:\<close> and is rejected,
  whatever the prefix, the counters and the state of the server. So a load test measures one error in ten lines.
\<close>

theorem one_generated_line_in_ten_is_rejected:
  assumes "name_ok prefix"
  shows "length (gen_lines prefix n i) = 10 \<and>
    (\<forall>k < 10. case gen_fields prefix n i ! k of (type, ex, name, tags, v) \<Rightarrow>
       gen_lines prefix n i ! k = line_text type ex name tags v @ [CHR 0x0A] \<and>
       parse_line A now steady (line_text type ex name tags v @ NUL # r) S =
         (if k = 1 then Some (S, Some Unable_to_parse_value)
          else apply_measurement A now steady type (case ex of None \<Rightarrow> 0 | Some e \<Rightarrow> int e)
            (id_of name (intern_tags tags)) (fst (convert_value type v)) S))"
proof -
  have len: "length (gen_fields prefix n i) = 10" by (simp add: gen_fields_def Let_def)
  have types: "map fst (gen_fields prefix n i) = ''c1tdmDTccg''" by (simp add: gen_fields_def Let_def)
  have "case gen_fields prefix n i ! k of (type, ex, name, tags, v) \<Rightarrow>
       gen_lines prefix n i ! k = line_text type ex name tags v @ [CHR 0x0A] \<and>
       parse_line A now steady (line_text type ex name tags v @ NUL # r) S =
         (if k = 1 then Some (S, Some Unable_to_parse_value)
          else apply_measurement A now steady type (case ex of None \<Rightarrow> 0 | Some e \<Rightarrow> int e)
            (id_of name (intern_tags tags)) (fst (convert_value type v)) S)" if "k < 10" for k
  proof -
    obtain type ex name tags v where f: "gen_fields prefix n i ! k = (type, ex, name, tags, v)" by (metis prod_cases5)
    have "gen_line_ok (gen_fields prefix n i ! k)"
      using gen_fields_ok [OF assms, of n i] that len by (simp add: list_all_length)
    moreover have "(snd (convert_value type v) = 0) = (type = CHR ''1'')"
      using gen_numbers [of prefix n i] that len f by (auto simp: list_all_length)
    moreover have "type = ''c1tdmDTccg'' ! k" using that len f types by (metis fst_conv nth_map)
    then have "(type = CHR ''1'') = (k = 1)"
      using that by (auto simp: less_Suc_eq numeral_eq_Suc)
    moreover have "gen_lines prefix n i ! k = line_text type ex name tags v @ [CHR 0x0A]"
      using that len f by (simp add: gen_lines_fields)
    ultimately show ?thesis using gen_line_parses [of type ex name tags v A now steady r S] f by simp
  qed
  then show ?thesis using len by (simp add: gen_lines_fields)
qed

theorem one_generated_line_in_ten_is_rejected_witness:
  "gen_lines ''id'' 3 7 ! 1 = ''1:C:spectatord_test.monocounter,id=id3,foo=some-foo,bar=some-bar:7'' @ [CHR 0x0A] \<and>
   parse_line ns_durations 5 5 (''1:C:spectatord_test.monocounter,id=id3,foo=some-foo,bar=some-bar:7'' @ NUL # ''x'') sample_server =
     Some (sample_server, Some Unable_to_parse_value)"
proof -
  have "name_ok ''id''" by (simp add: name_ok_def NUL_def)
  from one_generated_line_in_ten_is_rejected [OF this, of 3 7 ns_durations 5 5 "''x''" sample_server]
  have "case gen_fields ''id'' 3 7 ! 1 of (type, ex, name, tags, v) \<Rightarrow>
       gen_lines ''id'' 3 7 ! 1 = line_text type ex name tags v @ [CHR 0x0A] \<and>
       parse_line ns_durations 5 5 (line_text type ex name tags v @ NUL # ''x'') sample_server =
         Some (sample_server, Some Unable_to_parse_value)"
    by (auto dest!: spec [of _ 1])
  moreover have "show_nat 3 = ''3''" "show_nat 7 = ''7''" by code_simp+
  ultimately show ?thesis by (simp add: gen_fields_def line_text_def extra_text_def Let_def)
qed

lemma old_line_rejected:
  assumes "name_ok [c]" "NUL \<notin> set x"
  shows "parse_line A now steady ((CHR ''1'' # CHR '':'' # c # CHR '':'' # ''spectatord'' @ x) @ NUL # r) S =
    Some (S, Some Unable_to_parse_value)"
proof -
  have "gen_line_ok (CHR ''1'', None, [c], [], ''spectatord'' @ x)"
    using assms by (simp add: gen_line_ok_def tags_ok_def NUL_def)
  from gen_line_parses [OF this] have "parse_line A now steady (line_text (CHR ''1'') None [c] [] (''spectatord'' @ x) @ NUL # r) S =
    Some (S, Some Unable_to_parse_value)" by (simp only: no_number if_P)
  moreover have "line_text (CHR ''1'') None [c] [] (''spectatord'' @ x) = CHR ''1'' # CHR '':'' # c # CHR '':'' # ''spectatord'' @ x"
    by (simp add: line_text_def extra_text_def tags_text_def)
  ultimately show ?thesis by simp
qed

text \<open>
  What the parser benchmark measures is the rejection of lines: all 500 of its lines are in the old format with a
  leading \<open>1:\<close>, and the daemon rejects each of them, with the same error, and without any effect.
\<close>

theorem the_parser_benchmark_measures_errors:
  "length bench_measurements = 500 \<and>
   (\<forall>s \<in> set bench_measurements. \<exists>l. s = l @ [CHR 0x0A] \<and> parse_line A now steady (l @ NUL # r) S = Some (S, Some Unable_to_parse_value))"
proof -
  have "length (concat (map (\<lambda>i. [a i, b i, c i, d i, e i]) [0..<n])) = 5 * n" for a b c d e :: "nat \<Rightarrow> string" and n
    by (induction n) simp_all
  then have "length bench_measurements = 500" by (simp add: bench_measurements_def Let_def)
  moreover have "\<exists>l. s = l @ [CHR 0x0A] \<and> parse_line A now steady (l @ NUL # r) S = Some (S, Some Unable_to_parse_value)"
    if s: "s \<in> set bench_measurements" for s
  proof -
    let ?line = "\<lambda>c x. (CHR ''1'' # CHR '':'' # c # CHR '':'' # ''spectatord'' @ x) @ [CHR 0x0A]"
    obtain i where i: "s \<in> set [?line (CHR ''c'') (''_test.counter'' @ show_nat i @ '':42.0''),
        ?line (CHR ''t'') (''_test.timer,id='' @ show_nat i @ '',foo=some-foo:0.5''),
        ?line (CHR ''d'') (''_test.ds,id='' @ show_nat i @ '',foo=some-foo:42''),
        ?line (CHR ''m'') (''_test.max,id='' @ show_nat i @ '',foo=some-foo:'' @ show_nat i),
        ?line (CHR ''T'') (''_test.percTimer,id='' @ show_nat i @ '',tag=bar:'' @ show_nat (i mod 10))]"
      using s unfolding bench_measurements_def Let_def by (auto simp only: set_concat set_map UN_iff append_assoc append_Cons append_Nil)
    define P where "P u \<longleftrightarrow> (\<exists>c x. u = ?line c x \<and> c \<in> set ''ctdmT'' \<and> NUL \<notin> set x)" for u
    have P: "P (?line c x)" if "c \<in> set ''ctdmT''" "NUL \<notin> set x" for c x using that unfolding P_def by blast
    have "list_all P [?line (CHR ''c'') (''_test.counter'' @ show_nat i @ '':42.0''),
        ?line (CHR ''t'') (''_test.timer,id='' @ show_nat i @ '',foo=some-foo:0.5''),
        ?line (CHR ''d'') (''_test.ds,id='' @ show_nat i @ '',foo=some-foo:42''),
        ?line (CHR ''m'') (''_test.max,id='' @ show_nat i @ '',foo=some-foo:'' @ show_nat i),
        ?line (CHR ''T'') (''_test.percTimer,id='' @ show_nat i @ '',tag=bar:'' @ show_nat (i mod 10))]"
      by (simp only: list.pred_inject simp_thms, intro conjI; rule P; simp add: show_nat_no [unfolded NUL_def] NUL_def)
    then have "P s" using i unfolding list_all_iff by (rule bspec)
    then obtain c x where cx: "s = ?line c x" "c \<in> set ''ctdmT''" "NUL \<notin> set x" unfolding P_def by (elim exE conjE)
    have "name_ok [c]" using cx(2) by (auto simp: name_ok_def NUL_def)
    from cx(1) old_line_rejected [OF this cx(3)] show ?thesis by (rule_tac exI, rule_tac conjI)
  qed
  ultimately show ?thesis by blast
qed

end
