(* ===== verification/HttpServer.thy ===== *)
theory HttpServer
  imports CLib
begin

text \<open>
  The HTTP server that the tests of the client run against (\<open>spectator/http_server.cc\<close>). A connection is the list
  of the bytes that are still to be received from it. The server reads every line of a request into one buffer, which
  keeps what earlier lines left behind its terminator; what an uninitialised buffer holds is an argument. A read or write
  outside an array and an exception that leaves the thread are errors.
\<close>

section \<open>State\<close>

type_synonym headers = "(string \<times> string) list"
  \<comment> \<open>\<open>std::map<string, string>\<close>: sorted by name\<close>

record request =
  rq_method :: string
  rq_path :: string
  rq_headers :: headers
  rq_size :: nat
  rq_body :: string

record http_server =
  hs_requests :: "request list"
  hs_path_response :: "string \<rightharpoonup> string"

datatype http_error = Out_of_bounds | Uncaught_exception

definition LF :: char where
  "LF = CHR 0x0A"

definition CR :: char where
  "CR = CHR 0x0D"

definition text_lines :: "string list \<Rightarrow> string" where
  "text_lines ls = concat (map (\<lambda>l. l @ [LF]) ls)"

definition response_head :: "string \<Rightarrow> string list" where
  "response_head status = [status, ''Content-Type: text/plain'', ''Accept-Ranges: none'',
     ''Last-Modified: Tue, 10 Sep 2019 18:22:20 GMT'']"

definition date_close :: "string list" where
  "date_close = [''Date: Tue, 10 Sep 2019 18:23:27 GMT'', ''Connection: close'']"

definition get_response :: string where
  "get_response = text_lines (response_head ''HTTP/1.1 200 OK'' @ ''Content-Length: 22'' # date_close @ [[]]) @
     ''InsightInstanceProfile''"

definition busy_response :: string where
  "busy_response = text_lines (response_head ''HTTP/1.1 503 OK'' @ ''Content-Length: 4'' # date_close @ [[]]) @ ''Busy''"

definition hdr_response :: string where
  "hdr_response = (let hdr_body = ''header body: ok'' @ [LF] in
     text_lines [''HTTP/1.0 200 OK'', ''Content-Length: '' @ show_nat (length hdr_body), ''X-Test: some server'',
       ''X-NoContent:'', []] @ hdr_body)"

definition new_http_server :: http_server where
  "new_http_server = \<lparr>hs_requests = [], hs_path_response = [
     ''/foo'' \<mapsto> text_lines [''HTTP/1.0 200 OK'', ''Content-Length: 3'', ''X-Test: foo'', [], ''OK''],
     ''/hdr'' \<mapsto> hdr_response,
     ''/get503'' \<mapsto> busy_response,
     ''/get'' \<mapsto> get_response,
     ''/getheader'' \<mapsto> text_lines (response_head ''HTTP/1.1 200 OK'' @ date_close)]\<rparr>"

fun map_put :: "string \<Rightarrow> string \<Rightarrow> headers \<Rightarrow> headers" where
  \<comment> \<open>\<open>headers[name] = value\<close>\<close>
  "map_put k v [] = [(k, v)]"
| "map_put k v ((k', v') # hs) = (if k = k' then (k, v) # hs else if k < k' then (k, v) # (k', v') # hs
     else (k', v') # map_put k v hs)"

definition get_header :: "string \<Rightarrow> request \<Rightarrow> string" where
  "get_header name r = (case map_of (rq_headers r) (map tolower name) of None \<Rightarrow> [] | Some v \<Rightarrow> v)"

section \<open>Reading a request\<close>

fun get_chars :: "nat \<Rightarrow> string \<Rightarrow> string \<times> string" where
  \<comment> \<open>the loop of \<open>get_line\<close>, with room for so many characters: what goes into the buffer, and the rest of the
     connection; at its end, \<open>recv\<close> returns nothing\<close>
  "get_chars 0 client = ([], client)"
| "get_chars (Suc k) [] = ([], [])"
| "get_chars (Suc k) (c # client) =
     (let (c1, client1) = (if c = CR then (case client of d # r \<Rightarrow> if d = LF then (LF, r) else (LF, client) | [] \<Rightarrow> (LF, client))
                           else (c, client))
      in if c1 = LF then ([LF], client1) else (let (s, r) = get_chars k client1 in (c1 # s, r)))"

definition get_line :: "string \<Rightarrow> cmem \<Rightarrow> cmem \<times> string" where
  "get_line client buf =
     (let (s, client1) = get_chars (length buf - 1) client in (s @ NUL # drop (Suc (length s)) buf, client1))"

fun skip_blanks :: "cmem \<Rightarrow> cmem option" where
  \<comment> \<open>\<open>while (isspace(buf[j]) && j < sizeof buf) ++j\<close>, on the buffer from \<open>j\<close> on; the test reads before it checks
     the bound\<close>
  "skip_blanks [] = None"
| "skip_blanks (c # m) = (if isspace c then skip_blanks m else Some (c # m))"

fun path_chars :: "nat \<Rightarrow> cmem \<Rightarrow> string option" where
  "path_chars k [] = None"
| "path_chars k (c # m) = (if isspace c \<or> k = 0 then Some [] else map_option ((#) c) (path_chars (k - 1) m))"

definition request_line :: "cmem \<Rightarrow> (string \<times> string) option" where
  \<comment> \<open>the arrays \<open>method\<close> of 256 and \<open>path\<close> of 1024 characters, read as strings\<close>
  "request_line buf =
     (let method = takeWhile (\<lambda>c. \<not> isspace c) (take 255 buf)
      in Option.bind (skip_blanks (drop (length method) buf)) (\<lambda>m.
         map_option (\<lambda>path. (cstr method, cstr path)) (path_chars 1023 m)))"

definition header_line :: "cmem \<Rightarrow> ((string \<times> string) \<times> cmem) option" where
  \<comment> \<open>one header in the buffer: its name, its value, the buffer after both are cut off\<close>
  "header_line buf =
     (let size = length buf;
          i = length (takeWhile (\<lambda>c. c \<noteq> CHR '':'') (take (size - 1) buf));
          buf1 = (map tolower (take i buf) @ drop i buf)[i := NUL];
          header_name = cstr buf1
      in Option.bind (skip_blanks (drop (Suc i) buf1)) (\<lambda>m.
         let j = size - length m;
             k = j + length (takeWhile (\<lambda>c. c \<noteq> LF) (take (size - 1 - j) m));
             buf2 = buf1[k := NUL]
         in Some ((header_name, cstr (drop j buf2)), buf2)))"

lemma get_chars_length: "get_chars k client = (s, r) \<Longrightarrow> length s + length r \<le> length client"
  by (induction k client arbitrary: s r rule: get_chars.induct)
    (fastforce simp: split_beta Let_def split: if_splits list.splits)+

lemma get_line_form:
  "get_line client buf = (buf1, client1) \<Longrightarrow>
   \<exists>s. get_chars (length buf - 1) client = (s, client1) \<and> buf1 = s @ NUL # drop (Suc (length s)) buf"
  by (cases "get_chars (length buf - 1) client") (simp add: get_line_def)

function do_headers :: "string \<Rightarrow> cmem \<Rightarrow> headers \<Rightarrow> (headers \<times> string \<times> cmem) option" where
  \<comment> \<open>the endless loop over the headers; a line of at most one character ends it\<close>
  "do_headers client buf headers =
     (let (buf1, client1) = get_line client buf
      in if length (cstr buf1) \<le> 1 then Some (headers, client1, buf1)
         else (case header_line buf1 of None \<Rightarrow> None
               | Some ((name, v), buf2) \<Rightarrow> do_headers client1 buf2 (map_put name v headers)))"
  by pat_completeness auto
termination
proof (relation "measure (\<lambda>(client, buf, headers). length client)", goal_cases)
  case (2 client buf headers x buf1 client1)
  obtain s where s: "get_chars (length buf - 1) client = (s, client1)" "buf1 = s @ NUL # drop (Suc (length s)) buf"
    using 2(1,2) get_line_form by metis
  have "length (cstr (s @ NUL # m)) \<le> length s" for m by (induction s) (auto simp: cstr_Cons)
  then have "s \<noteq> []" using 2(3) s(2) by (metis One_nat_def le_trans length_0_conv zero_le)
  then show ?case using get_chars_length [OF s(1)] by (cases s) auto
qed auto

declare do_headers.simps [simp del]

definition stoi :: "string \<Rightarrow> int option" where
  \<comment> \<open>\<open>None\<close>: \<open>invalid_argument\<close> or \<open>out_of_range\<close> is thrown\<close>
  "stoi s = (let (v, n) = strtoll (s @ [NUL]) in if n = 0 \<or> v < - (2 ^ 31) \<or> 2 ^ 31 \<le> v then None else Some v)"

definition content_length :: "headers \<Rightarrow> headers \<times> int option" where
  \<comment> \<open>\<open>headers["content-length"]\<close> makes an empty entry when there is none\<close>
  "content_length headers = (case map_of headers ''content-length'' of
     None \<Rightarrow> (map_put ''content-length'' [] headers, Some 0)
   | Some len \<Rightarrow> (headers, if len = [] then Some 0 else stoi len))"

definition read_request :: "cmem \<Rightarrow> string \<Rightarrow> http_error + request \<times> string" where
  \<comment> \<open>\<open>accept_request\<close> up to the request it records, with what the buffer holds at first; the body is filled as far as
     the connection goes\<close>
  "read_request garbage client =
     (let (buf, client1) = get_line client garbage in
      case request_line buf of None \<Rightarrow> Inl Out_of_bounds
      | Some (method, path) \<Rightarrow>
        (case do_headers client1 buf [] of None \<Rightarrow> Inl Out_of_bounds
         | Some (headers0, client2, buf2) \<Rightarrow>
           (case content_length headers0 of
              (headers, None) \<Rightarrow> Inl Uncaught_exception
            | (headers, Some content_len) \<Rightarrow>
                if content_len < - 1 then Inl Uncaught_exception
                else if content_len = - 1 then Inl Out_of_bounds
                else (let n = nat content_len
                      in Inr (\<lparr>rq_method = method, rq_path = path, rq_headers = headers, rq_size = n,
                               rq_body = take n client2\<rparr>, drop n client2)))))"

section \<open>Answering\<close>

definition echoed :: "headers \<Rightarrow> string" where
  "echoed headers = concat (map (\<lambda>(name, v).
     if 2 < length name \<and> name ! 0 = CHR ''x'' \<and> name ! 1 = CHR ''-'' then name @ '': '' @ v @ [LF] else []) headers)"

definition reply_to :: "request \<Rightarrow> string \<Rightarrow> string" where
  \<comment> \<open>\<open>/getheader\<close> echoes the headers that start with \<open>X-\<close>\<close>
  "reply_to r response =
     (if rq_path r \<noteq> ''/getheader'' then response
      else (let resp = echoed (rq_headers r)
            in response @ ''Content-length: '' @ show_nat (length resp) @ [LF, LF] @ resp))"

definition answer :: "request \<Rightarrow> http_server \<Rightarrow> string \<times> http_server" where
  \<comment> \<open>the rest of \<open>accept_request\<close>: what is written, without the terminating NUL; an unknown path gets an empty
     response of its own\<close>
  "answer r s =
     (let s1 = s\<lparr>hs_requests := hs_requests s @ [r]\<rparr>;
          path = rq_path r;
          s2 = (if hs_path_response s1 path = None
                then s1\<lparr>hs_path_response := (hs_path_response s1)(path \<mapsto> [])\<rparr> else s1);
          response = the (hs_path_response s2 path);
          out = reply_to r response;
          s3 = (if path = ''/get503''
                then s2\<lparr>hs_path_response := (hs_path_response s2)(''/get503'' \<mapsto>
                       (case hs_path_response s2 ''/get'' of None \<Rightarrow> [] | Some g \<Rightarrow> g))\<rparr> else s2)
      in (out, s3))"

definition accept_request :: "cmem \<Rightarrow> string \<Rightarrow> http_server \<Rightarrow> http_error + string \<times> http_server" where
  "accept_request garbage client s = (case read_request garbage client of
     Inl e \<Rightarrow> Inl e
   | Inr (r, _) \<Rightarrow> (let (out, s1) = answer r s in Inr (out @ [NUL], s1)))"

fun do_write :: "int list \<Rightarrow> string \<Rightarrow> int \<Rightarrow> int \<Rightarrow> string \<Rightarrow> string \<times> int \<times> int" where
  \<comment> \<open>the results of \<open>write\<close> so far: what has been written, the position of the pointer, what is left; it ends when
     nothing is left\<close>
  "do_write [] resp pos left out = (out, pos, left)"
| "do_write (written # ws) resp pos left out =
     (if left \<le> 0 then (out, pos, left)
      else do_write ws resp (pos + written) (left - written) (out @ take (nat written) (drop (nat pos) resp)))"

record accept_state =
  as_server :: http_server
  as_slept :: nat
  as_written :: "string list"
  as_done :: bool

definition accept_turn :: "bool \<Rightarrow> nat \<Rightarrow> bool \<Rightarrow> (cmem \<times> string) option \<Rightarrow> accept_state \<Rightarrow> http_error + accept_state" where
  \<comment> \<open>one turn of \<open>accept_loop\<close>: whether there is a time to sleep before accepting, how often at most, \<open>is_done\<close>,
     and the connection that \<open>select\<close> and \<open>accept\<close> give within ten milliseconds, if any\<close>
  "accept_turn sleeps sleep_number is_done conn a =
     (if as_done a then Inr a
      else if is_done then Inr (a\<lparr>as_done := True\<rparr>)
      else (let a1 = (if sleeps \<and> as_slept a < sleep_number then a\<lparr>as_slept := Suc (as_slept a)\<rparr> else a)
            in case conn of None \<Rightarrow> Inr a1
               | Some (garbage, client) \<Rightarrow>
                   (case accept_request garbage client (as_server a1) of Inl e \<Rightarrow> Inl e
                    | Inr (out, s) \<Rightarrow> Inr (a1\<lparr>as_server := s, as_written := as_written a1 @ [out]\<rparr>))))"

section \<open>Requests are recorded as they were sent\<close>

definition request_text :: "string \<Rightarrow> string \<Rightarrow> (string \<times> string) list \<Rightarrow> string \<Rightarrow> string" where
  \<comment> \<open>what a client sends\<close>
  "request_text method path hs body = method @ '' '' @ path @ '' HTTP/1.1'' @ [CR, LF] @
     concat (map (\<lambda>(k, v). k @ '': '' @ v @ [CR, LF]) hs) @ [CR, LF] @ body"

definition plain :: "string \<Rightarrow> bool" where
  "plain s \<longleftrightarrow> list_all (\<lambda>c. c \<noteq> NUL \<and> c \<noteq> CR \<and> c \<noteq> LF) s"

definition token_ok :: "nat \<Rightarrow> string \<Rightarrow> bool" where
  "token_ok n s \<longleftrightarrow> s \<noteq> [] \<and> length s \<le> n \<and> list_all (\<lambda>c. \<not> isspace c \<and> c \<noteq> NUL) s"

definition header_ok :: "nat \<Rightarrow> string \<times> string \<Rightarrow> bool" where
  \<comment> \<open>a header that fits into a buffer of the size\<close>
  "header_ok sz kv = (case kv of (k, v) \<Rightarrow> plain k \<and> CHR '':'' \<notin> set k \<and> plain v \<and> (v \<noteq> [] \<longrightarrow> \<not> isspace (hd v)) \<and>
     length k + length v + 4 \<le> sz)"

definition last_value :: "(string \<times> string) list \<Rightarrow> string \<Rightarrow> string option" where
  \<comment> \<open>the value of the last header with the name, up to case\<close>
  "last_value hs name = map_of (rev (map (\<lambda>(k, v). (map tolower k, v)) hs)) (map tolower name)"

lemma newline_chars: "isspace CR" "isspace LF" "isspace (CHR '' '')" "CR \<noteq> LF" "LF \<noteq> NUL" "CR \<noteq> NUL"
  by (simp_all add: isspace_def CR_def LF_def NUL_def code_def)

lemma token_plain: "token_ok n s \<Longrightarrow> plain s"
  using newline_chars by (auto simp: token_ok_def plain_def list_all_iff)

lemma get_chars_line: "plain l \<Longrightarrow> length l < k \<Longrightarrow> get_chars k (l @ CR # LF # r) = (l @ [LF], r)"
proof (induction l arbitrary: k)
  case Nil
  then show ?case by (cases k) (auto simp: newline_chars Let_def)
next
  case (Cons c l)
  then obtain k' where "k = Suc k'" by (cases k) auto
  with Cons show ?case by (simp add: plain_def)
qed

lemma get_line_line:
  "plain l \<Longrightarrow> length l + 2 \<le> length buf \<Longrightarrow>
   get_line (l @ CR # LF # r) buf = (l @ LF # NUL # drop (length l + 2) buf, r)"
  by (simp add: get_line_def get_chars_line)

lemma path_chars_token:
  "list_all (\<lambda>c. \<not> isspace c) s \<Longrightarrow> length s \<le> k \<Longrightarrow> isspace b \<Longrightarrow> path_chars k (s @ b # m) = Some s"
  by (induction s arbitrary: k) (auto simp: list_all_iff)

lemma plain_cstr: "plain s \<Longrightarrow> NUL \<notin> set s"
  by (auto simp: plain_def list_all_iff)

lemma cstr_plain: "plain s \<Longrightarrow> cstr s = s"
  using plain_cstr by (auto simp: cstr_def takeWhile_eq_all_conv)

lemma request_line_read:
  assumes "token_ok 255 method" "token_ok 1023 path"
  shows "request_line (method @ CHR '' '' # path @ CHR '' '' # m) = Some (method, path)"
proof -
  have nb: "list_all (\<lambda>c. \<not> isspace c) method" "list_all (\<lambda>c. \<not> isspace c) path" "length method \<le> 255" "length path \<le> 1023"
    using assms by (auto simp: token_ok_def list_all_iff)
  obtain x xs where path: "path = x # xs" "\<not> isspace x" using assms(2) by (cases path) (auto simp: token_ok_def)
  have "takeWhile (\<lambda>c. \<not> isspace c) (take 255 (method @ CHR '' '' # path @ CHR '' '' # m)) = method"
    using nb(1,3) newline_chars(3) by (cases "255 - length method") (auto simp: takeWhile_append list_all_iff)
  then show ?thesis
    using nb(2,4) path path_chars_token [of path 1023 "CHR '' ''" m] newline_chars(3)
      cstr_plain [OF token_plain [OF assms(1)]] cstr_plain [OF token_plain [OF assms(2)]]
    by (simp add: request_line_def)
qed

lemma tolower_NUL: "(NUL = tolower c) = (c = NUL)"
proof -
  have "code (char_of (code c + 32)) = code c + 32" if "code c \<le> 90" using that by (simp add: code_def)
  then show ?thesis by (auto simp: tolower_def dest!: arg_cong [of _ _ code])
qed

lemma header_line_read:
  assumes "header_ok (length buf) (k, v)" "buf = k @ CHR '':'' # CHR '' '' # v @ LF # NUL # m"
  shows "\<exists>buf2. header_line buf = Some ((map tolower k, v), buf2) \<and> length buf2 = length buf"
proof -
  have k: "plain k" "CHR '':'' \<notin> set k" and v: "plain v" "v \<noteq> [] \<longrightarrow> \<not> isspace (hd v)"
    using assms(1) by (auto simp: header_ok_def)
  let ?i = "length k"
  have i: "length (takeWhile (\<lambda>c. c \<noteq> CHR '':'') (take (length buf - 1) buf)) = ?i"
  proof -
    have "take (length buf - 1) buf = k @ CHR '':'' # butlast (CHR '' '' # v @ LF # NUL # m)"
      by (simp only: butlast_conv_take [symmetric]) (simp add: assms(2) butlast_append)
    moreover have "takeWhile (\<lambda>c. c \<noteq> CHR '':'') k = k" using k(2) by (auto simp: takeWhile_eq_all_conv)
    ultimately show ?thesis by (simp add: takeWhile_stop)
  qed
  define buf1 where "buf1 = map tolower k @ NUL # CHR '' '' # v @ LF # NUL # m"
  have b1: "(map tolower (take ?i buf) @ drop ?i buf)[?i := NUL] = buf1" by (simp add: assms(2) buf1_def list_update_append)
  have name: "cstr buf1 = map tolower k" 
  proof -
    have "NUL \<notin> set (map tolower k)" using plain_cstr [OF k(1)] by (auto simp: tolower_NUL)
    then show ?thesis by (simp add: buf1_def del: set_map)
  qed
  have len: "length buf1 = length buf" by (simp add: buf1_def assms(2))
  obtain m' where m': "skip_blanks (drop (Suc ?i) buf1) = Some m'" "m' = (if v = [] then NUL # m else v @ LF # NUL # m)"
    using v(2) newline_chars by (cases v) (auto simp: buf1_def)
  let ?j = "length buf1 - length m'"
  have j: "drop ?j buf1 = m'" "?j < length buf1" using m'(2) by (auto simp: buf1_def)
  let ?k = "?j + length (takeWhile (\<lambda>c. c \<noteq> LF) (take (length buf1 - 1 - ?j) m'))"
  have "cstr (drop ?j (buf1[?k := NUL])) = v"
  proof (cases "v = []")
    case True
    have "drop ?j (buf1[?k := NUL]) = m'[?k - ?j := NUL]" using j by (simp add: drop_update_swap)
    also have "cstr \<dots> = []" using m'(2) True by (cases "?k - ?j") (simp_all add: cstr_Cons)
    finally show ?thesis using True by simp
  next
    case False
    then have "takeWhile (\<lambda>c. c \<noteq> LF) (take (length buf1 - 1 - ?j) m') = v"
      using m'(2) v(1) by (auto simp: buf1_def takeWhile_append plain_def list_all_iff)
    then have "drop ?j (buf1[?k := NUL]) = v @ NUL # NUL # m" using j m'(2) False by (simp add: drop_update_swap list_update_append)
    then show ?thesis using plain_cstr [OF v(1)] by simp
  qed
  then show ?thesis using m'(1) unfolding header_line_def Let_def i b1 by (simp add: name len)
qed


lemma do_headers_read:
  assumes "list_all (header_ok (length buf)) hs" "2 \<le> length buf"
  shows "\<exists>buf2. do_headers (concat (map (\<lambda>(k, v). k @ '': '' @ v @ [CR, LF]) hs) @ CR # LF # r) buf h =
    Some (fold (\<lambda>(k, v). map_put (map tolower k) v) hs h, r, buf2)"
  using assms
proof (induction hs arbitrary: buf h)
  case Nil
  have "get_line (CR # LF # r) buf = (LF # NUL # drop (Suc (Suc 0)) buf, r)"
    using get_line_line [of "[]" buf r] Nil by (simp add: plain_def)
  then show ?case by (subst do_headers.simps) (simp add: cstr_Cons newline_chars)
next
  case (Cons kv hs)
  obtain k v where kv: "kv = (k, v)" by fastforce
  let ?rest = "concat (map (\<lambda>(k, v). k @ '': '' @ v @ [CR, LF]) hs) @ CR # LF # r"
  have ok: "header_ok (length buf) (k, v)" using Cons.prems(1) by (simp add: kv)
  define l where "l = k @ '': '' @ v"
  have l: "plain l" "length l + 2 \<le> length buf"
    using ok newline_chars by (auto simp: l_def header_ok_def plain_def CR_def LF_def NUL_def)
  define buf1 where "buf1 = l @ LF # NUL # drop (length l + 2) buf"
  have g: "get_line (l @ CR # LF # ?rest) buf = (buf1, ?rest)" using get_line_line [OF l] by (simp add: buf1_def)
  have len: "length buf1 = length buf" using l(2) by (simp add: buf1_def)
  have c: "cstr buf1 = l @ [LF]" using plain_cstr [OF l(1)] newline_chars cstr_append_nul [of "l @ [LF]"] by (simp add: buf1_def)
  have ok1: "header_ok (length buf1) (k, v)" by (simp only: len ok)
  have form: "buf1 = k @ CHR '':'' # CHR '' '' # v @ LF # NUL # drop (length l + 2) buf" by (simp add: buf1_def l_def)
  obtain buf2 where h: "header_line buf1 = Some ((map tolower k, v), buf2)" "length buf2 = length buf"
    using header_line_read [OF ok1 form] len by auto
  have "\<exists>b. do_headers ?rest buf2 (map_put (map tolower k) v h) =
      Some (fold (\<lambda>(k, v). map_put (map tolower k) v) hs (map_put (map tolower k) v h), r, b)"
    using Cons.IH [of buf2] Cons.prems h(2) by (simp add: kv)
  moreover have "do_headers (l @ CR # LF # ?rest) buf h = do_headers ?rest buf2 (map_put (map tolower k) v h)"
  proof -
    have "2 \<le> length l" by (simp add: l_def)
    then have "\<not> length (l @ [LF]) \<le> 1" by (cases l) simp_all
    then show ?thesis by (subst do_headers.simps) (simp only: g Let_def prod.case c h(1) option.case if_False)
  qed
  ultimately show ?case by (simp add: kv l_def)
qed

lemma map_of_map_put: "map_of (map_put k v hs) = (map_of hs)(k \<mapsto> v)"
  by (induction k v hs rule: map_put.induct) auto

lemma map_of_fold_put:
  "map_of (fold (\<lambda>(k, v). map_put (map tolower k) v) hs h) name =
    (case map_of (rev (map (\<lambda>(k, v). (map tolower k, v)) hs)) name of None \<Rightarrow> map_of h name | Some v \<Rightarrow> Some v)"
  by (induction hs arbitrary: h) (auto simp: map_of_map_put map_add_def split: option.split)

lemma stoi_show_nat: "int n < 2 ^ 31 \<Longrightarrow> stoi (show_nat n) = Some (int n)"
proof -
  assume n: "int n < 2 ^ 31"
  note d = show_nat_digits [of n]
  obtain c cs where c: "show_nat n = c # cs" "isdigit c" using d by (cases "show_nat n") auto
  have tw: "takeWhile isdigit (show_nat n) = show_nat n" using d by (auto simp: takeWhile_eq_all_conv list_all_iff)
  have sk: "skip_space (show_nat n) = 0" and sg: "sign_of (show_nat n) = (False, 0)"
    using c isdigit_facts [OF c(2)] by (auto simp: skip_space_def sign_of_def)
  have "strto_digits (show_nat n) = (False, show_nat n, length (show_nat n))"
    unfolding strto_digits_def sk Let_def drop_0 sg prod.case add_0 tw using d by simp
  then have "strtoll (show_nat n @ [NUL]) = (int n, length (show_nat n))"
    unfolding strtoll_stop(1) using d n by (simp add: strtoll_def int64_min_def int64_max_def)
  then show ?thesis using n d by (simp add: stoi_def)
qed

text \<open>
  Whatever the buffer holds at first, a request with a sane method, path and header lines that fit into it, whose
  length is announced if it has a body, is recorded with its method, its path and exactly its body, and the rest of the
  connection is left alone; \<open>get_header\<close> then gives, for a name in any case, the value of the last header with
  this name, and the empty string when there was none.
\<close>

theorem request_is_recorded_as_sent:
  assumes "token_ok 255 method" "token_ok 1023 path" "list_all (header_ok (length garbage)) hs"
    "length method + length path + 12 \<le> length garbage" "length body < 2 ^ 31"
    "last_value hs ''content-length'' = Some (show_nat (length body)) \<or> last_value hs ''content-length'' = None \<and> body = []"
  shows "\<exists>r. read_request garbage (request_text method path hs body @ rest) = Inr (r, rest) \<and>
    rq_method r = method \<and> rq_path r = path \<and> rq_size r = length body \<and> rq_body r = body \<and>
    (\<forall>name. get_header name r = (case last_value hs name of None \<Rightarrow> [] | Some v \<Rightarrow> v))"
proof -
  define l where "l = method @ CHR '' '' # path @ '' HTTP/1.1''"
  have l: "plain l" "length l + 2 \<le> length garbage"
    using token_plain [OF assms(1)] token_plain [OF assms(2)] assms(4) by (auto simp: l_def plain_def CR_def LF_def NUL_def)
  define buf where "buf = l @ LF # NUL # drop (length l + 2) garbage"
  let ?hs = "concat (map (\<lambda>(k, v). k @ '': '' @ v @ [CR, LF]) hs) @ CR # LF # body @ rest"
  have g: "get_line (l @ CR # LF # ?hs) garbage = (buf, ?hs)" using get_line_line [OF l] by (simp add: buf_def)
  have len: "length buf = length garbage" using l(2) by (simp add: buf_def)
  have rl: "request_line buf = Some (method, path)"
    using request_line_read [OF assms(1,2)] by (simp add: buf_def l_def)
  define H where "H = fold (\<lambda>(k, v). map_put (map tolower k) v) hs []"
  obtain buf2 where dh: "do_headers ?hs buf [] = Some (H, body @ rest, buf2)"
    using do_headers_read [of buf hs "body @ rest" "[]"] assms(3) l(2) len by (auto simp: H_def)
  have low: "map tolower ''content-length'' = ''content-length''" by code_simp
  have H: "map_of H (map tolower name) = last_value hs name" for name
    by (simp add: H_def map_of_fold_put last_value_def split: option.split)
  have H': "map_of H ''content-length'' = last_value hs ''content-length''" by (metis H low)
  have cl: "content_length H = (if last_value hs ''content-length'' = None then map_put ''content-length'' [] H else H,
      Some (int (length body)))"
    using assms(5,6) stoi_show_nat [of "length body"] show_nat_digits [of "length body"]
    by (auto simp: content_length_def H')
  have rt: "request_text method path hs body @ rest = l @ CR # LF # ?hs" by (simp add: request_text_def l_def)
  define H1 where "H1 = (if last_value hs ''content-length'' = None then map_put ''content-length'' [] H else H)"
  define r where "r = \<lparr>rq_method = method, rq_path = path, rq_headers = H1, rq_size = length body, rq_body = body\<rparr>"
  have "read_request garbage (request_text method path hs body @ rest) = Inr (r, rest)"
    unfolding rt read_request_def g Let_def prod.case rl option.case dh cl H1_def [symmetric] by (simp add: r_def)
  moreover have "get_header name r = (case last_value hs name of None \<Rightarrow> [] | Some v \<Rightarrow> v)" for name
  proof -
    have "last_value hs name = last_value hs ''content-length''" if "map tolower name = ''content-length''"
      using that by (metis H H')
    then show ?thesis
      by (simp add: get_header_def r_def H1_def map_of_map_put H split: option.split)
  qed
  ultimately show ?thesis by (auto simp: r_def)
qed

theorem request_is_recorded_as_sent_witness:
  "\<exists>r. read_request (replicate 65536 (CHR '':'')) (request_text ''POST'' ''/foo'' [(''Host'', ''h''), (''Content-LENGTH'', ''3'')] ''a b'' @ ''x'')
      = Inr (r, ''x'') \<and> rq_body r = ''a b'' \<and> get_header ''HOST'' r = ''h''"
proof -
  have no: "\<not> isspace c" if "c \<in> set ''POST/foohN3''" for c
  proof -
    have "list_all (\<lambda>c. \<not> isspace c) ''POST/foohN3''" by code_simp
    then show ?thesis using that by (simp only: list_all_iff) blast
  qed
  have "token_ok 255 ''POST''" "token_ok 1023 ''/foo''" "header_ok 65536 (''Host'', ''h'')"
    "header_ok 65536 (''Content-LENGTH'', ''3'')"
    using no by (simp_all add: token_ok_def header_ok_def plain_def NUL_def CR_def LF_def)
  moreover have "show_nat 3 = ''3''" "last_value [(''Host'', ''h''), (''Content-LENGTH'', ''3'')] ''content-length'' = Some ''3''"
    "last_value [(''Host'', ''h''), (''Content-LENGTH'', ''3'')] ''HOST'' = Some ''h''"
    by code_simp+
  ultimately show ?thesis
    using request_is_recorded_as_sent [of "''POST''" "''/foo''" "replicate 65536 (CHR '':'')"
        "[(''Host'', ''h''), (''Content-LENGTH'', ''3'')]" "''a b''" "''x''"]
    by (auto simp: numeral_3_eq_3)
qed

section \<open>Replies\<close>

fun answers :: "request list \<Rightarrow> http_server \<Rightarrow> string list \<times> http_server" where
  "answers [] s = ([], s)"
| "answers (r # rs) s = (let (out, s1) = answer r s; (outs, s2) = answers rs s1 in (out # outs, s2))"

definition canned :: "bool \<Rightarrow> string \<Rightarrow> string" where
  \<comment> \<open>the response to a path, after \<open>/get503\<close> has been asked for or before\<close>
  "canned asked path = (if asked \<and> path = ''/get503'' then get_response
     else case hs_path_response new_http_server path of None \<Rightarrow> [] | Some x \<Rightarrow> x)"

definition look :: "http_server \<Rightarrow> string \<Rightarrow> string" where
  "look s p = (case hs_path_response s p of None \<Rightarrow> [] | Some x \<Rightarrow> x)"

lemma look_answer:
  "fst (answer r s) = reply_to r (look s (rq_path r))"
  "look (snd (answer r s)) p = (if rq_path r = ''/get503'' \<and> p = ''/get503'' then look s ''/get'' else look s p)"
  "hs_requests (snd (answer r s)) = hs_requests s @ [r]"
proof -
  define s2 where "s2 = (if hs_path_response s (rq_path r) = None
      then s\<lparr>hs_requests := hs_requests s @ [r], hs_path_response := (hs_path_response s)(rq_path r \<mapsto> [])\<rparr>
      else s\<lparr>hs_requests := hs_requests s @ [r]\<rparr>)"
  have s2: "look s2 q = look s q" "hs_requests s2 = hs_requests s @ [r]" "hs_path_response s2 (rq_path r) = Some (look s (rq_path r))" for q
    by (auto simp: s2_def look_def split: option.splits)
  have a: "answer r s = (reply_to r (look s (rq_path r)), if rq_path r = ''/get503''
      then s2\<lparr>hs_path_response := (hs_path_response s2)(''/get503'' \<mapsto> look s2 ''/get'')\<rparr> else s2)"
    unfolding answer_def Let_def look_def [of s2] s2(3) [unfolded s2_def, simplified, symmetric]
    using s2(3) by (auto simp: s2_def look_def split: option.splits)
  show "fst (answer r s) = reply_to r (look s (rq_path r))" by (simp add: a)
  show "hs_requests (snd (answer r s)) = hs_requests s @ [r]" by (simp add: a s2(2))
  show "look (snd (answer r s)) p = (if rq_path r = ''/get503'' \<and> p = ''/get503'' then look s ''/get'' else look s p)"
    using s2(1) [of p] s2(1) [of "''/get''"] by (cases "rq_path r = ''/get503''"; cases "p = ''/get503''") (simp_all add: a look_def)
qed

lemma answers_from:
  "(\<And>p. look s p = canned asked p) \<Longrightarrow>
   hs_requests (snd (answers rs s)) = hs_requests s @ rs \<and> length (fst (answers rs s)) = length rs \<and>
   (\<forall>i < length rs. fst (answers rs s) ! i =
      reply_to (rs ! i) (canned (asked \<or> (\<exists>j < i. rq_path (rs ! j) = ''/get503'')) (rq_path (rs ! i))))"
proof (induction rs arbitrary: s asked)
  case (Cons r rs)
  have "look (snd (answer r s)) p = canned (asked \<or> rq_path r = ''/get503'') p" for p
  proof -
    have "canned asked ''/get'' = get_response" "canned True ''/get503'' = get_response"
      by (simp_all add: canned_def new_http_server_def)
    moreover have "canned a p = canned b p" if "p \<noteq> ''/get503''" for a b using that by (simp add: canned_def)
    ultimately show ?thesis
      by (cases "p = ''/get503''"; cases "rq_path r = ''/get503''") (simp_all add: look_answer(2) Cons.prems)
  qed
  note IH = Cons.IH [OF this]
  let ?i = "\<lambda>i. reply_to ((r # rs) ! i) (canned (asked \<or> (\<exists>j < i. rq_path ((r # rs) ! j) = ''/get503'')) (rq_path ((r # rs) ! i)))"
  have "fst (answers (r # rs) s) ! i = ?i i" if "i < length (r # rs)" for i
    using that IH look_answer(1) [of r s] Cons.prems
    by (cases i) (auto simp: split_beta Let_def Ex_less_Suc2 disj_assoc)
  moreover have "hs_requests (snd (answers (r # rs) s)) = hs_requests s @ r # rs" "length (fst (answers (r # rs) s)) = length (r # rs)"
    using IH look_answer(3) [of r s] by (simp_all add: split_beta Let_def)
  ultimately show ?case by blast
qed simp

text \<open>
  Of any sequence of requests, each is recorded in order and gets the canned response of its path (none for an unknown
  path), where \<open>/get503\<close> answers that it is busy the first time it is asked and from then on what \<open>/get\<close>
  answers, and \<open>/getheader\<close> adds the headers to echo.
\<close>

theorem server_is_busy_once:
  "hs_requests (snd (answers rs new_http_server)) = rs \<and>
   (\<forall>i < length rs. fst (answers rs new_http_server) ! i =
      reply_to (rs ! i) (canned (\<exists>j < i. rq_path (rs ! j) = ''/get503'') (rq_path (rs ! i))))"
proof -
  have "look new_http_server p = canned False p" for p by (simp add: look_def canned_def)
  from answers_from [OF this] show ?thesis by (simp add: new_http_server_def)
qed

section \<open>Writing\<close>

lemma do_write_parts:
  assumes "\<forall>w \<in> set ws. 0 < w" "nat pos + nat (sum_list ws) \<le> length resp" "0 \<le> pos" "left = int (length resp) - pos"
  shows "do_write ws resp pos left out =
    (out @ take (nat (sum_list ws)) (drop (nat pos) resp), pos + sum_list ws, left - sum_list ws)"
  using assms
proof (induction ws arbitrary: pos left out)
  case (Cons w ws)
  have s: "0 \<le> sum_list ws" using Cons.prems(1) by (intro sum_list_nonneg) auto
  have "0 < w" using Cons.prems(1) by simp
  then have l: "0 < left" using Cons.prems s by auto
  have "take (nat (w + sum_list ws)) (drop (nat pos) resp) =
      take (nat w) (drop (nat pos) resp) @ take (nat (sum_list ws)) (drop (nat (pos + w)) resp)"
    using \<open>0 < w\<close> s Cons.prems(3) by (simp add: nat_add_distrib take_add add.commute)
  moreover have "do_write ws resp (pos + w) (left - w) (out @ take (nat w) (drop (nat pos) resp)) =
      ((out @ take (nat w) (drop (nat pos) resp)) @ take (nat (sum_list ws)) (drop (nat (pos + w)) resp), pos + w + sum_list ws,
       left - w - sum_list ws)"
    using Cons.prems s \<open>0 < w\<close> by (intro Cons.IH) (auto simp: nat_add_distrib)
  ultimately show ?case using l by (simp add: algebra_simps)
qed simp

text \<open>
  When every call of \<open>write\<close> takes at least a byte, the response is written completely and in order, in
  however many parts. A failing \<open>write\<close> is never noticed: each failure moves the pointer back by one and makes one
  byte more left to write, so that on a broken connection the loop does not end.
\<close>

theorem failed_writes_are_retried_forever:
  "((\<forall>w \<in> set ws. 0 < w) \<and> sum_list ws = int (length resp) \<longrightarrow>
     do_write ws resp 0 (int (length resp)) [] = (resp, int (length resp), 0)) \<and>
   (0 < left \<longrightarrow> do_write (replicate n (- 1)) resp pos left out = (out, pos - int n, left + int n))"
proof -
  have "do_write (replicate n (- 1)) resp pos left out = (out, pos - int n, left + int n)" if "0 < left"
    using that by (induction n arbitrary: pos left) auto
  then show ?thesis using do_write_parts [of ws 0 resp "int (length resp)" "[]"] by simp
qed

theorem failed_writes_are_retried_forever_witness:
  "do_write [2, 3] ''Busy0'' 0 5 [] = (''Busy0'', 5, 0) \<and> do_write (replicate 100 (- 1)) ''Busy0'' 0 5 [] = ([], - 100, 105)"
  using failed_writes_are_retried_forever [of "[2, 3]" "''Busy0''" 5 100 0 "[]"] by simp

section \<open>Starting and stopping\<close>

record http_life =
  hl_sockfd :: int
  hl_port :: int
  hl_accepting :: bool      \<comment> \<open>\<open>accept_\<close> is a thread that has not been joined\<close>
  hl_done :: bool
  hl_closed :: "int list"

datatype life_error = Terminates | System_error

definition http_stopped :: http_life where
  "http_stopped = \<lparr>hl_sockfd = - 1, hl_port = 0, hl_accepting = False, hl_done = False, hl_closed = []\<rparr>"

definition start_http :: "int \<Rightarrow> int \<Rightarrow> int \<Rightarrow> int \<times> int \<Rightarrow> http_life \<Rightarrow> life_error + bool \<times> http_life" where
  \<comment> \<open>the arguments are the results of the system calls; \<open>False\<close>: a failed assertion returns, the test goes on;
     assigning to a thread that has not been joined terminates the process\<close>
  "start_http sock bound listening name h =
     (let h1 = h\<lparr>hl_sockfd := sock\<rparr> in
      if \<not> 0 \<le> sock then Inr (False, h1)
      else if \<not> 0 \<le> bound then Inr (False, h1)
      else if listening \<noteq> 0 then Inr (False, h1)
      else if \<not> 0 \<le> fst name then Inr (False, h1)
      else let h2 = h1\<lparr>hl_port := snd name\<rparr>
           in if hl_accepting h then Inl Terminates else Inr (True, h2\<lparr>hl_accepting := True\<rparr>))"

definition stop_http :: "http_life \<Rightarrow> life_error + http_life" where
  \<comment> \<open>\<open>join\<close> fails for a thread that was never started\<close>
  "stop_http h = (if hl_accepting h then Inr (h\<lparr>hl_done := True, hl_accepting := False\<rparr>) else Inl System_error)"

definition destroy_http :: "http_life \<Rightarrow> life_error + http_life" where
  \<comment> \<open>the destructor, then those of the members\<close>
  "destroy_http h = (let h1 = (if 0 \<le> hl_sockfd h then h\<lparr>hl_closed := hl_closed h @ [hl_sockfd h]\<rparr> else h)
     in if hl_accepting h1 then Inl Terminates else Inr h1)"

text \<open>
  A test that starts, stops and destroys the server closes its socket once, also when the start fails
  half-way (then the server must not be stopped); a server is not made to be started again: the flag stays set, so the new
  loop of connections ends at once, and the first socket is never closed.
\<close>

lemma http_life_cycle:
  assumes "0 \<le> sock"
  shows "(case start_http sock 0 0 (0, port) http_stopped of
      Inr (True, h) \<Rightarrow> hl_port h = port \<and> destroy_http h = Inl Terminates \<and>
        (\<exists>h'. stop_http h = Inr h' \<and> (\<exists>h''. destroy_http h' = Inr h'' \<and> hl_closed h'' = [sock]) \<and>
          (\<exists>h2. start_http sock2 0 0 (0, port2) h' = Inr (0 \<le> sock2, h2) \<and> hl_done h2 \<and> hl_closed h2 = []))
    | _ \<Rightarrow> False)"
    and "(bound < 0 \<or> listening \<noteq> 0 \<or> name < 0) \<Longrightarrow>
      \<exists>h. start_http sock bound listening (name, port) http_stopped = Inr (False, h) \<and> stop_http h = Inl System_error \<and>
        (\<exists>h'. destroy_http h = Inr h' \<and> hl_closed h' = [sock])"
  using assms by (auto simp: start_http_def stop_http_def destroy_http_def http_stopped_def Let_def)

end
