(* ===== verification/StatsdLaws.thy ===== *)
theory StatsdLaws
  imports ServerLaws ServerInv
begin

text \<open>
  The statsd parser of \<open>server/spectatord.cc\<close> against the grammar in its comment: every printed line is parsed
  back to its name, number, type, sampling rate and tags, and what a sampling rate makes of a recording. Its last
  definitions are the benchmark of \<open>bench/statsd_bench.cc\<close>.
\<close>

section \<open>Printing lines\<close>

type_synonym statsd_tag = "string \<times> string option"

definition statsd_tag_text :: "statsd_tag \<Rightarrow> string" where
  "statsd_tag_text t = fst t @ (case snd t of None \<Rightarrow> [] | Some v \<Rightarrow> CHR '':'' # v)"

fun statsd_tags_text :: "statsd_tag list \<Rightarrow> string" where
  "statsd_tags_text [] = []"
| "statsd_tags_text [t] = statsd_tag_text t"
| "statsd_tags_text (t # ts) = statsd_tag_text t @ CHR '','' # statsd_tags_text ts"

definition type_text :: "statsd_type \<Rightarrow> string" where
  "type_text ty = (case ty of S_Counter \<Rightarrow> ''c'' | S_Timing \<Rightarrow> ''ms'' | S_Gauge \<Rightarrow> ''g'' | S_Histogram \<Rightarrow> ''h'' | S_Set \<Rightarrow> ''s'')"

definition statsd_text :: "string \<Rightarrow> string \<Rightarrow> statsd_type \<Rightarrow> string option \<Rightarrow> statsd_tag list \<Rightarrow> string" where
  "statsd_text name txt ty rate ts = name @ CHR '':'' # txt @ CHR ''|'' # type_text ty @
     (case rate of None \<Rightarrow> [] | Some r \<Rightarrow> ''|@'' @ r) @ (if ts = [] then [] else ''|#'' @ statsd_tags_text ts)"

definition part_ok :: "string \<Rightarrow> bool" where
  "part_ok s \<longleftrightarrow> s \<noteq> [] \<and> list_all (\<lambda>c. c \<noteq> NUL \<and> c \<noteq> CHR '':'' \<and> c \<noteq> CHR '','') s"

definition statsd_tag_ok :: "statsd_tag \<Rightarrow> bool" where
  "statsd_tag_ok t \<longleftrightarrow> part_ok (fst t) \<and> (case snd t of None \<Rightarrow> True | Some v \<Rightarrow> part_ok v)"

definition number_text :: "string \<Rightarrow> bool" where
  \<comment> \<open>a text that is a number as a whole\<close>
  "number_text s \<longleftrightarrow> s \<noteq> [] \<and> NUL \<notin> set s \<and> snd (strtod s) = length s"

definition rate_ok :: "double \<Rightarrow> bool" where
  "rate_ok r \<longleftrightarrow> \<not> dle r dpos0 \<and> \<not> dlt (dint 1) r"

definition tag_value :: "string option \<Rightarrow> string" where
  \<comment> \<open>a tag without a value has the value 1\<close>
  "tag_value v = (case v of None \<Rightarrow> ''1'' | Some v \<Rightarrow> v)"

section \<open>Tags\<close>

lemma deref_mid [simp]: "deref (a @ c # b) (length a) = Some c"
  by (simp add: deref_def)

lemma statsd_tags_walk:
  "(\<And>i. i < n \<Longrightarrow> m ! (p + i) \<noteq> NUL) \<Longrightarrow> (\<And>i. i < n \<Longrightarrow> m ! (p + Suc i) \<noteq> CHR '':'' \<and> m ! (p + Suc i) \<noteq> CHR '','') \<Longrightarrow>
   p + n < length m \<Longrightarrow> statsd_tags m p bk ek bv tags = statsd_tags m (p + n) bk ek bv tags"
proof (induction n arbitrary: p)
  case (Suc n)
  have "statsd_tags m p bk ek bv tags = statsd_tags m (Suc p) bk ek bv tags"
    using Suc.prems(1) [of 0] Suc.prems(2) [of 0] Suc.prems(3)
    by (simp add: statsd_tags.simps [of m p] deref_def)
  also have "\<dots> = statsd_tags m (Suc p + n) bk ek bv tags"
    using Suc.prems(1) [of "Suc _"] Suc.prems(2) [of "Suc _"] Suc.prems(3) by (intro Suc.IH) simp_all
  finally show ?case by simp
qed simp

lemma in_tl: "c \<in> set (tl s) \<Longrightarrow> c \<in> set s"
  by (cases s) simp_all

lemma walk_part:
  \<comment> \<open>over the rest of a key or a value, from its first character to its last\<close>
  assumes "m = a @ s @ b" and "s \<noteq> []" and "NUL \<notin> set s" and "\<And>c. c \<in> set (tl s) \<Longrightarrow> c \<noteq> CHR '':'' \<and> c \<noteq> CHR '',''"
  shows "statsd_tags m (length a) bk ek bv tags = statsd_tags m (length a + (length s - 1)) bk ek bv tags"
proof (rule statsd_tags_walk)
  fix i assume i: "i < length s - 1"
  then have l: "i < length s" "Suc i < length s" by simp_all
  then have "m ! (length a + i) = s ! i" by (simp add: assms(1) nth_append)
  then show "m ! (length a + i) \<noteq> NUL" using l(1) assms(3) by (metis nth_mem)
  have "m ! (length a + Suc i) = tl s ! i" using i l by (simp add: assms(1) nth_append nth_tl)
  then show "m ! (length a + Suc i) \<noteq> CHR '':'' \<and> m ! (length a + Suc i) \<noteq> CHR '',''"
    using i assms(4) by (metis length_tl nth_mem)
next
  show "length a + (length s - 1) < length m" using assms(2) by (cases s) (simp_all add: assms(1))
qed

definition put_tag :: "statsd_tag \<Rightarrow> tag_list \<Rightarrow> tag_list" where
  "put_tag t = tag_put (sanitize (fst t)) (sanitize (tag_value (snd t)))"

lemma tag_between_text:
  assumes "m = a @ statsd_tag_text (k, v) @ b" and "k \<noteq> []" and "v \<noteq> Some []"
  shows "tag_between m (length a) (case v of None \<Rightarrow> ek | Some _ \<Rightarrow> length a + length k)
      (map_option (\<lambda>_. length a + length k + 1) v) (length a + length (statsd_tag_text (k, v))) tags = Some (put_tag (k, v) tags)"
  using assms by (cases v) (simp_all add: tag_between_def statsd_tag_text_def add_tag_def substr_def put_tag_def tag_value_def)

lemma statsd_tag_walk:
  \<comment> \<open>to the last character of a tag\<close>
  assumes m: "m = a @ statsd_tag_text (k, v) @ b" and ok: "statsd_tag_ok (k, v)"
  shows "statsd_tags m (length a) (length a) ek None tags =
    statsd_tags m (length a + length (statsd_tag_text (k, v)) - 1) (length a)
      (case v of None \<Rightarrow> ek | Some _ \<Rightarrow> length a + length k) (map_option (\<lambda>_. length a + length k + 1) v) tags"
proof -
  have k: "k \<noteq> []" "NUL \<notin> set k" "\<And>c. c \<in> set (tl k) \<Longrightarrow> c \<noteq> CHR '':'' \<and> c \<noteq> CHR '',''"
    using ok by (auto simp: statsd_tag_ok_def part_ok_def list_all_iff dest: in_tl)
  show ?thesis
  proof (cases v)
    case None
    then show ?thesis using walk_part [of m a k b, OF _ k] k(1) by (cases k) (simp_all add: m statsd_tag_text_def)
  next
    case (Some w)
    have w: "w \<noteq> []" "NUL \<notin> set w" "\<And>c. c \<in> set (tl w) \<Longrightarrow> c \<noteq> CHR '':'' \<and> c \<noteq> CHR '',''" "hd w \<noteq> CHR '',''"
      using ok Some by (auto simp: statsd_tag_ok_def part_ok_def list_all_iff dest: in_tl)
    have m1: "m = a @ k @ CHR '':'' # w @ b" and m2: "m = (a @ k @ [CHR '':'']) @ w @ b"
      by (simp_all add: m Some statsd_tag_text_def)
    define p where "p = length a + (length k - 1)"
    have at: "deref m p = Some (last k)" "deref m (Suc p) = Some (CHR '':'')" "deref m (Suc (Suc p)) = Some (hd w)"
      using k(1) w(1) by (cases k rule: rev_cases; cases w; simp add: p_def m1 deref_def nth_append)+
    have "last k \<noteq> NUL" using k(1,2) by (metis last_in_set)
    then have "statsd_tags m p (length a) ek None tags =
        statsd_tags m (Suc (Suc p)) (length a) (Suc p) (Some (Suc (Suc p))) tags"
      using w(4) by (simp add: statsd_tags.simps [of m p] at)
    moreover have "Suc p = length a + length k" "Suc (Suc p) = length (a @ k @ [CHR '':''])"
      using k(1) by (cases k; simp add: p_def)+
    ultimately have "statsd_tags m p (length a) ek None tags =
        statsd_tags m (length (a @ k @ [CHR '':''])) (length a) (length a + length k) (Some (length a + length k + 1)) tags"
      by simp
    also have "\<dots> = statsd_tags m (length (a @ k @ [CHR '':'']) + (length w - 1)) (length a) (length a + length k)
        (Some (length a + length k + 1)) tags"
      by (rule walk_part [OF m2 w(1-3)])
    finally show ?thesis
      using walk_part [of m a k "CHR '':'' # w @ b", OF m1 k, folded p_def] w(1) by (cases w) (simp_all add: Some statsd_tag_text_def add.assoc)
  qed
qed

lemma last_tag_char:
  assumes "statsd_tag_ok (k, v)"
  shows "statsd_tag_text (k, v) \<noteq> []" and "last (statsd_tag_text (k, v)) \<noteq> NUL"
proof -
  have k: "k \<noteq> []" "NUL \<notin> set k" using assms by (auto simp: statsd_tag_ok_def part_ok_def list_all_iff)
  then show "statsd_tag_text (k, v) \<noteq> []" by (simp add: statsd_tag_text_def)
  show "last (statsd_tag_text (k, v)) \<noteq> NUL"
  proof (cases v)
    case None
    then show ?thesis using k by (simp add: statsd_tag_text_def) (metis last_in_set)
  next
    case (Some w)
    then have "w \<noteq> []" "NUL \<notin> set w" using assms by (auto simp: statsd_tag_ok_def part_ok_def list_all_iff)
    then have "last w \<noteq> NUL" using last_in_set [of w] by metis
    then show ?thesis using Some \<open>w \<noteq> []\<close> by (simp add: statsd_tag_text_def)
  qed
qed

lemma statsd_tags_read:
  assumes "list_all statsd_tag_ok ts" and "ts \<noteq> []"
  shows "statsd_tags (a @ statsd_tags_text ts @ NUL # r) (length a) (length a) ek None tags = Some (Some (fold put_tag ts tags))"
  using assms
proof (induction ts arbitrary: a ek tags rule: statsd_tags_text.induct)
  case (2 t)
  obtain k v where t: "t = (k, v)" by fastforce
  let ?m = "a @ statsd_tag_text (k, v) @ NUL # r"
  define q where "q = length a + length (statsd_tag_text (k, v)) - 1"
  have ok: "statsd_tag_ok (k, v)" using 2 by (simp add: t)
  note l = last_tag_char [OF ok]
  have at: "deref ?m q = Some (last (statsd_tag_text (k, v)))" "deref ?m (Suc q) = Some NUL" "Suc q = length a + length (statsd_tag_text (k, v))"
    using l(1) by (cases "statsd_tag_text (k, v)" rule: rev_cases; simp add: q_def deref_def nth_append)+
  have "NUL \<noteq> CHR '':''" "NUL \<noteq> CHR '',''" by (simp_all add: NUL_def)
  then have "statsd_tags ?m q bk ek2 bv tags = Some (tag_between ?m bk ek2 bv (Suc q) tags)" for bk ek2 bv
    using l(2) by (simp add: statsd_tags.simps [of ?m q] statsd_tags.simps [of ?m "Suc q"] at(1,2))
  moreover have "k \<noteq> []" "v \<noteq> Some []" using ok by (auto simp: statsd_tag_ok_def part_ok_def)
  ultimately show ?case
    using tag_between_text [of ?m a k v "NUL # r"] statsd_tag_walk [OF refl ok, of a "NUL # r" ek tags, folded q_def]
    by (simp add: t at(3))
next
  case (3 t t' ts)
  obtain k v where t: "t = (k, v)" by fastforce
  let ?w = "statsd_tags_text (t' # ts) @ NUL # r"
  let ?m = "a @ statsd_tag_text (k, v) @ CHR '','' # ?w" and ?a = "a @ statsd_tag_text (k, v) @ [CHR '','']"
  define q where "q = length a + length (statsd_tag_text (k, v)) - 1"
  have ok: "statsd_tag_ok (k, v)" using 3 by (simp add: t)
  note l = last_tag_char [OF ok]
  have at: "deref ?m q = Some (last (statsd_tag_text (k, v)))" "deref ?m (Suc q) = Some (CHR '','')" "Suc q = length a + length (statsd_tag_text (k, v))"
    using l(1) by (cases "statsd_tag_text (k, v)" rule: rev_cases; simp add: q_def deref_def nth_append)+
  have step: "statsd_tags ?m q bk ek2 bv tags = (case tag_between ?m bk ek2 bv (Suc q) tags of
      None \<Rightarrow> Some None | Some tags2 \<Rightarrow> statsd_tags ?m (Suc (Suc q)) (Suc (Suc q)) ek2 None tags2)" for bk ek2 bv
    using l(2) by (simp add: statsd_tags.simps [of ?m q] at(1,2))
  have la: "length ?a = Suc (Suc q)" by (simp add: at(3))
  have "k \<noteq> []" "v \<noteq> Some []" using ok by (auto simp: statsd_tag_ok_def part_ok_def)
  note between = tag_between_text [of ?m a k v "CHR '','' # ?w", OF refl this]
  have "statsd_tags (?a @ ?w) (length ?a) (length ?a) ek2 None (put_tag (k, v) tags) =
      Some (Some (fold put_tag (t' # ts) (put_tag (k, v) tags)))" for ek2
    by (rule 3(1)) (use 3(2) in simp_all)
  then have rest: "statsd_tags ?m (Suc (Suc q)) (Suc (Suc q)) ek2 None (put_tag (k, v) tags) =
      Some (Some (fold put_tag (t' # ts) (put_tag (k, v) tags)))" for ek2
    unfolding la by simp
  show ?case
    using statsd_tag_walk [OF refl ok, of a "CHR '','' # ?w" ek tags, folded q_def] between rest
    by (simp add: t step at(3) [symmetric])
qed simp

section \<open>Lines\<close>

lemma statsd_tags_text_no_nul: "list_all statsd_tag_ok ts \<Longrightarrow> NUL \<notin> set (statsd_tags_text ts)"
proof (induction ts rule: statsd_tags_text.induct)
  case (2 t)
  then show ?case
    by (cases t) (auto simp: statsd_tag_ok_def part_ok_def statsd_tag_text_def NUL_neq list_all_iff split: option.splits)
next
  case (3 t t' ts)
  then show ?case
    by (cases t) (auto simp: statsd_tag_ok_def part_ok_def statsd_tag_text_def NUL_neq list_all_iff split: option.splits)
qed simp

lemma drop_mid: "drop (length a + k) (a @ u) = drop k u"
  by simp

lemma deref_app: "deref (a @ u) (length a + k) = deref u k"
  by (simp add: deref_def nth_append)

lemma statsd_options_text:
  assumes "list_all statsd_tag_ok ts" and "\<And>r. rate = Some r \<Longrightarrow> number_text r \<and> rate_ok (fst (strtod r))"
  shows "statsd_options (a @ (case rate of None \<Rightarrow> [] | Some r \<Rightarrow> ''|@'' @ r) @ (if ts = [] then [] else ''|#'' @ statsd_tags_text ts) @ NUL # w)
      (length a) name =
    Some (Inr (case rate of None \<Rightarrow> dint 1 | Some r \<Rightarrow> fst (strtod r), fold put_tag ts []))"
proof -
  have nul: "NUL \<noteq> CHR ''|''" "NUL \<noteq> CHR ''#''" "NUL \<noteq> CHR ''@''" by (simp_all add: NUL_def)
  have tags: "statsd_tags (b @ statsd_tags_text ts @ NUL # w) (length b) (length b) 0 None [] = Some (Some (fold put_tag ts []))"
    if "ts \<noteq> []" for b
    by (rule statsd_tags_read [OF assms(1) that])
  show ?thesis
  proof (cases rate)
    case None
    show ?thesis
    proof (cases "ts = []")
      case True
      then show ?thesis using nul(1) by (simp add: None statsd_options_def)
    next
      case False
      have "deref (a @ ''|#'' @ u) (length a) = Some (CHR ''|'')" "deref (a @ ''|#'' @ u) (Suc (length a)) = Some (CHR ''#'')" for u
        using deref_app [of a "''|#'' @ u" 0] deref_app [of a "''|#'' @ u" 1] by (simp_all add: deref_def)
      then show ?thesis
        using tags [OF False, of "a @ ''|#''"] False by (simp add: None statsd_options_def statsd_rate_def)
    qed
  next
    case (Some x)
    have x: "x \<noteq> []" "NUL \<notin> set x" "snd (strtod x) = length x" "rate_ok (fst (strtod x))"
      using assms(2) [OF Some] by (simp_all add: number_text_def)
    let ?t = "(if ts = [] then [] else ''|#'' @ statsd_tags_text ts) @ NUL # w"
    let ?m = "a @ ''|@'' @ x @ ?t"
    obtain z u where z: "?t = z # u" "ends_number z" by (cases "ts = []") (auto simp: ends_number_def)
    have sd: "strtod (x @ ?t) = strtod x" unfolding z(1) by (rule strtod_stop(1) [OF z(2)])
    have at: "deref ?m (length a) = Some (CHR ''|'')" "deref ?m (Suc (length a)) = Some (CHR ''@'')"
      "deref ?m (Suc (Suc (length a)) + k) = deref (x @ ?t) k" "drop (Suc (Suc (length a))) ?m = x @ ?t" for k
      using deref_app [of a "''|@'' @ x @ ?t" 0] deref_app [of a "''|@'' @ x @ ?t" 1] deref_app [of "a @ ''|@''" "x @ ?t" k]
      by (simp_all add: deref_def)
    have at2: "deref (x @ ?t) (length x) = Some z" by (simp add: z(1))
    have trm: "terminated (x @ ?t)" by (simp add: terminated_def)
    have no: "snd (strtod x) \<noteq> 0" "\<not> (dle (fst (strtod x)) dpos0 \<or> dlt (dint 1) (fst (strtod x)))"
      using x(1,3,4) by (simp_all add: rate_ok_def)
    let ?p = "Suc (Suc (length a)) + length x"
    have rate: "statsd_rate ?m (Suc (length a)) name = Some (Inr (fst (strtod x), if z = CHR ''|'' then Suc ?p else ?p))"
      unfolding statsd_rate_def at(2,4) option.case sd using no trm at(3) [of "length x"] at2 x(3)
      by (simp add: split_beta Let_def)
    show ?thesis
    proof (cases "ts = []")
      case True
      then have "z = NUL" using z(1) by simp
      then show ?thesis
        using rate at(1) at(3) [of "length x"] at2 nul True by (simp add: Some statsd_options_def)
    next
      case False
      then have "z = CHR ''|''" "u = CHR ''#'' # statsd_tags_text ts @ NUL # w" using z(1) by simp_all
      moreover have "deref (x @ ?t) (Suc (length x)) = Some (CHR ''#'')"
        using False deref_app [of x ?t 1] by (simp add: deref_def)
      moreover have "?m = (a @ ''|@'' @ x @ ''|#'') @ statsd_tags_text ts @ NUL # w" using False by simp
      moreover have "Suc (Suc ?p) = length (a @ ''|@'' @ x @ ''|#'')" by simp
      ultimately show ?thesis
        using rate at(1) at(3) [of "Suc (length x)"] tags [OF False, of "a @ ''|@'' @ x @ ''|#''"] False
        by (simp add: Some statsd_options_def)
    qed
  qed
qed

lemma statsd_type_text:
  assumes "ty = S_Counter \<or> ty = S_Timing \<or> ty = S_Gauge \<or> ty = S_Histogram \<or> ty = S_Set"
  shows "statsd_type_of (a @ type_text ty @ u) (length a) name = Some (Inr (ty, length a + length (type_text ty)))"
  using deref_app [of a "type_text ty @ u" 0] deref_app [of a "type_text ty @ u" 1]
  by (cases ty) (simp_all add: statsd_type_of_def type_text_def deref_def)

lemma statsd_parse_text:
  assumes "name \<noteq> []" and "CHR '':'' \<notin> set name" and "NUL \<notin> set name" and "number_text txt"
    and "list_all statsd_tag_ok ts" and "\<And>r. rate = Some r \<Longrightarrow> number_text r \<and> rate_ok (fst (strtod r))"
  shows "statsd_parse (statsd_text name txt ty rate ts @ NUL # w) = Some (Inr (ty,
    id_of name (intern_tags (map (\<lambda>t. (fst t, tag_value (snd t))) ts)), fst (strtod txt),
    case rate of None \<Rightarrow> dint 1 | Some r \<Rightarrow> fst (strtod r)))"
proof -
  let ?opt = "(case rate of None \<Rightarrow> [] | Some r \<Rightarrow> ''|@'' @ r) @ (if ts = [] then [] else ''|#'' @ statsd_tags_text ts) @ NUL # w"
  let ?v = "txt @ CHR ''|'' # type_text ty @ ?opt"
  let ?m = "name @ CHR '':'' # ?v"
  have m: "statsd_text name txt ty rate ts @ NUL # w = ?m" by (simp add: statsd_text_def)
  have trm: "terminated ?m" by (simp add: terminated_def)
  have sc: "strchr ?m (CHR '':'') = Some (length name)"
  proof -
    have "cstr ?m = name @ CHR '':'' # cstr ?v"
      using assms(3) by (induction name) (auto simp: cstr_Cons NUL_def)
    moreover have "takeWhile (\<lambda>x. x \<noteq> CHR '':'') (name @ CHR '':'' # cstr ?v) = name"
      using assms(2) by (simp add: takeWhile_stop takeWhile_eq_all_conv) (metis takeWhile_eq_all_conv)
    ultimately show ?thesis by (simp add: strchr_def Let_def)
  qed
  have num: "txt \<noteq> []" "snd (strtod txt) = length txt" using assms(4) by (simp_all add: number_text_def)
  have "strtod ?v = strtod txt" by (rule strtod_stop(1)) (simp add: ends_number_def)
  then have sd: "strtod (drop (Suc (length name)) ?m) = (fst (strtod txt), length txt)"
    using num(2) by (simp add: prod_eq_iff)
  let ?a = "name @ CHR '':'' # txt"
  have bar: "deref ?m (Suc (length name) + length txt) = Some (CHR ''|'')"
    using deref_app [of ?a "CHR ''|'' # type_text ty @ ?opt" 0] by (simp add: deref_def)
  have ty: "statsd_type_of ?m (Suc (Suc (length name) + length txt)) name =
      Some (Inr (ty, length (?a @ [CHR ''|'']) + length (type_text ty)))"
    using statsd_type_text [of ty "?a @ [CHR ''|'']" ?opt name] by (cases ty) simp_all
  have opt: "statsd_options ?m (length (?a @ [CHR ''|'']) + length (type_text ty)) name =
      Some (Inr (case rate of None \<Rightarrow> dint 1 | Some r \<Rightarrow> fst (strtod r), fold put_tag ts []))"
    using statsd_options_text [where rate = rate and a = "?a @ CHR ''|'' # type_text ty" and w = w and name = name, OF assms(5,6)]
    by (simp add: add.assoc)
  have "fold put_tag ts [] = intern_tags (map (\<lambda>t. (fst t, tag_value (snd t))) ts)"
    by (simp add: intern_tags_fold fold_map comp_def put_tag_def [abs_def])
  moreover have "substr ?m 0 (length name) = name" by (simp add: substr_def)
  moreover define M where "M = ?m"
  ultimately show ?thesis
    using trm assms(1) num(1) sd bar ty opt sc unfolding m M_def [symmetric] statsd_parse_def
    by (simp add: id_of_def)
qed

section \<open>Sampling\<close>

lemma round_even_error: "\<bar>of_int (round_even x) - x\<bar> \<le> 1 / 2"
proof -
  have "of_int \<lfloor>x\<rfloor> \<le> x" "x < of_int \<lfloor>x\<rfloor> + 1" by linarith+
  then show ?thesis unfolding round_even_def Let_def by (auto split: if_splits)
qed

lemma rnd_error:
  assumes "2 powi (- 1000) \<le> \<bar>q\<bar>"
  shows "\<bar>rnd q - q\<bar> \<le> \<bar>q\<bar> / 2 ^ 53"
proof -
  have q: "q \<noteq> 0" using assms by auto
  let ?e = "ulp_exp q"
  have "(2::rat) powi (- 1000) < 2 powi (ilog2 q + 1)" using assms ilog2_bounds(2) [OF q] by linarith
  then have "- 1000 < ilog2 q + 1" by (simp only: powi_less_iff)
  then have e: "?e = ilog2 q - 52" by (simp add: ulp_exp_def)
  have p: "(0::rat) < 2 powi ?e" by simp
  define x where "x = q / 2 powi ?e"
  have "rnd q = of_int (round_even x) * 2 powi ?e" "q = x * 2 powi ?e" using q p by (simp_all add: rnd_def x_def)
  then have "\<bar>rnd q - q\<bar> = \<bar>(of_int (round_even x) - x) * 2 powi ?e\<bar>" by (metis left_diff_distrib)
  also have "\<dots> = \<bar>of_int (round_even x) - x\<bar> * 2 powi ?e" using p by (simp only: abs_mult abs_of_pos)
  also have "\<dots> \<le> 1 / 2 * 2 powi ?e" using round_even_error p by (intro mult_right_mono) simp_all
  also have "\<dots> = 2 powi ilog2 q / 2 ^ 53" by (simp add: e power_int_diff)
  also have "\<dots> \<le> \<bar>q\<bar> / 2 ^ 53" using ilog2_bounds(1) [OF q] by (simp add: divide_right_mono)
  finally show ?thesis .
qed

lemma quotient_error:
  \<comment> \<open>dividing by the double nearest to \<open>1 / k\<close> multiplies by \<open>k\<close>, almost\<close>
  fixes k n :: nat
  assumes "1 \<le> k" and "k \<le> 2 ^ 31" and "1 \<le> n" and "n \<le> 2 ^ 53"
  defines "r \<equiv> rnd (1 / of_nat k)"
  shows "0 < r" and "to_double False (1 / of_nat k) = Fin r"
    and "ddiv (dint (int n)) (Fin r) = Fin (rnd (of_nat n / r))"
    and "\<bar>rnd (of_nat n / r) - of_nat (n * k)\<bar> \<le> of_nat (n * k) / 2 ^ 51"
proof -
  define K N :: rat where "K = of_nat k" and "N = of_nat n"
  have K: "1 \<le> K" "K \<le> 2 ^ 31" and N: "1 \<le> N" "N \<le> 2 ^ 53"
    using assms(1-4) of_nat_mono [OF assms(2), where 'a = rat] of_nat_mono [OF assms(4), where 'a = rat]
    by (simp_all add: K_def N_def)
  have small: "2 powi (- 1000) \<le> (1 / 2 ^ 31 :: rat)"
  proof -
    have "(2::rat) powi (- 1000) \<le> 2 powi (- 31)" by (simp only: powi_mono)
    then show ?thesis by (simp add: power_int_minus_divide)
  qed
  have inv: "1 / 2 ^ 31 \<le> 1 / K" "1 / K \<le> 1" using K by (simp_all add: frac_le)
  then have "\<bar>r - 1 / K\<bar> \<le> \<bar>1 / K\<bar> / 2 ^ 53" unfolding r_def K_def [symmetric] using small by (intro rnd_error) linarith
  then have err: "\<bar>r - 1 / K\<bar> \<le> 1 / K / 2 ^ 53" using K by simp
  then have "\<bar>K * r - 1\<bar> * 2 ^ 53 \<le> 1" using K by (simp add: field_simps)
  then have "\<bar>K * r - 1\<bar> \<le> 1 / 2" by simp
  then have "1 / 2 \<le> K * r" unfolding abs_le_iff by linarith
  then have low: "1 / (2 * K) \<le> r" using K by (simp add: field_simps)
  moreover have "0 < 1 / (2 * K)" using K by simp
  ultimately show r: "0 < r" by linarith
  have "rnd (1 / K) \<le> rnd 1" using inv(2) by (rule rnd_mono)
  then have "r \<le> 1" using rnd_of_int [of 1] by (simp add: r_def K_def)
  then show "to_double False (1 / of_nat k) = Fin r" using r huge_pos unfolding to_double_def r_def [symmetric] Let_def by simp
  have up: "1 / r \<le> 2 * K" using low r K by (simp add: field_simps)
  have q: "\<bar>N / r - N * K\<bar> \<le> N * K / 2 ^ 52"
  proof -
    have "N / r - N * K = N * K * (1 / K - r) * (1 / r)" using r K by (simp add: field_simps)
    then have "\<bar>N / r - N * K\<bar> = N * K * \<bar>1 / K - r\<bar> * (1 / r)" using r K N by (simp add: abs_mult)
    also have "\<dots> \<le> N * K * (1 / K / 2 ^ 53) * (2 * K)"
      using err up r K N by (intro mult_mono mult_nonneg_nonneg) (simp_all add: abs_minus_commute)
    also have "\<dots> = N * K / 2 ^ 52" using K by (simp add: field_simps)
    finally show ?thesis .
  qed
  have big: "2 powi (- 1000) \<le> \<bar>N / r\<bar>"
  proof -
    have "1 \<le> N / r" using \<open>r \<le> 1\<close> r N by (simp add: field_simps)
    then have "1 \<le> \<bar>N / r\<bar>" by linarith
    moreover have "(2::rat) powi (- 1000) \<le> 1" using powi_mono [of "- 1000" 0] by (simp only: power_int_0_right)
    ultimately show ?thesis by (rule order_trans [rotated])
  qed
  have e2: "\<bar>rnd (N / r) - N / r\<bar> \<le> N * K / 2 ^ 52"
  proof -
    have "N * (1 / r) \<le> N * (2 * K)" using up N by (intro mult_left_mono) simp_all
    then have "\<bar>N / r\<bar> / 2 ^ 53 \<le> N * K / 2 ^ 52" using r N by simp
    then show ?thesis using rnd_error [OF big] by linarith
  qed
  show err2: "\<bar>rnd (of_nat n / r) - of_nat (n * k)\<bar> \<le> of_nat (n * k) / 2 ^ 51"
  proof -
    have "\<bar>rnd (N / r) - N * K\<bar> \<le> \<bar>rnd (N / r) - N / r\<bar> + \<bar>N / r - N * K\<bar>" by linarith
    also have "\<dots> \<le> N * K / 2 ^ 51" using q e2 by (simp add: field_simps)
    finally show ?thesis by (simp add: K_def N_def)
  qed
  have NK: "N * K \<le> 2 ^ 84" using mult_mono [OF N(2) K(2)] K by simp
  have powi85: "(2::rat) powi 85 = 2 ^ 85" by (simp only: power_int_numeral)
  have NK1: "0 < N * K" using N K by simp
  have near: "\<bar>rnd (N / r) - N * K\<bar> \<le> N * K / 2 ^ 51" using err2 by (simp add: K_def N_def)
  have range: "0 < x \<and> x \<le> 2 ^ 85" if "\<bar>x - m\<bar> \<le> m / 2 ^ 51" "0 < m" "m \<le> 2 ^ 84" for x m :: rat
    using that unfolding abs_le_iff by (simp add: field_simps)
  have "0 < rnd (N / r)" using range [OF near NK1 NK] by (rule conjunct1)
  moreover have "rnd (N / r) < huge"
  proof -
    have "rnd (N / r) \<le> 2 powi 85" using range [OF near NK1 NK] unfolding powi85 by (rule conjunct2)
    moreover have "(2::rat) powi 85 < 2 powi 1024" by (simp only: powi_less_iff)
    ultimately show ?thesis by (simp only: huge_def)
  qed
  moreover have "dint (int n) = Fin N" using assms(3,4) dint_exact [of "int n"] by (simp add: N_def)
  ultimately show "ddiv (dint (int n)) (Fin r) = Fin (rnd (of_nat n / r))"
    using r N by (simp add: to_double_def Let_def N_def)
qed

lemma sampled_count:
  assumes "1 \<le> k" and "k < 2 ^ 31"
  shows "dbl_lround (ddiv (dint 1) (to_double False (1 / of_nat k))) = Some (int k)"
proof -
  define r :: rat where "r = rnd (1 / of_nat k)"
  have k: "k \<le> 2 ^ 31" using assms(2) by simp
  note q = quotient_error [OF assms(1) k order_refl, of, folded r_def]
  let ?x = "rnd (1 / r)"
  have d: "ddiv (dint 1) (Fin r) = Fin ?x" using q(3) by simp
  have "of_nat k / 2 ^ 51 < (1 / 2 :: rat)" using of_nat_mono [OF k, where 'a = rat] by simp
  then have x: "\<bar>?x - of_nat k\<bar> < 1 / 2" using q(4) by simp
  moreover have "(1::rat) \<le> of_nat k" using assms(1) by simp
  ultimately have "0 < ?x" "of_nat k \<le> ?x + 1 / 2" "?x + 1 / 2 < of_nat k + 1" unfolding abs_less_iff by linarith+
  then have "0 < ?x" "\<lfloor>?x + 1 / 2\<rfloor> = int k" by (simp_all add: floor_unique)
  then show ?thesis
    using assms(2) by (simp add: q(2) d dbl_lround_def Let_def in_int64_def int64_min_def int64_max_def)
qed

section \<open>Numbers of concrete lines\<close>

lemma decimal_chars:
  "isspace (CHR ''0'') = False" "tolower (CHR ''0'') = CHR ''0''" "tolower (CHR ''.'') = CHR ''.''"
  "isdigit (CHR ''0'')" "isdigit (CHR ''1'')" "\<not> isdigit (CHR ''.'')" "digit_val (CHR ''0'') = 0" "digit_val (CHR ''1'') = 1"
  by code_simp+

lemmas decimal_defs = strtod_def skip_space_def sign_of_def strtod_abs_def has_prefix_def strtod_decimal_def
  mantissa_def exponent_def number_def signed_double_def pow_rat_def nan_suffix_def decimal_chars

lemma bench_rates:
  "strtod ''0.1'' = (to_double False (1 / of_nat 10), 3)" "strtod ''0.01'' = (to_double False (1 / of_nat 100), 4)"
  "strtod ''0.001'' = (to_double False (1 / of_nat 1000), 5)"
  by (simp_all add: decimal_defs)

lemma bench_numbers: "strtod ''10'' = (dint 10, 2)" "strtod ''2'' = (dint 2, 1)"
proof -
  have "number 10 ''10'' = 10" "list_all isdigit ''10''" "number 10 ''2'' = 2" "list_all isdigit ''2''" by code_simp+
  then show "strtod ''10'' = (dint 10, 2)" "strtod ''2'' = (dint 2, 1)"
    using strtod_digits [of "''10''"] strtod_digits [of "''2''"] by (simp_all only: list.size of_nat_numeral) auto
qed

lemma rate_ok_unit:
  assumes "1 \<le> k" and "k \<le> 2 ^ 31"
  shows "rate_ok (to_double False (1 / of_nat k))"
proof -
  note q = quotient_error [OF assms, of 1]
  have "rnd (1 / of_nat k :: rat) \<le> rnd 1" using assms by (intro rnd_mono) simp
  then show ?thesis using q rnd_of_int [of 1] dint_exact [of 1] by (simp add: rate_ok_def dpos0_def dle_def)
qed

section \<open>The lines of the benchmark\<close>

definition statsd_bench_lines :: "string list" where
  \<comment> \<open>counters without and with tags, a sampled timer, two sampled histograms\<close>
  "statsd_bench_lines =
    [''counter.name:0.001|c'',
     ''counter.name:10|c|#system-agent,country=ar'',
     ''timer.name:2|ms|@0.1|#system-agent,country=ar'',
     ''hist.name:2|h|@0.1|#system-agent,country=ar'',
     ''hist.name:2|h|@0.01|#system-agent,country=ar'']"

primrec statsd_bench :: "nat \<Rightarrow> 'd absl_time \<Rightarrow> int \<Rightarrow> string \<Rightarrow> 'd server \<Rightarrow> 'd server option" where
  \<comment> \<open>the loop of a benchmark: one line, parsed as a buffer of its own a number of times\<close>
  "statsd_bench 0 A now line S = Some S"
| "statsd_bench (Suc n) A now line S = (case parse_statsd A now (line @ [NUL]) S of
     None \<Rightarrow> None
   | Some (S1, err_msg) \<Rightarrow> statsd_bench n A now line S1)"

definition bench_id :: "string \<Rightarrow> meter_id" where
  "bench_id name = \<lparr>id_name = name, id_tags = [(''country_ar'', ''1''), (''system-agent'', ''1'')]\<rparr>"

lemma bench_tags: "id_of name (intern_tags [(''system-agent'', ''1''), (''country=ar'', ''1'')]) =
   \<lparr>id_name = sanitize name, id_tags = [(''country_ar'', ''1''), (''system-agent'', ''1'')]\<rparr>"
proof -
  have "intern_tags [(''system-agent'', ''1''), (''country=ar'', ''1'')] = [(''country_ar'', ''1''), (''system-agent'', ''1'')]"
    by code_simp
  then show ?thesis by (simp add: id_of_def)
qed

text \<open>
  The tags of the benchmark lines are written with the equals sign of another protocol: each line is accepted, and
  \<open>country=ar\<close> becomes a key \<open>country_ar\<close> with the value 1.
\<close>

lemma statsd_bench_lines_are_read:
  "map (\<lambda>l. statsd_parse (l @ [NUL])) statsd_bench_lines = map (Some \<circ> Inr)
    [(S_Counter, \<lparr>id_name = ''counter.name'', id_tags = []\<rparr>, to_double False (1 / 1000), dint 1),
     (S_Counter, bench_id ''counter.name'', dint 10, dint 1),
     (S_Timing, bench_id ''timer.name'', dint 2, to_double False (1 / 10)),
     (S_Histogram, bench_id ''hist.name'', dint 2, to_double False (1 / 10)),
     (S_Histogram, bench_id ''hist.name'', dint 2, to_double False (1 / 100))]"
proof -
  let ?ts = "[(''system-agent'', None), (''country=ar'', None)] :: statsd_tag list"
  have n: "number_text ''2''" "number_text ''10''" "number_text ''0.1''" "number_text ''0.01''" "number_text ''0.001''"
    by (simp_all add: number_text_def bench_numbers bench_rates NUL_def)
  have t: "list_all statsd_tag_ok ?ts" by (simp add: statsd_tag_ok_def part_ok_def NUL_def)
  have ids: "id_of name (intern_tags [(''system-agent'', tag_value None), (''country=ar'', tag_value None)]) = bench_id name"
    if "sanitize name = name" for name
    using that by (simp add: tag_value_def bench_id_def bench_tags)
  have s: "sanitize ''counter.name'' = ''counter.name''" "sanitize ''timer.name'' = ''timer.name''"
    "sanitize ''hist.name'' = ''hist.name''" by code_simp+
  have p: "statsd_parse (statsd_text name x ty rate ts @ [NUL]) = Some (Inr (ty,
    id_of name (intern_tags (map (\<lambda>t. (fst t, tag_value (snd t))) ts)), fst (strtod x),
    case rate of None \<Rightarrow> dint 1 | Some r \<Rightarrow> fst (strtod r)))"
    if "list_all (\<lambda>c. c \<noteq> CHR '':'' \<and> c \<noteq> NUL) name" and "name \<noteq> []" and "number_text x" and "ts = [] \<or> ts = ?ts"
      and "rate = None \<or> rate = Some ''0.1'' \<or> rate = Some ''0.01''" for name x ty rate ts
  proof (rule statsd_parse_text)
    show "number_text r \<and> rate_ok (fst (strtod r))" if "rate = Some r" for r
      using that \<open>rate = None \<or> _\<close> n rate_ok_unit [of 10] rate_ok_unit [of 100] by (auto simp: bench_rates)
    show "list_all statsd_tag_ok ts" using t \<open>ts = [] \<or> _\<close> by auto
  qed (use that in \<open>auto simp: list_all_iff\<close>)
  let ?line = "\<lambda>name txt ty rate ts. statsd_text name txt ty rate ts"
  have l: "statsd_bench_lines = [?line ''counter.name'' ''0.001'' S_Counter None [], ?line ''counter.name'' ''10'' S_Counter None ?ts,
      ?line ''timer.name'' ''2'' S_Timing (Some ''0.1'') ?ts, ?line ''hist.name'' ''2'' S_Histogram (Some ''0.1'') ?ts,
      ?line ''hist.name'' ''2'' S_Histogram (Some ''0.01'') ?ts]"
    by (simp add: statsd_bench_lines_def statsd_text_def statsd_tag_text_def type_text_def)
  have c: "list_all (\<lambda>c. c \<noteq> CHR '':'' \<and> c \<noteq> NUL) ''counter.name''" "list_all (\<lambda>c. c \<noteq> CHR '':'' \<and> c \<noteq> NUL) ''timer.name''"
    "list_all (\<lambda>c. c \<noteq> CHR '':'' \<and> c \<noteq> NUL) ''hist.name''" by (simp_all add: NUL_def)
  have e: "id_of ''counter.name'' (intern_tags []) = \<lparr>id_name = ''counter.name'', id_tags = []\<rparr>"
    using s by (simp add: id_of_def intern_tags_fold)
  note none = disjI1 [OF refl] and some = disjI2 [OF refl] and tenth = disjI2 [OF disjI1 [OF refl]]
    and hundredth = disjI2 [OF disjI2 [OF refl]]
  note P = p [OF c(1) list.distinct(2) n(5) none none] p [OF c(1) list.distinct(2) n(2) some none]
    p [OF c(2) list.distinct(2) n(1) some tenth] p [OF c(3) list.distinct(2) n(1) some tenth]
    p [OF c(3) list.distinct(2) n(1) some hundredth]
  show ?thesis
    by (simp only: l list.map P e s [THEN ids] bench_numbers bench_rates option.case prod.sel comp_def of_nat_numeral)
qed

section \<open>Properties\<close>

text \<open>
  C6. The statsd parser implements its grammar: a line with any name, any number, each of the five types, an optional
  sampling rate the code accepts (in (0, 1], or NaN) and any list of tags, with or without values, is parsed back to exactly these, whatever the
  memory after its terminator holds: the registry is updated once, for the sanitised name with the sanitised tags (the
  last of a key winning, a missing value being 1), with the number and the rate that were printed.
\<close>

theorem statsd_round_trip:
  assumes "name \<noteq> []" and "CHR '':'' \<notin> set name" and "NUL \<notin> set name" and "number_text txt"
    and "list_all statsd_tag_ok ts" and "\<And>r. rate = Some r \<Longrightarrow> number_text r \<and> rate_ok (fst (strtod r))"
  shows "parse_statsd_line A now (statsd_text name txt ty rate ts @ NUL # w) S =
    map_option (\<lambda>R. (S\<lparr>sv_registry := R\<rparr>, None)) (update_statsd_metric A now ty
      (id_of name (intern_tags (map (\<lambda>t. (fst t, tag_value (snd t))) ts))) (fst (strtod txt))
      (case rate of None \<Rightarrow> dint 1 | Some r \<Rightarrow> fst (strtod r)) (sv_registry S))"
  by (simp add: parse_statsd_line_def statsd_parse_text [OF assms] split: option.split)

theorem statsd_round_trip_witness:
  "parse_statsd_line ns_durations 5 (''hist.name:2|h|@0.1|#system-agent,country=ar'' @ NUL # ''old'') sample_server =
   map_option (\<lambda>R. (sample_server\<lparr>sv_registry := R\<rparr>, None)) (update_statsd_metric ns_durations 5 S_Histogram
      (id_of ''hist.name'' (intern_tags [(''system-agent'', ''1''), (''country=ar'', ''1'')])) (dint 2) (to_double False (1 / 10))
      (sv_registry sample_server))"
proof -
  have n: "number_text ''2''" "number_text ''0.1''" by (simp_all add: number_text_def bench_numbers bench_rates NUL_def)
  have t: "list_all statsd_tag_ok [(''system-agent'', None), (''country=ar'', None)]"
    by (simp add: statsd_tag_ok_def part_ok_def NUL_def)
  have r: "number_text r \<and> rate_ok (fst (strtod r))" if "Some ''0.1'' = Some r" for r
    using that n(2) rate_ok_unit [of 10] by (auto simp: bench_rates)
  have x: "statsd_text ''hist.name'' ''2'' S_Histogram (Some ''0.1'') [(''system-agent'', None), (''country=ar'', None)] =
      ''hist.name:2|h|@0.1|#system-agent,country=ar''"
    by (simp add: statsd_text_def statsd_tag_text_def type_text_def)
  have "CHR '':'' \<notin> set ''hist.name''" "NUL \<notin> set ''hist.name''" by (simp_all add: NUL_def)
  from statsd_round_trip [where rate = "Some ''0.1''" and A = ns_durations and now = 5 and ty = S_Histogram and w = "''old''"
      and S = sample_server, OF list.distinct(2) this n(1) t r]
  show ?thesis by (simp only: x bench_numbers bench_rates tag_value_def list.map prod.sel option.case of_nat_numeral)
qed

text \<open>
  C13. Sampling is made up for: when a client sends one of \<open>k\<close> events with the rate \<open>1 / k\<close> (as the nearest double),
  a histogram line records its value, whatever it is, exactly \<open>k\<close> times, for every \<open>k\<close> from 1 below 2^31; so does a
  timer line whose nanoseconds fit an \<open>int64_t\<close> (a timer line whose nanoseconds do not is undefined, sampled or not); and a
  counter line of \<open>n\<close>, from 1 to 2^53, adds \<open>n * k\<close> up to a relative error of 2^-51.
\<close>

theorem sampling_is_made_up_for:
  assumes "1 \<le> k" and "k < 2 ^ 31" and "rate = to_double False (1 / of_nat k)"
  shows "update_statsd_metric A now S_Histogram i v rate R =
      (let (r, R1) = get_dist_summary now i R in Some (update_dist r (dist_summary_record now v ^^ k) R1)) \<and>
    update_statsd_metric A now S_Timing i v rate R = (case dbl_lround (dmul v (dint 1000000)) of
        None \<Rightarrow> None
      | Some ns \<Rightarrow> let (r, R1) = get_timer now i R in Some (update_timer r (timer_record A now (ab_nanos A ns) ^^ k) R1)) \<and>
    (\<forall>n. 1 \<le> n \<and> n \<le> 2 ^ 53 \<longrightarrow> (\<exists>q. update_statsd_metric A now S_Counter i (dint (int n)) rate R =
        (let (r, R1) = get_counter now i R in Some (update_counter r (counter_add now (Fin q)) R1)) \<and>
      \<bar>q - of_nat (n * k)\<bar> \<le> of_nat (n * k) / 2 ^ 51))"
proof -
  have k: "k \<le> 2 ^ 31" "int k \<le> int_max" using assms(2) by (simp_all add: int_max_def)
  have l: "dbl_lround (ddiv (dint 1) rate) = Some (int k)" using sampled_count [OF assms(1,2)] by (simp add: assms(3))
  have "\<exists>q. update_statsd_metric A now S_Counter i (dint (int n)) rate R =
        (let (r, R1) = get_counter now i R in Some (update_counter r (counter_add now (Fin q)) R1)) \<and>
      \<bar>q - of_nat (n * k)\<bar> \<le> of_nat (n * k) / 2 ^ 51" if "1 \<le> n" "n \<le> 2 ^ 53" for n
  proof -
    note q = quotient_error [OF assms(1) k(1) that]
    have "ddiv (dint (int n)) rate = Fin (rnd (of_nat n / rnd (1 / of_nat k)))" using q(2,3) by (simp add: assms(3))
    then show ?thesis
      using q(4) by (intro exI [of _ "rnd (of_nat n / rnd (1 / of_nat k))"]) (simp add: update_statsd_metric_def split_beta Let_def)
  qed
  then show ?thesis
    by (simp add: update_statsd_metric_def l k(2) split_beta Let_def split: option.split)
qed

theorem sampling_is_made_up_for_witness:
  "update_statsd_metric ns_durations 5 S_Histogram (id_of ''hist.name'' []) (dint 2) (to_double False (1 / 10)) (sample_registry 1) =
      (let (r, R1) = get_dist_summary 5 (id_of ''hist.name'' []) (sample_registry 1)
       in Some (update_dist r (dist_summary_record 5 (dint 2) ^^ 10) R1)) \<and>
   (\<exists>q. update_statsd_metric ns_durations 5 S_Counter (id_of ''hist.name'' []) (dint 7) (to_double False (1 / 10)) (sample_registry 1) =
        (let (r, R1) = get_counter 5 (id_of ''hist.name'' []) (sample_registry 1)
         in Some (update_counter r (counter_add 5 (Fin q)) R1)) \<and> \<bar>q - 70\<bar> \<le> 70 / 2 ^ 51)"
proof -
  have k: "(1::nat) \<le> 10" "(10::nat) < 2 ^ 31" "to_double False (1 / 10) = to_double False (1 / of_nat 10)" by simp_all
  note sampled = sampling_is_made_up_for [OF k, of ns_durations 5 "id_of ''hist.name'' []" _ "sample_registry 1"]
  show ?thesis
    using sampled [of "dint 2", THEN conjunct1] sampled [of "dint 2", THEN conjunct2, THEN conjunct2, THEN spec, of 7] by simp
qed

end
