(* ===== verification/Handled.thy ===== *)
theory Handled
  imports ServerLaws ServerInv
begin

text \<open>
  Which datagrams are handled: the parsers of \<open>server/spectatord.cc\<close> have a defined result for every line but those
  whose value the switch of \<open>parse_line\<close> or the sampling of the statsd parser cannot convert, whatever the state
  of the daemon; and the bound this puts on the seconds of timers and age gauges.
\<close>

section \<open>Lines of the daemon's own protocol\<close>

definition line_measurement :: "cmem \<Rightarrow> (parse_error + char \<times> int \<times> meter_id \<times> union_val) option" where
  \<comment> \<open>\<open>parse_line\<close> up to its switch: the type, the number after it, the name with the tags, the value\<close>
  "line_measurement buffer =
     (case buffer of
        type # c # rest \<Rightarrow>
          (let ttl = (c = CHR '','') in
           if ttl \<and> \<not> terminated rest then None
           else
             let (extra, n) = (if ttl then strtoll rest else (0, 0));
                 idx = (if ttl then 2 + n else 1)
             in if ttl \<and> extra \<le> 0 \<and> type = CHR ''g'' then Some (Inl (Invalid_ttl 2))
                else if ttl \<and> extra \<le> 0 \<and> type = CHR ''X'' then Some (Inl (Invalid_timestamp 2))
                else case drop idx buffer of
                  [] \<Rightarrow> None
                | x # q \<Rightarrow>
                    if x \<noteq> CHR '':'' then Some (Inl (Expecting_separator idx))
                    else if \<not> terminated q then None
                    else map_option (\<lambda>r. case r of Inl e \<Rightarrow> Inl e | Inr (i, v) \<Rightarrow> Inr (type, extra, i, v))
                      (get_measurement type q))
      | _ \<Rightarrow> None)"

lemma parse_line_switch:
  "parse_line A now steady m S = (case line_measurement m of
      None \<Rightarrow> None | Some (Inl e) \<Rightarrow> Some (S, Some e)
    | Some (Inr (type, extra, i, v)) \<Rightarrow> apply_measurement A now steady type extra i v S)"
  by (simp add: parse_line_def line_measurement_def Let_def split_beta map_option_case
      split: list.splits option.splits sum.splits)

definition value_defined :: "char \<Rightarrow> int \<Rightarrow> union_val \<Rightarrow> bool" where
  \<comment> \<open>the conversions of the switch are defined\<close>
  "value_defined type extra v \<longleftrightarrow>
     (type = CHR ''A'' \<longrightarrow> deq (read_d v) dpos0 \<or> to_nanos (read_d v) \<noteq> None) \<and>
     (type = CHR ''t'' \<or> type = CHR ''T'' \<longrightarrow> to_nanos (read_d v) \<noteq> None) \<and>
     (type = CHR ''D'' \<longrightarrow> dbl_to_int64 (read_d v) \<noteq> None) \<and>
     (type = CHR ''X'' \<and> 0 < extra \<longrightarrow> in_int64 (extra * 1000 * 1000))"

lemma switch_defined: "apply_measurement A now steady type extra i v S \<noteq> None \<longleftrightarrow> value_defined type extra v"
  by (simp add: apply_measurement_def value_defined_def Let_def split_beta split: option.split)

text \<open>A line is never left: only the conversions of its value may be undefined.\<close>

lemma get_measurement_some:
  assumes "NUL \<notin> set l" and "l = [] \<or> last l \<noteq> CHR '',''"
  shows "get_measurement type (l @ [NUL]) \<noteq> None"
proof (cases "find_from comma_or_colon l 0")
  case None
  then show ?thesis using assms(1) by (simp add: get_measurement_def)
next
  case (Some p0)
  note p0 = find_from_Some [OF this]
  then have l: "last l \<noteq> CHR '',''" using assms(2) by auto
  define t where "t = (if l ! p0 = CHR '','' then tag_loop l p0 [] else Inr (p0, []))"
  have "Suc p \<le> length l" if "t = Inr (p, ts)" for p ts
    using that p0 l tag_loop_within [of l p0 "[]" p ts] by (auto simp: t_def split: if_splits)
  then have "terminated (drop (Suc p) (l @ [NUL]))" if "t = Inr (p, ts)" for p ts
    using that terminated_line by fastforce
  then show ?thesis
    using assms(1) Some by (auto simp: get_measurement_def t_def [symmetric] Let_def split_beta split: sum.split)
qed

lemma line_measurement_some:
  assumes "NUL \<notin> set l" and "within_line l"
  shows "line_measurement (l @ [NUL]) \<noteq> None"
proof -
  obtain ty l1 where l: "l = ty # l1" using assms(2) by (cases l) (auto simp: within_line_def)
  have l1: "l1 = [] \<or> last l1 \<noteq> CHR '',''" and n1: "NUL \<notin> set l1"
    using assms by (auto simp: within_line_def l split: if_splits)
  show ?thesis
  proof (cases l1)
    case Nil
    then show ?thesis by (simp add: l line_measurement_def NUL_neq)
  next
    case (Cons c l2)
    have l2: "l2 = [] \<or> last l2 \<noteq> CHR '',''" and n2: "NUL \<notin> set l2"
      using l1 n1 by (auto simp: Cons split: if_splits)
    obtain x n where xn: "strtoll (l2 @ [NUL]) = (x, n)" by fastforce
    then have n: "n \<le> length l2" using strtoll_stop(1,2) [of l2] by (metis snd_conv)
    have suffix: "get_measurement ty (u @ [NUL]) \<noteq> None" if "l2 = v @ u" for u v
    proof (rule get_measurement_some)
      show "NUL \<notin> set u" "u = [] \<or> last u \<noteq> CHR '',''" using n2 l2 that by auto
    qed
    have "get_measurement ty (l2 @ [NUL]) \<noteq> None" by (rule suffix [of "[]"]) simp
    moreover have "get_measurement ty (u @ [NUL]) \<noteq> None" if "drop n l2 = d # u" for d u
      using suffix [of "take n l2 @ [d]" u] that by (metis append.assoc append_Cons append_Nil append_take_drop_id)
    ultimately show ?thesis
      using n xn by (cases "drop n l2") (auto simp: l Cons line_measurement_def terminated_line Let_def NUL_neq)
  qed
qed

definition line_defined :: "string \<Rightarrow> bool" where
  "line_defined l = (case line_measurement (l @ [NUL]) of
     Some (Inr (type, extra, i, v)) \<Rightarrow> value_defined type extra v | _ \<Rightarrow> True)"

lemma parse_line_defined:
  assumes "NUL \<notin> set l" and "within_line l"
  shows "parse_line A now steady (l @ [NUL]) S \<noteq> None \<longleftrightarrow> line_defined l"
  using line_measurement_some [OF assms]
  by (auto simp: parse_line_switch line_defined_def switch_defined simp del: not_None_eq split: option.split sum.split)

section \<open>Lines of the statsd protocol\<close>

definition statsd_defined :: "string \<Rightarrow> bool" where
  \<comment> \<open>the number of recordings fits an \<open>int\<close>, the milliseconds of a timer are representable\<close>
  "statsd_defined l = (case statsd_parse (l @ [NUL]) of
     Some (Inr (type, i, value, rate)) \<Rightarrow>
       let k = dbl_lround (ddiv (dint 1) rate); ns = dbl_lround (dmul value (dint 1000000))
       in (type = S_Histogram \<longrightarrow> (case k of None \<Rightarrow> False | Some k \<Rightarrow> k \<le> int_max)) \<and>
          (type = S_Timing \<longrightarrow> ns \<noteq> None \<and> (case k of None \<Rightarrow> False | Some k \<Rightarrow> k \<le> int_max))
   | _ \<Rightarrow> True)"

lemma statsd_line_defined:
  assumes "NUL \<notin> set l"
  shows "parse_statsd_line A now (l @ [NUL]) S \<noteq> None \<longleftrightarrow> statsd_defined l"
proof -
  obtain t where "statsd_parse (l @ [NUL]) = Some t" using statsd_parse_local [OF assms] by blast
  then show ?thesis
    by (auto simp: parse_statsd_line_def statsd_defined_def update_statsd_metric_def Let_def split_beta
        split: option.splits sum.splits statsd_type.splits)
qed

section \<open>Buffers\<close>

lemma run_lines_defined:
  assumes "\<And>l S. l \<in> set lines \<Longrightarrow> parser (l @ [NUL]) S \<noteq> None \<longleftrightarrow> P l"
  shows "run_lines parser now lines err S \<noteq> None \<longleftrightarrow> list_all P lines"
  using assms
proof (induction lines arbitrary: err S)
  case (Cons l ls)
  have "parser (l @ [NUL]) S \<noteq> None \<longleftrightarrow> P l" by (rule Cons.prems) simp
  moreover have "run_lines parser now ls err S \<noteq> None \<longleftrightarrow> list_all P ls" for err S
    by (rule Cons.IH, rule Cons.prems) simp
  ultimately show ?case by (cases "parser (l @ [NUL]) S") (simp_all add: split_beta)
qed simp

section \<open>Seconds and nanoseconds\<close>

lemma huge_64: "2 ^ 64 < huge"
proof -
  have "(2::rat) powi 64 < 2 powi 1024" by (simp only: powi_less_iff)
  then show ?thesis by (simp only: huge_def power_int_numeral)
qed

lemma nanos_exact:
  assumes "n \<le> 4611686018"
  shows "to_nanos (dint (int n)) = Some (int n * 1000000000)"
proof (cases "n = 0")
  case True
  then show ?thesis using dint_exact [of 1000000000] by (simp add: to_nanos_def dbl_to_int64_def to_double_def)
next
  case False
  have n: "\<bar>int n\<bar> \<le> 2 ^ 53" "(of_nat n :: rat) \<le> 4611686018" using assms of_nat_mono [OF assms, where 'a = rat] by simp_all
  have "rnd (of_nat n * 1000000000) = of_nat n * 1000000000"
    by (rule rnd_exact [of _ "int n * 1953125" 9]) (use assms in \<open>simp_all add: power_int_numeral\<close>)
  moreover have "of_nat n * 1000000000 < huge" using n(2) huge_64 by simp
  ultimately have "dmul (dint (int n)) (dint 1000000000) = Fin (of_nat n * 1000000000)"
    using False dint_exact [OF n(1)] dint_exact [of 1000000000] by (simp add: to_double_def Let_def)
  moreover have "\<lfloor>of_nat n * 1000000000 :: rat\<rfloor> = int n * 1000000000"
    using floor_of_int [of "int n * 1000000000", where 'a = rat] by simp
  ultimately show ?thesis
    using assms by (simp add: to_nanos_def dbl_to_int64_def Let_def in_int64_def int64_min_def int64_max_def)
qed

lemma nanos_range:
  "to_nanos (dint (int n)) \<noteq> None \<longleftrightarrow> n \<le> 9223372036"
proof (cases "n \<le> 9223372036")
  case True
  show ?thesis
  proof (cases "n = 0")
    case True
    then show ?thesis using nanos_exact [of 0] by simp
  next
    case False
    let ?q = "rnd (of_nat n * 1000000000)"
    have n: "\<bar>int n\<bar> \<le> 2 ^ 53" "(of_nat n :: rat) \<le> 9223372036" "1 \<le> (of_nat n :: rat)"
      using True False of_nat_mono [OF True, where 'a = rat] by simp_all
    have "rnd (9223372036 * 1000000000) = 9223372036 * 1000000000"
      by (rule rnd_exact [of _ "2305843009 * 1953125" 11]) (simp_all add: power_int_numeral)
    then have "?q \<le> 9223372036000000000"
      using rnd_mono [of "of_nat n * 1000000000" "9223372036 * 1000000000"] n(2) by simp
    moreover have "1 \<le> ?q" using rnd_mono [of 1 "of_nat n * 1000000000"] rnd_of_int [of 1] n(3) by simp
    moreover from calculation have "dmul (dint (int n)) (dint 1000000000) = Fin ?q"
      using False dint_exact [OF n(1)] dint_exact [of 1000000000] huge_64 by (simp add: to_double_def Let_def)
    moreover from calculation have "0 \<le> \<lfloor>?q\<rfloor>" "\<lfloor>?q\<rfloor> \<le> 9223372036000000000" by (simp_all add: floor_le_iff)
    ultimately show ?thesis
      using True by (simp add: to_nanos_def dbl_to_int64_def Let_def in_int64_def int64_min_def int64_max_def)
  qed
next
  case False
  then have "(9223372037 :: rat) \<le> of_nat n" using of_nat_mono [of 9223372037 n, where 'a = rat] by simp
  then have p: "9223372037 \<le> rnd (of_nat n)"
    using rnd_mono [of 9223372037 "of_nat n"] rnd_of_int [of 9223372037] by simp
  let ?q = "rnd (rnd (of_nat n) * 1000000000)"
  have "rnd (2 ^ 63) = 2 ^ 63" by (rule rnd_exact [of _ 1 63]) (simp_all add: power_int_numeral)
  then have q: "2 ^ 63 \<le> ?q" using rnd_mono [of "2 ^ 63" "rnd (of_nat n) * 1000000000"] p by simp
  then have "2 ^ 63 \<le> \<lfloor>?q\<rfloor>" by (simp add: le_floor_iff)
  then show ?thesis
    using False p q dint_exact [of 1000000000]
    by (simp add: to_nanos_def dbl_to_int64_def Let_def in_int64_def int64_min_def int64_max_def dint_def [of "int n"] to_double_def)
qed

section \<open>Properties\<close>

text \<open>
  C12. Which datagrams are handled: every statsd datagram has a defined result exactly if each of its lines has, which
  depends on the text of the line alone: the number of recordings is an \<open>int\<close> and the milliseconds of a timer are
  representable, or the line is in error; what is left of earlier datagrams and the state of the daemon do not matter.
  The same holds for a datagram of the daemon's protocol that does not start with a line feed and has no line that ends
  in a comma, where the value and the number after the type must be convertible. A handled datagram, whatever it
  is, leaves the daemon well-formed. (A datagram is the text up to the first terminator.)
\<close>

theorem datagrams_are_handled:
  assumes "NUL \<notin> set s" and "server_inv S"
  shows "(list_all statsd_defined (text_lines s) \<longleftrightarrow> parse_statsd A now (s @ NUL # r) S \<noteq> None) \<and>
    (\<forall>S' errs. parse_statsd A now (s @ NUL # r) S = Some (S', errs) \<longrightarrow> server_inv S') \<and>
    (list_all (\<lambda>l. l \<noteq> [] \<and> last l \<noteq> CHR '','') (text_lines s) \<longrightarrow>
      (list_all line_defined (text_lines s) \<longleftrightarrow> parse A now steady (s @ NUL # r) S \<noteq> None)) \<and>
    (\<forall>S' errs. parse A now steady (s @ NUL # r) S = Some (S', errs) \<longrightarrow> server_inv S')"
proof (intro conjI impI allI)
  have nul: "NUL \<notin> set l" if "l \<in> set (text_lines s)" for l using text_lines_set [OF that] assms(1) by blast
  have statsd: "parse_statsd A now (s @ NUL # r) S = run_lines (parse_statsd_line A now) now (text_lines s) [] S"
    unfolding parse_statsd_def by (rule statsd.parse_lines_run [OF assms(1)]) (simp add: list_all_iff)
  show "list_all statsd_defined (text_lines s) \<longleftrightarrow> parse_statsd A now (s @ NUL # r) S \<noteq> None"
    unfolding statsd by (rule run_lines_defined [symmetric]) (rule statsd_line_defined [OF nul])
  show "server_inv S'" if "parse_statsd A now (s @ NUL # r) S = Some (S', errs)" for S' errs
    using parse_lines_keeps [OF _ assms(2)] parse_statsd_line_keeps that unfolding parse_statsd_def by blast
  show "server_inv S'" if "parse A now steady (s @ NUL # r) S = Some (S', errs)" for S' errs
    using parse_lines_keeps [OF _ assms(2)] parse_line_keeps that unfolding parse_def by blast
  assume "list_all (\<lambda>l. l \<noteq> [] \<and> last l \<noteq> CHR '','') (text_lines s)"
  then have within: "list_all within_line (text_lines s)" by (simp add: list_all_iff within_line_def)
  then have daemon: "parse A now steady (s @ NUL # r) S = run_lines (parse_line A now steady) now (text_lines s) [] S"
    unfolding parse_def by (rule daemon.parse_lines_run [OF assms(1)])
  show "list_all line_defined (text_lines s) \<longleftrightarrow> parse A now steady (s @ NUL # r) S \<noteq> None"
    unfolding daemon
  proof (rule run_lines_defined [symmetric])
    show "parse_line A now steady (l @ [NUL]) S \<noteq> None \<longleftrightarrow> line_defined l" if "l \<in> set (text_lines s)" for l S
      using that parse_line_defined [OF nul [OF that]] within by (simp add: list_all_iff)
  qed
qed

theorem datagrams_are_handled_witness:
  "parse ns_durations 5 5 (''c:a:1'' @ [CHR 0x0A, CHR 0x0A] @ ''c:b:1'' @ NUL # ''old'') sample_server \<noteq> None"
proof -
  have c: "convert_value (CHR ''c'') ''1'' = (VD (dint 1), 1)"
    using strtod_digits [of "''1''"] by (simp add: convert_value_def char_facts number_def digit_val_def)
  have "line_defined (line_text (CHR ''c'') None name [] ''1'')" if "name = ''a'' \<or> name = ''b''" for name
  proof -
    let ?l = "line_text (CHR ''c'') None name [] ''1''"
    have "name_ok name" "name \<noteq> []" "tags_ok []" "NUL \<notin> set ''1''" using that by (auto simp: name_ok_def tags_ok_def NUL_def)
    then have "parse_line ns_durations 5 5 (?l @ [NUL]) sample_server \<noteq> None"
      using parse_line_text [of name "[]" "''1''" None ns_durations 5 5 "CHR ''c''" "[]" sample_server] by (simp add: c switch_defined value_defined_def del: not_None_eq)
    moreover have "NUL \<notin> set ?l" "within_line ?l"
      using that by (auto simp: line_text_def extra_text_def within_line_def NUL_def)
    ultimately show ?thesis by (metis parse_line_defined)
  qed
  from this [of "''a''"] this [of "''b''"] have "list_all line_defined [''c:a:1'', ''c:b:1'']"
    by (simp add: line_text_def extra_text_def)
  note defined = this
  let ?s = "''c:a:1'' @ [CHR 0x0A, CHR 0x0A] @ ''c:b:1''"
  have nul: "NUL \<notin> set ?s" by (simp add: NUL_def)
  have inv: "server_inv sample_server" by (intro server_inv_new registry_inv_new)
  have lines: "text_lines ?s = [''c:a:1'', ''c:b:1'']" by code_simp
  show ?thesis
    using datagrams_are_handled [OF nul inv, of ns_durations 5 "''old''" 5] defined unfolding lines by simp
qed

text \<open>
  C14. The seconds of a timer are bounded: a line for a timer, a percentile timer or an age gauge with \<open>n\<close> whole
  seconds is handled exactly if \<open>n\<close> is at most 9223372036, the seconds an \<open>int64_t\<close> of nanoseconds holds, and no
  rounding up of the product makes it fail earlier; up to 4611686018 all three meters get exactly the nanoseconds of
  the \<open>n\<close> seconds, except that an age gauge takes 0 seconds for the current time.
\<close>

theorem seconds_are_bounded:
  assumes "name_ok name" and "name \<noteq> []" and "tags_ok tags"
  shows "let line = (\<lambda>type. line_text type None name tags (show_nat n) @ NUL # rest); i = id_of name (intern_tags tags);
      ns = int n * 1000000000
    in (type \<in> {CHR ''t'', CHR ''T'', CHR ''A''} \<longrightarrow>
      (parse_line A now steady (line type) S \<noteq> None \<longleftrightarrow> n \<le> 9223372036)) \<and>
    (n \<le> 4611686018 \<longrightarrow>
      parse_line A now steady (line (CHR ''t'')) S =
        (let (r, R) = get_timer now i (sv_registry S)
         in Some (S\<lparr>sv_registry := update_timer r (timer_record A now (ab_nanos A ns)) R\<rparr>, None)) \<and>
      parse_line A now steady (line (CHR ''T'')) S =
        (let (p, c, R) = get_or_create (create_perc_timer A now) steady i (sv_perc_timers S) (sv_registry S)
         in Some (S\<lparr>sv_registry := perc_timer_record A now (ab_nanos A ns) p R, sv_perc_timers := c\<rparr>, None)) \<and>
      parse_line A now steady (line (CHR ''A'')) S =
        (let (r, R) = get_age_gauge now i (sv_registry S)
         in Some (S\<lparr>sv_registry := update_age_gauge r (update_last_success (if n = 0 then now else ns)) R\<rparr>, None)))"
proof -
  let ?line = "\<lambda>type. line_text type None name tags (show_nat n) @ NUL # rest" and ?i = "id_of name (intern_tags tags)"
  let ?ns = "int n * 1000000000"
  have d: "show_nat n \<noteq> []" "NUL \<notin> set (show_nat n)" using show_nat_digits [of n] isdigit_facts by (auto simp: list_all_iff)
  have c: "convert_value type (show_nat n) = (VD (dint (int n)), length (show_nat n))" if "type \<noteq> CHR ''U''" for type
    using that by (simp add: convert_value_def strtod_show_nat)
  have p: "parse_line A now steady (?line type) S = apply_measurement A now steady type 0 ?i (VD (dint (int n))) S"
    if "type \<noteq> CHR ''U''" for type
    using parse_line_text [OF assms(1-3) d(2), of None A now steady type rest S] d(1) c [OF that] by simp
  have zero: "deq (dint (int n)) dpos0 \<longleftrightarrow> n = 0"
  proof
    assume z: "deq (dint (int n)) dpos0"
    show "n = 0"
    proof (rule ccontr)
      assume "n \<noteq> 0"
      then have "1 \<le> rnd (of_nat n)" using rnd_mono [of 1 "of_nat n"] rnd_of_int [of 1] by simp
      then show False using z by (simp add: dint_def to_double_def Let_def dpos0_def split: if_splits)
    qed
  qed (simp add: dint_def to_double_def Let_def dpos0_def)
  then have "value_defined type 0 (VD (dint (int n))) \<longleftrightarrow> n \<le> 9223372036" if "type \<in> {CHR ''t'', CHR ''T'', CHR ''A''}" for type
    using that nanos_range [of n] by (auto simp: value_defined_def read_d_def)
  note range = this
  have handled: "parse_line A now steady (?line type) S \<noteq> None \<longleftrightarrow> n \<le> 9223372036" if t: "type \<in> {CHR ''t'', CHR ''T'', CHR ''A''}"
  proof -
    have u: "type \<noteq> CHR ''U''" using t by auto
    show ?thesis unfolding p [OF u] switch_defined by (rule range [OF t])
  qed
  have "to_nanos (dint (int n)) = Some ?ns" if "n \<le> 4611686018" by (rule nanos_exact [OF that])
  then show ?thesis
    unfolding Let_def using handled
    by (intro conjI impI) (simp_all add: p apply_measurement_def Let_def read_d_def zero split_beta)
qed

theorem seconds_are_bounded_witness:
  "parse_line ns_durations 5 5 (''t:latency:9223372037'' @ NUL # ''old'') sample_server = None \<and>
   parse_line ns_durations 5 5 (''t:latency:9223372036'' @ NUL # ''old'') sample_server \<noteq> None \<and>
   parse_line ns_durations 5 5 (''A:latency:1700000000'' @ NUL # ''old'') sample_server =
     (let (r, R) = get_age_gauge 5 (id_of ''latency'' (intern_tags [])) (sv_registry sample_server)
      in Some (sample_server\<lparr>sv_registry := update_age_gauge r (update_last_success 1700000000000000000) R\<rparr>, None))"
proof -
  have ok: "name_ok ''latency''" "''latency'' \<noteq> []" "tags_ok []" by (simp_all add: name_ok_def tags_ok_def NUL_def)
  have "parse_line ns_durations 5 5 (line_text (CHR ''t'') None ''latency'' [] (show_nat n) @ NUL # ''old'') sample_server \<noteq> None
      \<longleftrightarrow> n \<le> 9223372036" for n
    using seconds_are_bounded [OF ok, where type = "CHR ''t''" and n = n and rest = "''old''" and S = sample_server and A = ns_durations and now = 5 and steady = 5]
    unfolding Let_def by blast
  note handled = this
  have age: "parse_line ns_durations 5 5 (line_text (CHR ''A'') None ''latency'' [] (show_nat 1700000000) @ NUL # ''old'') sample_server =
     (let (r, R) = get_age_gauge 5 (id_of ''latency'' (intern_tags [])) (sv_registry sample_server)
      in Some (sample_server\<lparr>sv_registry := update_age_gauge r (update_last_success 1700000000000000000) R\<rparr>, None))"
    using seconds_are_bounded [OF ok, where n = 1700000000 and rest = "''old''" and S = sample_server and A = ns_durations and now = 5 and steady = 5]
    unfolding Let_def by simp
  have "show_nat 9223372037 = ''9223372037''" "show_nat 9223372036 = ''9223372036''"
    "show_nat 1700000000 = ''1700000000''"
    by (simp_all add: show_nat.simps)
  then show ?thesis
    using handled [of 9223372037] handled [of 9223372036] age by (simp add: line_text_def extra_text_def del: not_None_eq)
qed

end
