(* ===== verification/SmilePayload.thy ===== *)
theory SmilePayload
  imports Publisher CompressedBuffer "HOL-Library.Monad_Syntax"
begin

text \<open>
  The payload object of \<open>spectator/smile.h\<close> over the compressed buffer, and how \<open>measurements_to_json\<close> of
  \<open>spectator/publisher.h\<close> writes a batch to it, one call of \<open>Append\<close> after the other. It refines the bytes that
  \<open>Publisher\<close> computes at once.
\<close>

section \<open>The payload object\<close>

definition payload_init :: "'z zlib \<Rightarrow> 'z zbuf \<Rightarrow> 'z zbuf option" where
  \<comment> \<open>\<open>Init\<close>: the header, then the start of the array\<close>
  "payload_init Z b = zbuf_write Z [[0x3A, 0x29, 0x0A, 0x00], [0xF8]] (zbuf_init Z b)"

definition append_size :: "'z zlib \<Rightarrow> nat \<Rightarrow> 'z zbuf \<Rightarrow> 'z zbuf option" where
  "append_size Z n b = zbuf_append Z (smile_size n) b"

definition append_int :: "'z zlib \<Rightarrow> int \<Rightarrow> 'z zbuf \<Rightarrow> 'z zbuf option" where
  "append_int Z n b = do { bs \<leftarrow> smile_int n; zbuf_append Z bs b }"

definition append_double :: "'z zlib \<Rightarrow> double \<Rightarrow> 'z zbuf \<Rightarrow> 'z zbuf option" where
  \<comment> \<open>four calls: the token, five bytes, the byte in the middle, four bytes\<close>
  "append_double Z x b =
     (let bs = smile_double x in zbuf_write Z [take 1 bs, take 5 (drop 1 bs), take 1 (drop 6 bs), drop 7 bs] b)"

definition append_string :: "'z zlib \<Rightarrow> string \<Rightarrow> 'z zbuf \<Rightarrow> 'z zbuf option" where
  "append_string Z s b =
     (if s = [] then zbuf_append Z [0x20] b
      else if length s \<le> 64 then zbuf_write Z [[byte_of (0x40 - 1 + length s)], bytes_of s] b
      else zbuf_write Z [[0xE0], bytes_of s, [0xFC]] b)"

definition payload_result :: "'z zlib \<Rightarrow> 'z zbuf \<Rightarrow> (byte list \<times> 'z zbuf) option" where
  \<comment> \<open>\<open>Result\<close>: the end of the array, then the result of the buffer\<close>
  "payload_result Z b = do { b \<leftarrow> zbuf_append Z smile_end b; zbuf_result Z b }"

section \<open>Writing a batch\<close>

primrec write_all :: "('a \<Rightarrow> 's \<Rightarrow> 's option) \<Rightarrow> 'a list \<Rightarrow> 's \<Rightarrow> 's option" where
  "write_all f [] s = Some s"
| "write_all f (x # xs) s = do { s \<leftarrow> f x s; write_all f xs s }"

definition build_str_table ::
  "'z zlib \<Rightarrow> (string list \<Rightarrow> string list) \<Rightarrow> tag_list \<Rightarrow> measurement list \<Rightarrow> 'z zbuf \<Rightarrow> (str_table \<times> 'z zbuf) option" where
  "build_str_table Z iter common ms b =
     (let strings = str_table iter common ms in do {
        b \<leftarrow> append_size Z (length strings) b;
        b \<leftarrow> write_all (append_string Z) (map fst strings) b;
        Some (strings, b)
      })"

definition append_tag :: "'z zlib \<Rightarrow> str_table \<Rightarrow> string \<times> string \<Rightarrow> 'z zbuf \<Rightarrow> 'z zbuf option" where
  "append_tag Z strings tag b = do {
     k \<leftarrow> index_of strings (fst tag);
     v \<leftarrow> index_of strings (snd tag);
     b \<leftarrow> append_int Z k b;
     append_int Z v b
   }"

definition add_tags :: "'z zlib \<Rightarrow> str_table \<Rightarrow> tag_list \<Rightarrow> 'z zbuf \<Rightarrow> 'z zbuf option" where
  "add_tags Z strings tags b = write_all (append_tag Z strings) tags b"

definition append_measurement :: "'z zlib \<Rightarrow> str_table \<Rightarrow> int list \<Rightarrow> measurement \<Rightarrow> 'z zbuf \<Rightarrow> 'z zbuf option" where
  "append_measurement Z strings common_ids m b =
     (let tags = id_tags (m_id m); total_tags = length tags + 1 + length common_ids div 2 in do {
        b \<leftarrow> append_size Z total_tags b;
        b \<leftarrow> write_all (append_int Z) common_ids b;
        b \<leftarrow> add_tags Z strings tags b;
        name_idx \<leftarrow> index_of strings r_name;
        name_value_idx \<leftarrow> index_of strings (id_name (m_id m));
        b \<leftarrow> append_int Z name_idx b;
        b \<leftarrow> append_int Z name_value_idx b;
        b \<leftarrow> append_int Z (op_num (op_from_tags tags)) b;
        append_double Z (m_value m) b
      })"

definition measurements_to_json ::
  "'z zlib \<Rightarrow> (string list \<Rightarrow> string list) \<Rightarrow> tag_list \<Rightarrow> measurement list \<Rightarrow> 'z zbuf \<Rightarrow> 'z zbuf option" where
  "measurements_to_json Z iter common ms b = do {
     b \<leftarrow> payload_init Z b;
     (strings, b) \<leftarrow> build_str_table Z iter common ms b;
     common_ids \<leftarrow> tag_indices strings common;
     write_all (append_measurement Z strings common_ids) ms b
   }"

primrec write_batches ::
  "'z zlib \<Rightarrow> (string list \<Rightarrow> string list) \<Rightarrow> tag_list \<Rightarrow> measurement list list \<Rightarrow> 'z zbuf \<Rightarrow> (byte list list \<times> 'z zbuf) option" where
  \<comment> \<open>what a sender posts for its batches, with the same buffer\<close>
  "write_batches Z iter common [] b = Some ([], b)"
| "write_batches Z iter common (ms # mss) b = do {
     b \<leftarrow> measurements_to_json Z iter common ms b;
     (r, b) \<leftarrow> payload_result Z b;
     (rs, b) \<leftarrow> write_batches Z iter common mss b;
     Some (r # rs, b)
   }"

section \<open>The buffer can be used again\<close>

lemma deflate_chunk_out: "deflate_chunk Z n finish input b = (b1, x) \<Longrightarrow> zb_chunk_out b1 = zb_chunk_out b"
  by (auto simp: deflate_chunk_def Let_def split_beta split: if_splits)

lemma compress_input_out: "compress_input Z finish input err b = Some y \<Longrightarrow> zb_chunk_out (fst y) = zb_chunk_out b"
proof (rule compress_input.raw_induct [where P = "\<lambda>Z finish input err b y. zb_chunk_out (fst y) = zb_chunk_out b"], goal_cases)
  case (1 f Z finish input err b y)
  obtain b1 input1 err1 where d: "deflate_chunk Z (zb_chunk_out b) finish input b = (b1, input1, err1)" by (metis prod_cases3)
  from 1(3) 1(2) [of Z finish input1 err1 b1 y] deflate_chunk_out [OF d] show ?case
    unfolding d by (auto split: if_splits)
qed

lemma compress_finish_out: "compress_finish Z err b = Some y \<Longrightarrow> zb_chunk_out y = zb_chunk_out b"
proof (rule compress_finish.raw_induct [where P = "\<lambda>Z err b y. zb_chunk_out y = zb_chunk_out b"], goal_cases)
  case (1 f Z err b y)
  obtain b1 input1 err1 where d: "deflate_chunk Z (zb_chunk_out b) True [] b = (b1, input1, err1)" by (metis prod_cases3)
  from 1(3) 1(2) [of Z err1 b1 y] deflate_chunk_out [OF d] show ?case
    unfolding d by (auto split: if_splits)
qed

lemma zbuf_append_out: "zbuf_append Z bs b = Some b1 \<Longrightarrow> zb_chunk_out b1 = zb_chunk_out b"
  by (auto simp: zbuf_append_def append_impl_def maybe_compress_def compress_def dest!: compress_input_out split: option.splits if_splits)

lemma zbuf_result_out: "zbuf_result Z b = Some (r, b1) \<Longrightarrow> zb_chunk_out b1 = zb_chunk_out b"
  by (auto simp: zbuf_result_def compress_def dest!: compress_input_out compress_finish_out split: option.splits if_splits)

section \<open>Writers\<close>

text \<open>A writer adds its bytes to the contents of a buffer in use, whatever it holds, and keeps the size of its chunks.\<close>

definition writes :: "'z zlib \<Rightarrow> ('z zbuf \<Rightarrow> 'z zbuf option) \<Rightarrow> byte list \<Rightarrow> bool" where
  "writes Z f bs \<longleftrightarrow> (\<forall>b. zbuf_inv Z b \<and> zb_init b \<longrightarrow>
     (\<exists>b'. f b = Some b' \<and> (zbuf_inv Z b' \<and> zb_init b') \<and> zbuf_contents Z b' = zbuf_contents Z b @ bs \<and>
       zb_chunk_out b' = zb_chunk_out b))"

lemma writesE:
  assumes "writes Z f bs" and "zbuf_inv Z b \<and> zb_init b"
  obtains b' where "f b = Some b'" "zbuf_inv Z b' \<and> zb_init b'" "zbuf_contents Z b' = zbuf_contents Z b @ bs"
    "zb_chunk_out b' = zb_chunk_out b"
  using assms unfolding writes_def by blast

lemma writes_append [intro]: "writes Z (zbuf_append Z bs) bs"
  using zbuf.put_ok [of Z] zbuf_append_out unfolding writes_def by metis

lemma writes_nothing [intro]: "writes Z Some []"
  by (simp add: writes_def)

lemma writes_bind [intro]:
  assumes "writes Z f xs" and "writes Z g ys"
  shows "writes Z (\<lambda>b. Option.bind (f b) g) (xs @ ys)"
  unfolding writes_def
proof (intro allI impI)
  fix b :: "'a zbuf"
  assume b: "zbuf_inv Z b \<and> zb_init b"
  obtain b1 where b1: "f b = Some b1" "zbuf_inv Z b1 \<and> zb_init b1" "zbuf_contents Z b1 = zbuf_contents Z b @ xs"
    "zb_chunk_out b1 = zb_chunk_out b" by (rule writesE [OF assms(1) b])
  obtain b2 where "g b1 = Some b2" "zbuf_inv Z b2 \<and> zb_init b2" "zbuf_contents Z b2 = zbuf_contents Z b1 @ ys"
    "zb_chunk_out b2 = zb_chunk_out b1" by (rule writesE [OF assms(2) b1(2)])
  then show "\<exists>b'. Option.bind (f b) g = Some b' \<and> (zbuf_inv Z b' \<and> zb_init b') \<and> zbuf_contents Z b' = zbuf_contents Z b @ xs @ ys \<and>
      zb_chunk_out b' = zb_chunk_out b"
    using b1 by simp
qed

lemma writes_pieces: "concat bss = bs \<Longrightarrow> writes Z (zbuf_write Z bss) bs"
proof (induction bss arbitrary: bs)
  case Nil
  then show ?case by (simp add: writes_def)
next
  case (Cons x bss)
  have "writes Z (\<lambda>b. Option.bind (zbuf_append Z x b) (zbuf_write Z bss)) (x @ concat bss)"
    by (intro writes_bind writes_append Cons.IH refl)
  moreover have "(\<lambda>b. Option.bind (zbuf_append Z x b) (zbuf_write Z bss)) = zbuf_write Z (x # bss)"
    by (auto simp: fun_eq_iff split: option.split bind_split)
  ultimately show ?case using Cons.prems by (simp del: zbuf_write.simps)
qed

lemma writes_all:
  "(\<And>x. x \<in> set xs \<Longrightarrow> writes Z (f x) (enc x)) \<Longrightarrow> writes Z (write_all f xs) (concat (map enc xs))"
proof (induction xs)
  case Nil
  then show ?case by (simp add: writes_def)
next
  case (Cons x xs)
  have "writes Z (\<lambda>b. Option.bind (f x b) (write_all f xs)) (enc x @ concat (map enc xs))"
    by (intro writes_bind Cons.IH) (simp_all add: Cons.prems)
  then show ?case by (simp add: fun_eq_iff [symmetric])
qed

lemma writes_size: "writes Z (append_size Z n) (smile_size n)"
  by (simp add: append_size_def [abs_def] writes_append)

lemma writes_int: "smile_int n = Some bs \<Longrightarrow> writes Z (append_int Z n) bs"
  by (simp add: append_int_def [abs_def] writes_append)

lemma writes_double: "writes Z (append_double Z x) (smile_double x)"
proof -
  have "concat [take 1 bs, take 5 (drop 1 bs), take 1 (drop 6 bs), drop 7 bs] = bs" for bs :: "byte list"
    using append_take_drop_id [of 1 bs] append_take_drop_id [of 5 "drop 1 bs"] append_take_drop_id [of 1 "drop 6 bs"]
    by simp
  then show ?thesis unfolding append_double_def [abs_def] Let_def by (rule writes_pieces)
qed

lemma writes_string: "writes Z (append_string Z s) (smile_string s)"
  unfolding append_string_def [abs_def] smile_string_def
  by (cases "s = []"; cases "length s \<le> 64") (simp_all add: writes_pieces writes_append del: zbuf_write.simps)

lemma writes_ints: "ints_bytes is = Some bs \<Longrightarrow> writes Z (write_all (append_int Z) is) bs"
proof (induction "is" arbitrary: bs)
  case Nil
  then show ?case by (simp add: writes_def)
next
  case (Cons i "is")
  then obtain x xs where x: "smile_int i = Some x" "ints_bytes is = Some xs" "bs = x @ xs"
    by (auto split: option.splits)
  have "writes Z (\<lambda>b. Option.bind (append_int Z i b) (write_all (append_int Z) is)) (x @ xs)"
    by (intro writes_bind writes_int Cons.IH x)
  then show ?case by (simp add: x(3) fun_eq_iff [symmetric])
qed

lemma writes_tags:
  "tag_indices strings tags = Some is \<Longrightarrow> ints_bytes is = Some bs \<Longrightarrow> writes Z (add_tags Z strings tags) bs"
proof (induction tags arbitrary: "is" bs)
  case Nil
  then show ?case by (simp add: writes_def add_tags_def)
next
  case (Cons t tags)
  then obtain k v js where i: "index_of strings (fst t) = Some k" "index_of strings (snd t) = Some v"
    "tag_indices strings tags = Some js" "is = k # v # js" by (auto split: option.splits)
  with Cons.prems(2) obtain kb vb xs where x: "smile_int k = Some kb" "smile_int v = Some vb" "ints_bytes js = Some xs"
    "bs = (kb @ vb) @ xs" by (auto split: option.splits)
  have "writes Z (append_tag Z strings t) (kb @ vb)"
    unfolding append_tag_def [abs_def] i Option.bind.simps by (intro writes_bind writes_int x)
  then have "writes Z (\<lambda>b. Option.bind (append_tag Z strings t b) (add_tags Z strings tags)) ((kb @ vb) @ xs)"
    by (intro writes_bind Cons.IH [OF i(3) x(3)])
  then show ?case by (simp add: x(4) add_tags_def [abs_def] fun_eq_iff [symmetric])
qed

lemma writes_measurement:
  assumes "measurement_bytes strings common_ids m = Some bs"
  shows "writes Z (append_measurement Z strings common_ids m) bs"
proof -
  let ?tags = "id_tags (m_id m)" and ?op = "op_num (op_from_tags (id_tags (m_id m)))"
  obtain cb ids ni vi ob tb nb vb where x: "ints_bytes common_ids = Some cb" "tag_indices strings ?tags = Some ids"
    "index_of strings r_name = Some ni" "index_of strings (id_name (m_id m)) = Some vi" "smile_int ?op = Some ob"
    "ints_bytes ids = Some tb" "smile_int ni = Some nb" "smile_int vi = Some vb"
    "bs = smile_size (length ?tags + 1 + length common_ids div 2) @ cb @ tb @ nb @ vb @ ob @ smile_double (m_value m)"
    using assms by (auto simp: measurement_bytes_def Let_def split: option.splits)
  show ?thesis
    unfolding append_measurement_def [abs_def] Let_def x(3,4,9) Option.bind.simps
    by (intro writes_bind writes_size writes_ints writes_tags [OF x(2,6)] writes_int writes_double x(1,5,7,8))
qed

lemma writes_measurements:
  "measurements_bytes strings common_ids ms = Some bs \<Longrightarrow> writes Z (write_all (append_measurement Z strings common_ids) ms) bs"
proof (induction ms arbitrary: bs)
  case Nil
  then show ?case by (simp add: writes_def)
next
  case (Cons m ms)
  then obtain x xs where x: "measurement_bytes strings common_ids m = Some x" "measurements_bytes strings common_ids ms = Some xs"
    "bs = x @ xs" by (auto split: option.splits)
  have "writes Z (\<lambda>b. Option.bind (append_measurement Z strings common_ids m b) (write_all (append_measurement Z strings common_ids) ms)) (x @ xs)"
    by (intro writes_bind writes_measurement Cons.IH x)
  then show ?case by (simp add: x(3) fun_eq_iff [symmetric])
qed

section \<open>A batch\<close>

lemma writes_batch:
  assumes "zlib_laws Z" and "2 \<le> zb_chunk_out b" and "payload_bytes iter common ms = Some bs"
  obtains b1 where "measurements_to_json Z iter common ms b = Some b1" "zbuf_inv Z b1 \<and> zb_init b1"
    "zbuf_contents Z b1 @ smile_end = bs" "zb_chunk_out b1 = zb_chunk_out b"
proof -
  let ?tab = "str_table iter common ms"
  obtain ids xs where x: "tag_indices ?tab common = Some ids" "measurements_bytes ?tab ids ms = Some xs"
    "bs = smile_header @ table_bytes ?tab @ xs @ smile_end"
    using assms(3) by (auto simp: payload_bytes_def Let_def split: option.splits)
  let ?w = "\<lambda>b. Option.bind (zbuf_write Z [[0x3A, 0x29, 0x0A, 0x00], [0xF8]] b) (\<lambda>b. Option.bind (append_size Z (length ?tab) b)
      (\<lambda>b. Option.bind (write_all (append_string Z) (map fst ?tab) b) (write_all (append_measurement Z ?tab ids) ms)))"
  have "writes Z ?w (smile_header @ smile_size (length ?tab) @ concat (map smile_string (map fst ?tab)) @ xs)"
    by (intro writes_bind writes_pieces writes_size writes_all writes_string writes_measurements x) (simp add: smile_header_def)
  moreover have "smile_size (length ?tab) @ concat (map smile_string (map fst ?tab)) = table_bytes ?tab"
    by (simp add: table_bytes_def comp_def)
  ultimately have w: "writes Z ?w (smile_header @ table_bytes ?tab @ xs)" by (metis append.assoc)
  obtain b1 where b1: "?w (zbuf_init Z b) = Some b1" "zbuf_inv Z b1 \<and> zb_init b1"
    "zbuf_contents Z b1 = zbuf_contents Z (zbuf_init Z b) @ smile_header @ table_bytes ?tab @ xs"
    "zb_chunk_out b1 = zb_chunk_out (zbuf_init Z b)" using zbuf_inv_init [OF assms(1,2)] by (elim conjE) (rule writesE [OF w], auto)
  have "measurements_to_json Z iter common ms b = ?w (zbuf_init Z b)"
    using x(1) by (simp add: measurements_to_json_def payload_init_def build_str_table_def Let_def Option.bind_assoc
        del: zbuf_write.simps cong: Option.bind_cong)
  moreover have "zb_chunk_out (zbuf_init Z b) = zb_chunk_out b" by (simp add: zbuf_init_def)
  moreover have "zbuf_contents Z b1 @ smile_end = bs" using b1(3) zbuf_inv_init [OF assms(1,2)] x(3) by simp
  ultimately show thesis using b1(1,2,4) by (intro that [of b1]) simp_all
qed

section \<open>Properties\<close>

text \<open>
  C3. What is posted is what was measured: a sender that writes its batches one after the other into its payload object never
  fails an assertion, and what it posts for each batch decompresses to the bytes of the payload, from which the reader
  recovers the measurements, with the common tags, their operation and their value, exactly and in order; the
  chunks in which the buffer compresses and what it held before do not matter.
\<close>

theorem posted_bytes_are_the_measurements:
  assumes "zlib_laws Z" and "2 \<le> zb_chunk_out b" and "iter_laws iter" and "list_all (payload_ok iter common) mss"
  shows "\<exists>rs b'. write_batches Z iter common mss b = Some (rs, b') \<and> zb_chunk_out b' = zb_chunk_out b \<and>
    map (zl_inflate Z) rs = map (payload_bytes iter common) mss \<and>
    map (\<lambda>r. Option.bind (zl_inflate Z r) read_payload) rs = map (\<lambda>ms. Some (map (published common) ms)) mss"
  using assms(2,4)
proof (induction mss arbitrary: b)
  case Nil
  then show ?case by simp
next
  case (Cons ms mss)
  have "payload_ok iter common ms" using Cons.prems(2) by simp
  from payload_read [OF assms(3) this] obtain bs where bs: "payload_bytes iter common ms = Some bs"
    "read_payload bs = Some (map (published common) ms)" by blast
  obtain b1 where b1: "measurements_to_json Z iter common ms b = Some b1" "zbuf_inv Z b1 \<and> zb_init b1"
    "zbuf_contents Z b1 @ smile_end = bs" "zb_chunk_out b1 = zb_chunk_out b"
    by (rule writes_batch [OF assms(1) Cons.prems(1) bs(1)])
  obtain b2 where b2: "zbuf_append Z smile_end b1 = Some b2" "zbuf_inv Z b2 \<and> zb_init b2" "zbuf_contents Z b2 = bs"
    using writesE [OF writes_append b1(2)] b1(3) by metis
  obtain r b3 where r: "zbuf_result Z b2 = Some (r, b3)" "zl_inflate Z r = Some bs" using zbuf_result_ok [of Z b2] b2(2,3) by auto
  have out: "zb_chunk_out b3 = zb_chunk_out b" using zbuf_append_out [OF b2(1)] zbuf_result_out [OF r(1)] b1(4) by simp
  obtain rs b4 where rs: "write_batches Z iter common mss b3 = Some (rs, b4)" "zb_chunk_out b4 = zb_chunk_out b3"
    "map (zl_inflate Z) rs = map (payload_bytes iter common) mss"
    "map (\<lambda>r. Option.bind (zl_inflate Z r) read_payload) rs = map (\<lambda>ms. Some (map (published common) ms)) mss"
    using Cons.IH [of b3] Cons.prems out by auto
  then show ?case using b1(1) b2(1) r bs out by (simp add: payload_result_def)
qed

theorem posted_bytes_are_the_measurements_witness:
  "\<exists>rs b'. write_batches stored remdups [] [[measured \<lparr>id_name = ''a'', id_tags = []\<rparr> (dint 1)], []] (new_zbuf stored 1 0 2) = Some (rs, b') \<and>
    map (\<lambda>r. Option.bind (zl_inflate stored r) read_payload) rs = [Some [([(''name'', ''a'')], Op_Max, dint 1)], Some []]"
proof -
  have iter: "iter_laws remdups" by (simp add: iter_laws_def)
  have "sane ''name'' \<and> sane ''a''" by code_simp
  then have ok: "list_all (payload_ok remdups []) [[measured \<lparr>id_name = ''a'', id_tags = []\<rparr> (dint 1)], []]"
    by (simp add: payload_ok_def payload_strings_def r_name_def dint_def)
  have "op_from_tags [] = Op_Max" by code_simp
  then show ?thesis
    using posted_bytes_are_the_measurements [OF stored_laws, of "new_zbuf stored 1 0 2", OF _ iter ok]
    by (auto simp: new_zbuf_def published_def r_name_def)
qed

end
