(* ===== verification/TestSupport.thy ===== *)
theory TestSupport
  imports Publisher
begin

text \<open>
  What the tests see of the meters: the texts of tags, identities and measurements (the formatters of \<open>spectator/tags.h\<close>,
  \<open>spectator/id.h\<close> and \<open>spectator/measurement.h\<close>), the comparison of measurements, the accessors of the registry
  by kind and the helpers of \<open>spectator/test_utils.h\<close> and \<open>spectator/test_utils.cc\<close>.
\<close>

section \<open>Texts\<close>

definition format_tag :: "string \<times> string \<Rightarrow> string" where
  "format_tag t = fst t @ ''->'' @ snd t"

definition format_id :: "(string list \<Rightarrow> string) \<Rightarrow> meter_id \<Rightarrow> string" where
  \<comment> \<open>\<open>fmt_range\<close>: how the library prints a range of elements that are printed already\<close>
  "format_id fmt_range i = ''Id('' @ id_name i @ '', '' @ fmt_range (map format_tag (id_tags i)) @ '')''"

definition format_measurement :: "(string list \<Rightarrow> string) \<Rightarrow> (double \<Rightarrow> string) \<Rightarrow> measurement \<Rightarrow> string" where
  "format_measurement fmt_range fmt_double m =
     ''Measurement{'' @ format_id fmt_range (m_id m) @ '', '' @ fmt_double (m_value m) @ ''}''"

definition id_to_string :: "meter_id \<Rightarrow> string" where
  \<comment> \<open>\<open>std::map\<close> sorts the tags by their keys\<close>
  "id_to_string i = (let sorted_tags = fold (\<lambda>kv. tag_put (fst kv) (snd kv)) (id_tags i) []
     in foldl (\<lambda>res pair. res @ CHR ''|'' # fst pair @ CHR ''='' # snd pair) (id_name i) sorted_tags)"

section \<open>Measurements\<close>

definition dabs :: "double \<Rightarrow> double" where
  \<comment> \<open>\<open>std::abs\<close>\<close>
  "dabs x = (case x of NaN \<Rightarrow> NaN | Inf s \<Rightarrow> Inf False | Zero s \<Rightarrow> Zero False | Fin q \<Rightarrow> Fin \<bar>q\<bar>)"

definition eq_measurement :: "measurement \<Rightarrow> measurement \<Rightarrow> bool" where
  "eq_measurement m other \<longleftrightarrow>
     dlt (dabs (dsub (m_value m) (m_value other))) (to_double False (1 / 10 ^ 9)) \<and> m_id m = m_id other"

definition measurements_to_map :: "measurement list \<Rightarrow> string \<rightharpoonup> double" where
  "measurements_to_map measurements = fold (\<lambda>m res. res(id_to_string (m_id m) \<mapsto> m_value m)) measurements Map.empty"

section \<open>Meters by kind\<close>

definition age_gauges :: "'d registry \<Rightarrow> age_gauge list" where "age_gauges R = mm_get_values (am_age_gauges (rg_meters R))"
definition counters :: "'d registry \<Rightarrow> counter list" where "counters R = mm_get_values (am_counters (rg_meters R))"
definition dist_summaries :: "'d registry \<Rightarrow> dist_summary list" where "dist_summaries R = mm_get_values (am_dist_sums (rg_meters R))"
definition gauges :: "'d registry \<Rightarrow> gauge list" where "gauges R = mm_get_values (am_gauges (rg_meters R))"
definition max_gauges :: "'d registry \<Rightarrow> max_gauge list" where "max_gauges R = mm_get_values (am_max_gauges (rg_meters R))"
definition mono_counters :: "'d registry \<Rightarrow> mono_counter list" where "mono_counters R = mm_get_values (am_mono_counters (rg_meters R))"
definition mono_counters_uint :: "'d registry \<Rightarrow> mono_uint list" where "mono_counters_uint R = mm_get_values (am_mono_counters_uint (rg_meters R))"
definition timers :: "'d registry \<Rightarrow> timer list" where "timers R = mm_get_values (am_timers (rg_meters R))"

definition filter_my_meters :: "'x meter_scheme list \<Rightarrow> 'x meter_scheme list" where
  \<comment> \<open>the meters that are not the library's own\<close>
  "filter_my_meters source = filter (\<lambda>t. take 10 (id_name (mt_id t)) \<noteq> ''spectator.'') source"

definition my_meters_size :: "'d registry \<Rightarrow> nat" where
  "my_meters_size R = length (filter_my_meters (timers R)) + length (filter_my_meters (counters R)) +
     length (filter_my_meters (gauges R)) + length (filter_my_meters (age_gauges R)) +
     length (filter_my_meters (max_gauges R)) + length (filter_my_meters (dist_summaries R)) +
     length (filter_my_meters (mono_counters R))"

section \<open>Laws\<close>

lemma stop_unique:
  assumes "a @ x = b @ y" and "c \<notin> set a" and "c \<notin> set b" and "x = [] \<or> hd x = c" and "y = [] \<or> hd y = c"
  shows "a = b \<and> x = y"
  using assms
proof (induction a arbitrary: b)
  case Nil
  then show ?case by (cases b) auto
next
  case (Cons d a)
  then show ?case by (cases b) auto
qed

definition tag_piece :: "string \<times> string \<Rightarrow> string" where
  "tag_piece t = CHR ''|'' # fst t @ CHR ''='' # snd t"

definition clean :: "string \<Rightarrow> bool" where
  "clean s \<longleftrightarrow> CHR ''|'' \<notin> set s \<and> CHR ''='' \<notin> set s"

lemma sanitize_clean: "sanitize s = s \<Longrightarrow> clean s"
proof -
  have "CHR ''|'' \<notin> insert (CHR ''_'') (set allowed_chars)" "CHR ''='' \<notin> insert (CHR ''_'') (set allowed_chars)" by code_simp+
  then show "sanitize s = s \<Longrightarrow> clean s" unfolding sanitize_id_iff clean_def by blast
qed

lemma pieces_inj:
  assumes "\<forall>t \<in> set ts. clean (fst t) \<and> clean (snd t)" and "\<forall>t \<in> set us. clean (fst t) \<and> clean (snd t)"
    and "concat (map tag_piece ts) = concat (map tag_piece us)"
  shows "ts = us"
  using assms
proof (induction ts arbitrary: us)
  case Nil
  then show ?case by (cases us) (simp_all add: tag_piece_def)
next
  case (Cons t ts)
  then obtain u vs where us: "us = u # vs" by (cases us) (simp_all add: tag_piece_def)
  have "(fst t @ CHR ''='' # snd t) @ concat (map tag_piece ts) = (fst u @ CHR ''='' # snd u) @ concat (map tag_piece vs)"
    using Cons.prems(3) by (simp add: us tag_piece_def [of t] tag_piece_def [of u])
  moreover have "concat (map tag_piece l) = [] \<or> hd (concat (map tag_piece l)) = CHR ''|''" for l
    by (cases l) (simp_all add: tag_piece_def)
  ultimately have "fst t @ CHR ''='' # snd t = fst u @ CHR ''='' # snd u \<and> concat (map tag_piece ts) = concat (map tag_piece vs)"
    using Cons.prems(1,2) by (intro stop_unique [where c = "CHR ''|''"]) (auto simp: us clean_def)
  moreover from this have "fst t = fst u \<and> CHR ''='' # snd t = CHR ''='' # snd u"
    using Cons.prems(1,2) by (intro stop_unique [where c = "CHR ''=''"]) (auto simp: us clean_def)
  ultimately show ?case using Cons.IH [of vs] Cons.prems(1,2) by (auto simp: us prod_eq_iff)
qed

lemma sorted_already: "sorted_tags ts \<Longrightarrow> fold (\<lambda>kv. tag_put (fst kv) (snd kv)) ts [] = ts"
  using sorted_tag_put_all [OF sorted_tags_Nil, of ts] sorted_tags_ext [of "tag_put_all ts []" ts] map_of_tag_put_all [of "[]" ts] map_of_rev_sorted [of ts]
  by (simp add: tag_put_all_def)

lemma id_text: "wf_id i \<Longrightarrow> id_to_string i = id_name i @ concat (map tag_piece (id_tags i))"
proof -
  have "foldl (\<lambda>res pair. res @ CHR ''|'' # fst pair @ CHR ''='' # snd pair) a ts = a @ concat (map tag_piece ts)" for a ts
    by (induction ts arbitrary: a) (simp_all add: tag_piece_def)
  then show "wf_id i \<Longrightarrow> ?thesis" by (simp add: id_to_string_def wf_id_def sorted_already)
qed

lemma id_text_inj:
  assumes "wf_id i" and "wf_id j"
  shows "id_to_string i = id_to_string j \<longleftrightarrow> i = j"
proof
  assume e: "id_to_string i = id_to_string j"
  have "concat (map tag_piece l) = [] \<or> hd (concat (map tag_piece l)) = CHR ''|''" for l
    by (cases l) (simp_all add: tag_piece_def)
  moreover have c: "clean (id_name i)" "clean (id_name j)" "\<forall>t \<in> set (id_tags i). clean (fst t) \<and> clean (snd t)"
    "\<forall>t \<in> set (id_tags j). clean (fst t) \<and> clean (snd t)" using assms sanitize_clean by (auto simp: wf_id_def)
  ultimately have "id_name i = id_name j \<and> concat (map tag_piece (id_tags i)) = concat (map tag_piece (id_tags j))"
    using e assms by (intro stop_unique [where c = "CHR ''|''"]) (auto simp: id_text clean_def)
  then show "i = j" using pieces_inj [OF c(3,4)] by (simp add: meter_id.equality)
qed simp

lemma map_upto:
  assumes "list_all (\<lambda>m. wf_id (m_id m)) ms" and "wf_id i" and "\<And>j. wf_id j \<Longrightarrow> f (id_to_string j) = g j"
  shows "fold (\<lambda>m res. res(id_to_string (m_id m) \<mapsto> m_value m)) ms f (id_to_string i) =
    (g ++ map_of (rev (map (\<lambda>m. (m_id m, m_value m)) ms))) i"
  using assms
proof (induction ms arbitrary: f g)
  case (Cons m ms)
  have "(f(id_to_string (m_id m) \<mapsto> m_value m)) (id_to_string j) = (g(m_id m \<mapsto> m_value m)) j" if "wf_id j" for j
    using that Cons.prems id_text_inj [of j "m_id m"] by simp
  with Cons.IH [of "f(id_to_string (m_id m) \<mapsto> m_value m)" "g(m_id m \<mapsto> m_value m)"] Cons.prems(1,2)
  show ?case by (simp add: map_add_def split: option.split)
qed simp

lemma measurement_equals_itself:
  \<comment> \<open>a measurement of an infinite value or of NaN differs from itself\<close>
  "eq_measurement m m \<longleftrightarrow> (\<forall>s. m_value m \<noteq> Inf s) \<and> m_value m \<noteq> NaN"
proof -
  have "rnd (2 powi (- 30)) = 2 powi (- 30)" by (rule rnd_exact [of _ 1 "- 30"]) simp_all
  then have "0 < rnd (1 / 10 ^ 9)"
    using rnd_mono [of "2 powi (- 30)" "1 / 10 ^ 9"] by (simp add: power_int_minus_divide)
  then show ?thesis
    by (cases "m_value m") (simp_all add: eq_measurement_def dsub_def dabs_def to_double_def Let_def)
qed

lemma my_meters_are_counted: "my_meters_size R + mm_size (am_mono_counters_uint (rg_meters R)) \<le> all_size (rg_meters R)"
proof -
  have f: "length (filter_my_meters l) \<le> length l" for l :: "'x meter_scheme list" by (simp add: filter_my_meters_def)
  show ?thesis
    using f [of "timers R"] f [of "counters R"] f [of "gauges R"] f [of "age_gauges R"] f [of "max_gauges R"]
      f [of "dist_summaries R"] f [of "mono_counters R"]
    by (simp add: my_meters_size_def all_size_def mm_size_def mm_get_values_def timers_def counters_def gauges_def
        age_gauges_def max_gauges_def dist_summaries_def mono_counters_def)
qed

section \<open>Properties\<close>

text \<open>
  The tests find every measurement by its text: the text of an identity (name, then the tags sorted by key) determines
  the identity, so that in the map the tests make of a poll the entry of an identity is the value it was reported
  with last, and there are no other entries.
\<close>

theorem measurements_are_found_by_their_text:
  assumes "registry_inv R" and "ages_defined now (rg_meters R)" and "wf_id i"
  shows "\<exists>R' ms. registry_measurements now R = Some (R', ms) \<and>
    measurements_to_map ms (id_to_string i) = map_of (rev (map (\<lambda>m. (m_id m, m_value m)) ms)) i \<and>
    dom (measurements_to_map ms) = (\<lambda>m. id_to_string (m_id m)) ` set ms"
proof -
  let ?ms = "all_reports now (rg_meter_ttl R) (rg_meters R)"
  obtain R' where R': "registry_measurements now R = Some (R', ?ms)"
    using registry_measurements_spec [OF assms(1,2)] by blast
  have "list_all (\<lambda>m. wf_id (m_id m)) ?ms" using polled_ids_wf [OF assms(1)] by (simp add: list_all_iff)
  then have v: "measurements_to_map ?ms (id_to_string i) = map_of (rev (map (\<lambda>m. (m_id m, m_value m)) ?ms)) i"
    unfolding measurements_to_map_def using map_upto [of ?ms i Map.empty Map.empty] assms(3) by simp
  have d: "dom (fold (\<lambda>m res. res(id_to_string (m_id m) \<mapsto> m_value m)) ms f) = dom f \<union> (\<lambda>m. id_to_string (m_id m)) ` set ms" for ms f
    by (induction ms arbitrary: f) auto
  have k: "dom (measurements_to_map ?ms) = (\<lambda>m. id_to_string (m_id m)) ` set ?ms"
    unfolding measurements_to_map_def d by simp
  show ?thesis using R' v k by (intro exI conjI)
qed

theorem measurements_are_found_by_their_text_witness:
  "\<exists>R' ms. registry_measurements 5 one_gauge = Some (R', ms) \<and>
    measurements_to_map ms (id_to_string (id_of ''a'' [])) = map_of (rev (map (\<lambda>m. (m_id m, m_value m)) ms)) (id_of ''a'' [])"
proof -
  from measurements_are_found_by_their_text [OF one_gauge_inv one_gauge_plain(2) wf_id_plain]
  show ?thesis by blast
qed

end
