(* ===== verification/Spec2Isabelle.thy ===== *)
theory Spec2Isabelle
  imports AtomicNumber Daemon EndToEnd SenderPool Lifecycle Admin Systemd Startup ServerStart CurlHandle Gzip PercQuery
    Logging BenchVariants BenchRuns MetricsGen HttpServer StatsdLaws Handled SmilePayload TestSupport
begin

text \<open>
  spectatord receives lines of text that update meters, keeps the meters in a registry, and every few
  seconds sends what they measured to an aggregator. This library is a model of the daemon, with proofs of
  what makes its parts correct. All paths are under \<open>src/\<close>.

  \<^bold>\<open>How the parts interact.\<close> Datagrams arrive at three sockets (\<open>Daemon\<close>); the bytes are parsed
  line by line (\<open>Server\<close>), every line requests a meter from the registry (\<open>Registry\<close>) by its identity
  (\<open>Ids\<close>, made of interned strings, \<open>StringPool\<close>, and sorted tags, \<open>Tags\<close>) and updates it
  (\<open>Meters\<close>, \<open>PercMeters\<close>). An upkeep loop adds statistics of the daemon itself. The publisher polls
  the registry, cuts the measurements into batches, encodes each as a payload (\<open>Smile\<close>) that is
  compressed (\<open>CompressedBuffer\<close>), posts it (\<open>HttpClient\<close>) and accounts for the answers
  (\<open>Publisher\<close>). The administration server shows and changes the registry (\<open>Admin\<close>). \<open>main\<close>
  makes the configuration of all this from its flags (\<open>Startup\<close>) and starts the server with its sockets
  (\<open>ServerStart\<close>).

  \<^bold>\<open>Theories.\<close>
  \<^item> \<open>Prelude\<close>: machine integers, C strings as memory, association lists; \<open>Doubles\<close> and
    \<open>DoubleBits\<close>: binary64 with its rounding and its representation; \<open>CLib\<close>: \<open>strtod\<close>,
    \<open>strtoll\<close> and their relatives.
  \<^item> \<open>StringPool\<close> (\<open>spectator/string_pool.h\<close>, \<open>.cc\<close>, \<open>string_intern.h\<close>), \<open>Tags\<close>
    (\<open>spectator/tags.h\<close>), \<open>Ids\<close> (\<open>id.h\<close>, \<open>common_refs.h\<close>, \<open>dist_stats.h\<close>,
    \<open>measurement.h\<close>): references denote texts, tags refine maps, identities are sanitised.
  \<^item> \<open>AtomicNumber\<close> (\<open>atomicnumber.h\<close>): the lock-free updates as a step relation of any number
    of threads; linearizability, and where draining between two steps counts twice.
  \<^item> \<open>Meters\<close> (\<open>counter\<close>, \<open>gauge\<close>, \<open>max_gauge\<close>, \<open>age_gauge\<close>, \<open>monotonic_counter\<close>,
    \<open>monotonic_counter_uint\<close>, \<open>monotonic_sampled\<close>, \<open>timer\<close>, \<open>dist_summary\<close>): what any
    sequence of updates and polls reports.
  \<^item> \<open>Registry\<close> (\<open>registry.h\<close>, \<open>registry.cc\<close>, \<open>config.h\<close>): the maps of meters, which
    hold references into a store because clients keep their meters beyond expiry; creation, measuring,
    expiry, deletion, with the invariant \<open>registry_inv\<close>.
  \<^item> \<open>PercBuckets\<close> (\<open>percentile_buckets.h\<close>, \<open>.cc\<close> and the generators in \<open>tools\<close>),
    \<open>PercMeters\<close> (\<open>percentile_timer.h\<close>, \<open>percentile_distribution_summary.h\<close>),
    \<open>ExpiringCache\<close> (\<open>server/expiring_cache.h\<close>).
  \<^item> \<open>Server\<close> (\<open>server/spectatord.cc\<close>): both protocols, with every error; \<open>ParserBounds\<close>:
    how far the parsers read; \<open>ServerInv\<close>: every line keeps the invariants; \<open>ServerLaws\<close>: printed lines
    are parsed back, rejected lines change nothing; \<open>StatsdLaws\<close>: the same for the statsd grammar, what a sampling
    rate makes of a recording, and the benchmark of that parser (\<open>bench/statsd_bench.cc\<close>); \<open>Handled\<close>: exactly which
    datagrams have a defined result, and the largest duration a line may give.
  \<^item> \<open>ProcUtils\<close> (\<open>server/proc_utils.cc\<close>) and \<open>Daemon\<close> (\<open>udp_server.cc\<close>,
    \<open>local_server.cc\<close>, the upkeep of \<open>spectatord.cc\<close>): the daemon as a step relation and its invariant.
  \<^item> \<open>Smile\<close> (\<open>smile.h\<close>, \<open>smile.cc\<close>) with a decoder of the format as the reference;
    \<open>CompressedBuffer\<close> (\<open>compressed_buffer.h\<close>, \<open>.cc\<close>); \<open>SmilePayload\<close>: the payload object over that buffer,
    written call by call, implements the bytes that \<open>Publisher\<close> computes at once; \<open>HttpClient\<close>
    (\<open>http_client.h\<close>, \<open>.cc\<close>, \<open>log_entry.h\<close>, \<open>strings.cc\<close>, \<open>gzip.cc\<close>);
    \<open>Publisher\<close> (\<open>publisher.h\<close>): batches, payloads and a reference reader of payloads, answers,
    \<open>send_metrics\<close> as a whole, its tasks one after the other in any order; \<open>SenderPool\<close>: the same tasks
    interleaved, which justifies that order; \<open>Lifecycle\<close> (start and stop of publisher and registry).
  \<^item> \<open>Admin\<close> (\<open>admin/admin_server.h\<close>, \<open>.cc\<close>): all routes; \<open>Systemd\<close> (\<open>util/systemd.h\<close>,
    \<open>util/file_watcher.h\<close>): which inherited socket is taken over, the address of a notification.
  \<^item> \<open>EndToEnd\<close>: what these parts give together: the numbers of the counter lines in any sequence of datagrams are,
    summed as doubles (exactly, for whole numbers up to 2^53), in the payloads of the next round.
  \<^item> \<open>Startup\<close> (\<open>bin/spectatord_main.cc\<close>, \<open>spectator/sample_config.cc\<close>): the flags, the
    configuration and the arguments of the server they give, which lists of common tags are accepted, what is then sent
    to which address and what is not;
    \<open>ServerStart\<close> (\<open>Server::Start\<close>, \<open>Stop\<close> and the watchdog of \<open>server/spectatord.cc\<close>,
    the constructor of \<open>udp_server.cc\<close>): the effects of a start in order, which ends ready exactly when all
    sockets are open; stopping as a step relation of two threads, with the notification that can be lost.
  \<^item> \<open>CurlHandle\<close> (\<open>CurlHandle\<close> and \<open>HttpClient::perform\<close> in \<open>http_client.cc\<close>,
    \<open>metatron/\<close>): the handle each thread uses again for all its requests implements the client of \<open>HttpClient\<close>,
    which has none; \<open>Gzip\<close>: decompression and the way back from a posted body.
  \<^item> \<open>PercQuery\<close> (\<open>Percentiles\<close>, \<open>Percentile\<close> in \<open>percentile_buckets.cc\<close>): the walk over the
    buckets for many percentages agrees with the one for each; \<open>Logging\<close> (\<open>util/logger.cc\<close>, the sinks and
    the formatter in \<open>util\<close>): which sinks a logger gets and what arrives at the collector.
  \<^item> \<open>BenchVariants\<close> (\<open>bench\<close>): the rival versions of the parser, the tags and the sanitiser that the benchmarks
    compare agree with those of the daemon, or where not; \<open>BenchRuns\<close>: their lines and loops, which compare equal
    work but whose later iterations sometimes have none; \<open>MetricsGen\<close> (\<open>tools/metrics_gen.cc\<close>): the lines of the
    load generator, most of which the daemon accepts; \<open>HttpServer\<close> (\<open>http_server.cc\<close>): the server the tests
    of the client talk to records requests as they were sent; \<open>TestSupport\<close> (the formatters of \<open>tags.h\<close>, \<open>id.h\<close> and
    \<open>measurement.h\<close>, \<open>test_utils\<close>): the texts by which the tests look up measurements determine the identities.
  \<^item> This theory: what spans the administration server, the registry and the publisher.

  \<^bold>\<open>State.\<close> An object is a record with the fields of its class; a shared pointer to a meter is its position in
  the store of its kind; a meter that is measured or updated is replaced in the store. Clock readings are
  arguments. Undefined behaviour of C++ (an overflow, a conversion out of range, a
  failed assertion) is \<open>None\<close>, errors of the program are values of a sum or of a data type.

  \<^bold>\<open>Interfaces.\<close> \<open>interner\<close> (the string pool), \<open>tag_store\<close> (the tags, and the containers they are
  benchmarked against), \<open>growing_sum\<close> (a cell
  under concurrent additions), \<open>reporting_meter\<close> and \<open>resetting_meter\<close> (what the registry relies on of
  a meter), \<open>meter_store\<close> (a map of meters), \<open>value_cache\<close> (the cache of percentile meters),
  \<open>local_parser\<close> (the loop over lines and the two parsers) and \<open>byte_sink\<close> (the payload and its compressed
  buffer). Each is a locale that is interpreted on the definitions of the model, in the theory that makes them.

  \<^bold>\<open>Libraries as parameters.\<close> \<open>absl::Duration\<close> (\<open>absl_laws\<close>), \<open>absl::StrSplit\<close>
  (\<open>split_laws\<close>), the hash functions and the iteration
  order of hash maps (\<open>iter_laws\<close>), zlib (\<open>zlib_laws\<close>, \<open>gzip_laws\<close>), curl (for the client a function
  from requests and a world to transfers, for the handle one from its options to the pieces it delivers), rapidjson
  (\<open>json_lib\<close>, of whose answers \<open>replies_ok\<close> asks the types that the code assumes; for log records a writer of calls), Poco (\<open>admin_lib\<close>), the system calls on descriptors.
  Their hypotheses are documented behaviour,
  and every theorem with such a hypothesis has a witness that instantiates it.

  \<^bold>\<open>Bounds and fuel.\<close> No definition uses fuel. Loops that may not end are partial functions
  (the batching loop and the loops of \<open>compress\<close>), and theorems say when they end: batching exactly for a positive
  size, compression from the laws of zlib. Payload theorems cover fewer than 2^19 strings and tags because the encoding
  of larger numbers is broken (see \<open>smile_values_round_trip\<close>). Sums of doubles are exact up to 2^53.

  \<^bold>\<open>Coarser than the code.\<close> \<open>std::clamp\<close> with its bounds in the wrong order and \<open>isspace\<close> of a negative character
  are undefined in C++ and have a value here (\<open>std_clamp\<close>, \<open>get_measurement\<close>); all NaNs are one value with one
  representation, which shows where the bits of a double are read as an integer (\<open>read_u\<close>). \<open>mm_remove_all\<close> removes
  what the loop means to remove, although the loop uses an iterator that the erasure has invalidated. Inputs that a property
  leaves out are named in its text: lines of the daemon's protocol that are empty or end in a comma, the sampled
  monotonic counters, error counts outside the batch.

  \<^bold>\<open>Not modelled.\<close> The insides of asio and spdlog (event loop, queue and thread of the logger), signals and the
  handler that prints stack traces, the timing loops of the benchmarks and the parser of command lines are calls of
  libraries without logic of the program. The test cases are not part of the daemon. How the library fmt prints
  ranges and doubles is a parameter. The text of log messages is left out, except where the
  sinks are the subject.
\<close>

section \<open>Common tags and payloads\<close>

lemma send_payloads:
  assumes "replies_ok J post"
  shows "map_option fst (send_metrics iter J post order enabled now P w R) =
    (case registry_measurements now R of
       None \<Rightarrow> None
     | Some (R1, ms) \<Rightarrow>
         if \<not> enabled \<or> ms = [] then Some []
         else case batches (cf_batch_size (rg_config R1)) ms of
           None \<Rightarrow> None
         | Some bs \<Rightarrow> map_option (\<lambda>ps. map snd (order (zip (map length bs) ps))) (all_payloads iter (pb_common_tags P) bs))"
  by (auto simp: send_metrics_def Let_def split_beta handled [OF assms] split: option.split)

lemma set_tags_keep:
  "rg_meters (fold set_tag its R) = rg_meters R" "rg_meter_ttl (fold set_tag its R) = rg_meter_ttl R"
  "rg_registry_size (fold set_tag its R) = rg_registry_size R"
  "cf_batch_size (rg_config (fold set_tag its R)) = cf_batch_size (rg_config R)"
  "cf_status_metrics_enabled (rg_config (fold set_tag its R)) = cf_status_metrics_enabled (rg_config R)"
  by (induction its arbitrary: R)
    (simp_all add: set_tag_def erase_common_tag_def update_common_tag_def split: json.split)

lemma POST_keeps:
  "rg_meters (snd (POST_config_common_tags L allowed body R)) = rg_meters R"
  "rg_meter_ttl (snd (POST_config_common_tags L allowed body R)) = rg_meter_ttl R"
  "rg_registry_size (snd (POST_config_common_tags L allowed body R)) = rg_registry_size R"
  "cf_batch_size (rg_config (snd (POST_config_common_tags L allowed body R))) = cf_batch_size (rg_config R)"
  "cf_status_metrics_enabled (rg_config (snd (POST_config_common_tags L allowed body R))) =
     cf_status_metrics_enabled (rg_config R)"
  by (simp_all add: POST_config_common_tags_def set_tags_keep split: option.split json.split)

text \<open>
  C32. Common tags that are posted to the administration server never reach the aggregator: the
  publisher copied them when it was made, and what it sends after the request is
  byte for byte what it would have sent without it.
\<close>

theorem posted_common_tags_do_not_reach_the_payloads:
  assumes "replies_ok J post"
  shows "map_option fst (send_metrics iter J post order enabled now P w (snd (POST_config_common_tags L allowed body R))) =
    map_option fst (send_metrics iter J post order enabled now P w R)"
proof -
  let ?R = "snd (POST_config_common_tags L allowed body R)"
  show ?thesis
    unfolding send_payloads [OF assms] registry_measurements_def POST_keeps
    by (auto simp: POST_keeps Let_def split: option.split)
qed

theorem posted_common_tags_do_not_reach_the_payloads_witness:
  "let L = sample_admin\<lparr>al_parse := (\<lambda>s. Some (J_Object [(''mantisUser'', J_String ''joe'')]))\<rparr>;
       R = snd (POST_config_common_tags L kAllowedTags [] one_gauge);
       P = \<lparr>pb_common_tags = [], pb_sent = 1, pb_invalid = 2, pb_dropped_http = 3, pb_dropped_other = 4, pb_last_success = 0\<rparr>;
       post = (\<lambda>p s. (\<lparr>hr_status = 200, hr_body = [], hr_headers = []\<rparr>, s))
   in cf_common_tags (rg_config R) = [(''mantisUser'', ''joe'')] \<and>
      map_option fst (send_metrics remdups five_errors post rev True 5 P () R) =
      map_option fst (send_metrics remdups five_errors post rev True 5 P () one_gauge)"
proof -
  let ?L = "sample_admin\<lparr>al_parse := (\<lambda>s. Some (J_Object [(''mantisUser'', J_String ''joe'')]))\<rparr>"
  have "cf_common_tags (rg_config one_gauge) = []" by (simp add: one_gauge_plain sample_config_def)
  then have "cf_common_tags (rg_config (snd (POST_config_common_tags ?L kAllowedTags [] one_gauge))) = [(''mantisUser'', ''joe'')]"
    by (simp add: POST_config_common_tags_def kAllowedTags_def set_tag_def update_common_tag_def)
  then show ?thesis
    unfolding Let_def posted_common_tags_do_not_reach_the_payloads [OF five_errors_replies] by simp
qed

end
